(* ===== verification/Kernel_Prelude.thy ===== *)
theory Kernel_Prelude
  imports Main "HOL-Library.Monad_Syntax" "HOL-Library.Word"
begin

text \<open>
  What every component of the development shares.

  \<^item> Error numbers: \<open>errno\<close> holds the codes of \<^verbatim>\<open>kern/include/kern/errno.h\<close>, with \<open>OK\<close> for
    the return value 0.
  \<^item> A kernel that stops: an operation that may fail an \<^verbatim>\<open>assert\<close>, call \<^verbatim>\<open>panic\<close>, access memory
    it does not own or not return at all has a result of type \<open>'a option\<close>, and \<open>None\<close> is that
    outcome. Such operations are written in the do-notation of the option type, and the
    collection \<open>kernel_ops\<close> holds the rules that take a successful run apart.
  \<^item> Machine integers: \<open>s32\<close> and \<open>u32\<close> reduce an integer to the value a C \<^verbatim>\<open>int\<close> or
    \<^verbatim>\<open>u_int32_t\<close> of the MIPS target holds.
  \<^item> Memory blocks: a block that \<^verbatim>\<open>kmalloc\<close> handed out is a list of cells, a C pointer to one
    is \<open>'a list option\<close> (\<open>None\<close> is \<^verbatim>\<open>NULL\<close>), and an access outside the block stops the kernel.
\<close>

section \<open>Error numbers\<close>

datatype errno =
    OK | EINVAL | EFAULT | ENAMETOOLONG | ENOMEM | EIO | ENOENT | ENOTDIR | EISDIR | EEXIST
  | EXDEV | EAGAIN | ESPIPE | EUNIMP | ENXIO | ENODEV | EBUSY | EIOCTL | ENOTEMPTY | ERANGE
  | ENOSPC | EMFILE | ENFILE | ENOSYS | ENOEXEC | E2BIG | EBADF

section \<open>Operations that may stop the kernel\<close>

named_theorems kernel_ops

definition kassert :: "bool \<Rightarrow> unit option" where
  "kassert b = (if b then Some () else None)"

lemma kassert_Some [kernel_ops, simp]: "kassert b = Some u \<longleftrightarrow> b"
  by (simp add: kassert_def)

lemma kassert_None [simp]: "kassert b = None \<longleftrightarrow> \<not> b"
  by (simp add: kassert_def)

lemma kassert_True [simp]: "kassert True = Some ()"
  by (simp add: kassert_def)

lemma kassert_False [simp]: "kassert False = None"
  by (simp add: kassert_def)

declare bind_eq_Some_conv [kernel_ops]

lemma kassert_bind [simp]: "b \<Longrightarrow> Option.bind (kassert b) f = f ()"
  by simp

lemma if_else_None_eq_Some [kernel_ops]: "(if b then x else None) = Some y \<longleftrightarrow> b \<and> x = Some y"
  by simp

section \<open>Machine integers\<close>

text \<open>The value of a 32-bit two's complement variable after it is assigned \<open>x\<close>.\<close>

definition s32 :: "int \<Rightarrow> int" where
  "s32 x = (x + 2147483648) mod 4294967296 - 2147483648"

definition u32 :: "int \<Rightarrow> int" where
  "u32 x = x mod 4294967296"

lemma s32_id [simp]: "-2147483648 \<le> x \<Longrightarrow> x < 2147483648 \<Longrightarrow> s32 x = x"
  by (simp add: s32_def)

lemma s32_lower: "-2147483648 \<le> s32 x"
  by (simp add: s32_def)

lemma s32_upper: "s32 x < 2147483648"
  by (simp add: s32_def)

lemma u32_id [simp]: "0 \<le> x \<Longrightarrow> x < 4294967296 \<Longrightarrow> u32 x = x"
  by (simp add: u32_def)

lemma u32_nonneg [simp]: "0 \<le> u32 x"
  by (simp add: u32_def)

lemma u32_upper [simp]: "u32 x < 4294967296"
  by (simp add: u32_def)

section \<open>Memory blocks\<close>

definition load :: "'a list option \<Rightarrow> int \<Rightarrow> 'a option" where
  "load b i = (case b of None \<Rightarrow> None
     | Some xs \<Rightarrow> if 0 \<le> i \<and> i < int (length xs) then Some (xs ! nat i) else None)"

definition store :: "'a list option \<Rightarrow> int \<Rightarrow> 'a \<Rightarrow> 'a list option" where
  "store b i x = (case b of None \<Rightarrow> None
     | Some xs \<Rightarrow> if 0 \<le> i \<and> i < int (length xs) then Some (xs[nat i := x]) else None)"

lemma load_Some [simp]:
  "0 \<le> i \<Longrightarrow> i < int (length xs) \<Longrightarrow> load (Some xs) i = Some (xs ! nat i)"
  by (simp add: load_def)

lemma load_eq_Some [kernel_ops]:
  "load b i = Some x \<longleftrightarrow> (\<exists>xs. b = Some xs \<and> 0 \<le> i \<and> i < int (length xs) \<and> x = xs ! nat i)"
  by (auto simp: load_def split: option.splits)

lemma store_Some [simp]:
  "0 \<le> i \<Longrightarrow> i < int (length xs) \<Longrightarrow> store (Some xs) i x = Some (xs[nat i := x])"
  by (simp add: store_def)

lemma store_eq_Some [kernel_ops]:
  "store b i x = Some ys \<longleftrightarrow>
     (\<exists>xs. b = Some xs \<and> 0 \<le> i \<and> i < int (length xs) \<and> ys = xs[nat i := x])"
  by (auto simp: store_def split: option.splits)

text \<open>
  \<open>km\<close> is what one call of \<^verbatim>\<open>kmalloc\<close> hands back for a number of bytes: \<^verbatim>\<open>NULL\<close>, or a block
  whose cells are 4-byte words with unknown contents. A block is as long as was asked for, and it
  lies in the directly mapped segment of the kernel, which is 512 MB long
  (\<^verbatim>\<open>kern/arch/mips/include/vm.h\<close>: \<^verbatim>\<open>MIPS_KSEG0\<close> to \<^verbatim>\<open>MIPS_KSEG1\<close>).
\<close>

type_synonym 'a kmalloc_words = "int \<Rightarrow> 'a list option"

definition words_of_size :: "'a kmalloc_words \<Rightarrow> bool" where
  "words_of_size km \<longleftrightarrow> (\<forall>n xs. km n = Some xs \<longrightarrow> int (length xs) = n div 4 \<and> n < 536870912)"

lemma words_of_sizeD: "words_of_size km \<Longrightarrow> km n = Some xs \<Longrightarrow> int (length xs) = n div 4"
  by (simp add: words_of_size_def)

lemma words_of_size_bound: "words_of_size km \<Longrightarrow> km n = Some xs \<Longrightarrow> n < 536870912"
  by (simp add: words_of_size_def)

section \<open>Lists\<close>

lemma list_update_take_less [simp]: "n \<le> i \<Longrightarrow> take n (xs[i := x]) = take n xs"
  by (simp add: take_update_swap list_update_beyond)

lemma take_Suc_update: "i < length xs \<Longrightarrow> take (Suc i) (xs[i := x]) = take i xs @ [x]"
  by (simp add: take_Suc_conv_app_nth)

end
