(* ===== verification/Libc_Memory.thy ===== *)
theory Libc_Memory
  imports Kernel_Prelude
begin

text \<open>
  The memory functions that kernel and libc share (\<^verbatim>\<open>lib/libc\<close>: \<^verbatim>\<open>memcpy.c\<close>, \<^verbatim>\<open>memmove.c\<close>,
  \<^verbatim>\<open>bzero.c\<close>, \<^verbatim>\<open>memset.c\<close>, \<^verbatim>\<open>memcmp.c\<close>).

  Memory is one list of cells and an address is an index into it, so source and destination may
  overlap as they may in C. The copy loops run on units of \<open>w\<close> cells: 1 for the byte loops and
  \<^verbatim>\<open>sizeof(long)\<close> = 4 for the word loops; one iteration reads a whole unit before it writes it.
  A unit outside memory stops the kernel (\<open>None\<close>). The value the C functions return is their
  destination argument, so the models return only the new memory.
\<close>

section \<open>The copy loops\<close>

definition put :: "'a list \<Rightarrow> nat \<Rightarrow> 'a list \<Rightarrow> 'a list" where
  "put m d ys = take d m @ ys @ drop (d + length ys) m"

definition move_unit :: "nat \<Rightarrow> nat \<Rightarrow> nat \<Rightarrow> 'a list \<Rightarrow> 'a list option" where
  "move_unit w d s m =
     (if d + w \<le> length m \<and> s + w \<le> length m then Some (put m d (take w (drop s m))) else None)"

function copy_up :: "nat \<Rightarrow> nat \<Rightarrow> nat \<Rightarrow> nat \<Rightarrow> nat \<Rightarrow> 'a list \<Rightarrow> 'a list option" where
  "copy_up w d s i n m =
     (if i < n then do { m' \<leftarrow> move_unit w (d + w * i) (s + w * i) m; copy_up w d s (Suc i) n m' }
      else Some m)"
  by pat_completeness auto
termination
  by (relation "measure (\<lambda>(w, d, s, i, n, m). n - i)") auto

primrec copy_down :: "nat \<Rightarrow> nat \<Rightarrow> nat \<Rightarrow> nat \<Rightarrow> 'a list \<Rightarrow> 'a list option" where
  "copy_down w d s 0 m = Some m"
| "copy_down w d s (Suc i) m =
     do { m' \<leftarrow> move_unit w (d + w * i) (s + w * i) m; copy_down w d s i m' }"

declare copy_up.simps [simp del]

section \<open>The library functions\<close>

definition memcpy :: "nat \<Rightarrow> nat \<Rightarrow> nat \<Rightarrow> 'a list \<Rightarrow> 'a list option" where
  "memcpy dst src len m =
     (if dst mod 4 = 0 \<and> src mod 4 = 0 \<and> len mod 4 = 0
      then copy_up 4 dst src 0 (len div 4) m
      else copy_up 1 dst src 0 len m)"

definition memmove :: "nat \<Rightarrow> nat \<Rightarrow> nat \<Rightarrow> 'a list \<Rightarrow> 'a list option" where
  "memmove dst src len m =
     (if dst < src then memcpy dst src len m
      else if dst mod 4 = 0 \<and> src mod 4 = 0 \<and> len mod 4 = 0
      then copy_down 4 dst src (len div 4) m
      else copy_down 1 dst src len m)"

text \<open>
  The same function on a block of aligned words: the cells are the words, so the byte addresses
  and the byte length are multiples of 4 and the word loops run.
\<close>

definition memmove_words :: "nat \<Rightarrow> nat \<Rightarrow> nat \<Rightarrow> 'a list \<Rightarrow> 'a list option" where
  "memmove_words dst src n m =
     (if dst < src then copy_up 1 dst src 0 n m else copy_down 1 dst src n m)"

function fill_up :: "nat \<Rightarrow> 'a list \<Rightarrow> nat \<Rightarrow> nat \<Rightarrow> nat \<Rightarrow> 'a list \<Rightarrow> 'a list option" where
  "fill_up w unit p i n m =
     (if i < n
      then (if p + w * i + w \<le> length m
            then fill_up w unit p (Suc i) n (put m (p + w * i) unit) else None)
      else Some m)"
  by pat_completeness auto
termination
  by (relation "measure (\<lambda>(w, unit, p, i, n, m). n - i)") auto

declare fill_up.simps [simp del]

definition bzero :: "nat \<Rightarrow> nat \<Rightarrow> 8 word list \<Rightarrow> 8 word list option" where
  "bzero block len m =
     (if block mod 4 = 0 \<and> len mod 4 = 0
      then fill_up 4 (replicate 4 0) block 0 (len div 4) m
      else fill_up 1 [0] block 0 len m)"

definition memset :: "nat \<Rightarrow> 8 word \<Rightarrow> nat \<Rightarrow> 8 word list \<Rightarrow> 8 word list option" where
  "memset p ch len m = fill_up 1 [ch] p 0 len m"

function memcmp_from :: "nat \<Rightarrow> nat \<Rightarrow> nat \<Rightarrow> nat \<Rightarrow> 8 word list \<Rightarrow> int option" where
  "memcmp_from a b i len m =
     (if i < len
      then (if a + i < length m \<and> b + i < length m
            then (if m ! (a + i) \<noteq> m ! (b + i) then Some (uint (m ! (a + i)) - uint (m ! (b + i)))
                  else memcmp_from a b (Suc i) len m)
            else None)
      else Some 0)"
  by pat_completeness auto
termination
  by (relation "measure (\<lambda>(a, b, i, len, m). len - i)") auto

declare memcmp_from.simps [simp del]

definition memcmp :: "nat \<Rightarrow> nat \<Rightarrow> nat \<Rightarrow> 8 word list \<Rightarrow> int option" where
  "memcmp a b len m = memcmp_from a b 0 len m"

section \<open>What the loops compute\<close>

lemma length_put [simp]: "d + length ys \<le> length m \<Longrightarrow> length (put m d ys) = length m"
  by (simp add: put_def)

lemma nth_put:
  "d + length ys \<le> length m \<Longrightarrow> k < length m \<Longrightarrow>
     put m d ys ! k = (if d \<le> k \<and> k < d + length ys then ys ! (k - d) else m ! k)"
  by (auto simp: put_def nth_append)

lemma put_Nil [simp]: "put m d [] = m"
  by (simp add: put_def)

lemma put_put_append:
  "d + length ys + length zs \<le> length m \<Longrightarrow>
     put (put m d ys) (d + length ys) zs = put m d (ys @ zs)"
  by (rule nth_equalityI) (auto simp: nth_put nth_append)

lemma put_put_prepend:
  "d + length zs + length ys \<le> length m \<Longrightarrow>
     put (put m (d + length zs) ys) d zs = put m d (zs @ ys)"
  by (rule nth_equalityI) (auto simp: nth_put nth_append)

lemma take_drop_put:
  assumes "d + length ys \<le> length m" and "s + n \<le> d \<or> d + length ys \<le> s"
    and "s + n \<le> length m"
  shows "take n (drop s (put m d ys)) = take n (drop s m)"
  using assms by (intro nth_equalityI) (auto simp: nth_put)

text \<open>Going up is right when the destination starts below the source.\<close>

lemma copy_up_from:
  assumes "d \<le> s" and "d + w * n \<le> length m" and "s + w * n \<le> length m" and "i \<le> n"
  shows "copy_up w d s i n (put m d (take (w * i) (drop s m))) =
           Some (put m d (take (w * n) (drop s m)))"
  using assms
proof (induction "n - i" arbitrary: i)
  case 0
  then show ?case by (simp add: copy_up.simps)
next
  case (Suc k)
  let ?done = "take (w * i) (drop s m)"
  from Suc.hyps(2) have "i < n" by simp
  then have "w * i + w \<le> w * n"
    by (metis Suc_leI add.commute mult_Suc_right mult_le_mono2)
  with Suc.prems have bounds: "d + w * i + w \<le> length m" "s + w * i + w \<le> length m" by auto
  have len: "length ?done = w * i" using bounds by simp
  have "take w (drop (s + w * i) (put m d ?done)) = take w (drop (s + w * i) m)"
    using bounds len Suc.prems(1) by (intro take_drop_put) auto
  then have "move_unit w (d + w * i) (s + w * i) (put m d ?done) =
      Some (put m d (?done @ take w (drop (s + w * i) m)))"
    using bounds len put_put_append[of d ?done "take w (drop (s + w * i) m)" m]
    by (simp add: move_unit_def)
  moreover have "?done @ take w (drop (s + w * i) m) = take (w * Suc i) (drop s m)"
    by (simp add: take_add add.commute[of w] add.commute[of s])
  ultimately show ?case
    using Suc.hyps(1)[of "Suc i"] Suc.hyps(2) Suc.prems \<open>i < n\<close>
    by (simp add: copy_up.simps[of w d s i n])
qed

lemma copy_up_spec:
  assumes "d \<le> s" and "d + w * n \<le> length m" and "s + w * n \<le> length m"
  shows "copy_up w d s 0 n m = Some (put m d (take (w * n) (drop s m)))"
  using copy_up_from[OF assms, of 0] by simp

text \<open>Going down is right when the source does not start above the destination.\<close>

lemma copy_down_spec:
  assumes "s \<le> d" and "d + w * n \<le> length m" and "s + w * n \<le> length m"
  shows "copy_down w d s n m = Some (put m d (take (w * n) (drop s m)))"
  using assms
proof (induction n arbitrary: m)
  case 0
  then show ?case by simp
next
  case (Suc n)
  let ?u = "take w (drop (s + w * n) m)"
  have len: "length ?u = w" using Suc.prems by simp
  have same: "take (w * n) (drop s (put m (d + w * n) ?u)) = take (w * n) (drop s m)"
    using Suc.prems len by (intro take_drop_put) auto
  have "copy_down w d s n (put m (d + w * n) ?u) =
      Some (put (put m (d + w * n) ?u) d (take (w * n) (drop s m)))"
    using Suc.IH[of "put m (d + w * n) ?u"] Suc.prems len same by simp
  also have "put (put m (d + w * n) ?u) d (take (w * n) (drop s m)) =
      put m d (take (w * n) (drop s m) @ ?u)"
    using put_put_prepend[of d "take (w * n) (drop s m)" ?u m] Suc.prems len by simp
  also have "take (w * n) (drop s m) @ ?u = take (w * Suc n) (drop s m)"
    by (simp add: take_add add.commute[of w] add.commute[of s])
  finally show ?case using Suc.prems len by (simp add: move_unit_def)
qed

lemma memcpy_spec:
  assumes "dst \<le> src" and "dst + len \<le> length m" and "src + len \<le> length m"
  shows "memcpy dst src len m = Some (put m dst (take len (drop src m)))"
  using assms copy_up_spec[of dst src 4 "len div 4" m] copy_up_spec[of dst src 1 len m]
  by (auto simp: memcpy_def)

lemma memmove_words_spec:
  assumes "dst + n \<le> length m" and "src + n \<le> length m"
  shows "memmove_words dst src n m = Some (put m dst (take n (drop src m)))"
  using assms copy_up_spec[of dst src 1 n m] copy_down_spec[of src dst 1 n m]
  by (simp add: memmove_words_def)

lemma concat_replicate_snoc: "concat (replicate (Suc i) u) = concat (replicate i u) @ u"
  by (induction i) auto

lemma fill_up_from:
  assumes "p + w * n \<le> length m" and "length unit = w" and "i \<le> n"
  shows "fill_up w unit p i n (put m p (concat (replicate i unit))) =
           Some (put m p (concat (replicate n unit)))"
  using assms
proof (induction "n - i" arbitrary: i)
  case 0
  then show ?case by (simp add: fill_up.simps)
next
  case (Suc k)
  let ?done = "concat (replicate i unit)"
  have len: "length ?done = w * i"
    using Suc.prems by (simp add: length_concat sum_list_replicate)
  from Suc.hyps(2) have "i < n" by simp
  then have "w * i + w \<le> w * n"
    by (metis Suc_leI add.commute mult_Suc_right mult_le_mono2)
  with Suc.prems have bounds: "p + w * i + w \<le> length m" by simp
  then have "put (put m p ?done) (p + w * i) unit = put m p (concat (replicate (Suc i) unit))"
    using put_put_append[of p ?done unit m] len Suc.prems
    by (simp only: concat_replicate_snoc)
  with Suc.hyps(1)[of "Suc i"] Suc.hyps(2) Suc.prems bounds len \<open>i < n\<close> show ?case
    by (simp add: fill_up.simps[of w unit p i n] del: replicate_Suc)
qed

lemma concat_replicate_single [simp]: "concat (replicate n [x]) = replicate n x"
  by (induction n) auto

lemma concat_replicate_replicate: "concat (replicate n (replicate k x)) = replicate (n * k) x"
  by (induction n) (auto simp: replicate_add)

lemma memset_spec:
  "p + len \<le> length m \<Longrightarrow> memset p ch len m = Some (put m p (replicate len ch))"
  using fill_up_from[of p 1 len m "[ch]" 0] by (simp add: memset_def)

lemma bzero_spec:
  "block + len \<le> length m \<Longrightarrow> bzero block len m = Some (put m block (replicate len 0))"
  using fill_up_from[of block 4 "len div 4" m "replicate 4 0" 0] fill_up_from[of block 1 len m "[0]" 0]
  by (auto simp: bzero_def concat_replicate_replicate)

lemma memcmp_from_zero:
  "a + len \<le> length m \<Longrightarrow> b + len \<le> length m \<Longrightarrow>
     \<exists>r. memcmp_from a b i len m = Some r \<and>
         (r = 0 \<longleftrightarrow> (\<forall>k. i \<le> k \<and> k < len \<longrightarrow> m ! (a + k) = m ! (b + k)))"
proof (induction a b i len m rule: memcmp_from.induct)
  case (1 a b i len m)
  show ?case
  proof (cases "i < len \<and> m ! (a + i) = m ! (b + i)")
    case True
    with 1 obtain r where "memcmp_from a b (Suc i) len m = Some r"
      and "r = 0 \<longleftrightarrow> (\<forall>k. Suc i \<le> k \<and> k < len \<longrightarrow> m ! (a + k) = m ! (b + k))" by auto
    with True 1(2,3) show ?thesis
      by (auto simp: memcmp_from.simps[of a b i] Suc_le_eq) (metis Suc_leI le_neq_implies_less)+
  next
    case False
    with 1(2,3) show ?thesis
      by (auto simp: memcmp_from.simps[of a b i] dest: word_uint_eqI)
  qed
qed

section \<open>Properties\<close>

text \<open>
  C17. \<^verbatim>\<open>memmove\<close> copies \<open>len\<close> bytes correctly however the two regions overlap and whichever of the
  byte and word loops runs: it returns, every destination byte is the byte the source region held
  before the call, and every byte outside the destination is unchanged.
\<close>

theorem memmove_correct:
  assumes "dst + len \<le> length m" and "src + len \<le> length m"
  shows "\<exists>m'. memmove dst src len m = Some m' \<and> length m' = length m \<and>
           (\<forall>k < length m. m' ! k = (if dst \<le> k \<and> k < dst + len then m ! (src + (k - dst)) else m ! k))"
proof -
  have "memmove dst src len m = Some (put m dst (take len (drop src m)))"
    using assms memcpy_spec[of dst src len m] copy_down_spec[of src dst 4 "len div 4" m]
      copy_down_spec[of src dst 1 len m]
    by (auto simp: memmove_def)
  with assms show ?thesis by (auto simp: nth_put)
qed

theorem memmove_correct_witness:
  "\<exists>m'. memmove 1 0 3 [10, 20, 30, 40, 50 :: 8 word] = Some m' \<and> length m' = 5 \<and>
     (\<forall>k < 5. m' ! k = (if 1 \<le> k \<and> k < 4 then [10, 20, 30, 40, 50] ! (0 + (k - 1))
                      else [10, 20, 30, 40, 50] ! k))"
  using memmove_correct[of 1 3 "[10, 20, 30, 40, 50 :: 8 word]" 0] by (simp add: eval_nat_numeral)

lemma memcmp_zero_iff:
  assumes "a + len \<le> length m" and "b + len \<le> length m"
  shows "\<exists>r. memcmp a b len m = Some r \<and> (r = 0 \<longleftrightarrow> take len (drop a m) = take len (drop b m))"
proof -
  have "take len (drop a m) = take len (drop b m) \<longleftrightarrow> (\<forall>k < len. m ! (a + k) = m ! (b + k))"
    using assms by (auto simp: list_eq_iff_nth_eq)
  with memcmp_from_zero[OF assms, of 0] show ?thesis by (auto simp: memcmp_def)
qed

end
