(* ===== verification/Libc_Printf.thy ===== *)
theory Libc_Printf
  imports Kernel_Prelude
begin

text \<open>
  Formatted output: \<^verbatim>\<open>lib/libc/__printf.c\<close> and \<^verbatim>\<open>lib/libc/snprintf.c\<close>.

  Strings are lists of characters without the terminating NUL. The callback is a function on the state of
  its client and is part of the arguments of every function that prints. The variable arguments are a list;
  fetching one that is not there, or is of the other kind, has no result.
\<close>

section \<open>Model of the formatter\<close>

datatype va = VInt int | VStr "string option"

record 'c PF =
  clientdata :: 'c
  pf_ap :: "va list"
  charcount :: int
  in_pct :: bool
  longsz :: bool
  pf_num :: int
  pf_sign :: bool
  spacing :: int
  rightspc :: bool
  fillchar :: char
  pf_base :: int
  baseprefix :: bool
  altformat :: bool

type_synonym 'c sendfunc = "'c \<Rightarrow> string \<Rightarrow> 'c option"

definition pf_print :: "'c sendfunc \<Rightarrow> string \<Rightarrow> 'c PF \<Rightarrow> 'c PF option" where
  "pf_print send txt pf = do {
     c \<leftarrow> send (clientdata pf) txt;
     Some (pf\<lparr>clientdata := c, charcount := s32 (charcount pf + int (length txt))\<rparr>)
   }"

definition pf_endfield :: "'c PF \<Rightarrow> 'c PF" where
  "pf_endfield pf = pf\<lparr>in_pct := False, longsz := False, pf_num := 0, pf_sign := False, spacing := 0, rightspc := False,
     fillchar := CHR '' '', pf_base := 0, baseprefix := False, altformat := False\<rparr>"

definition digit_value :: "char \<Rightarrow> int" where
  "digit_value ch = int (of_char ch) - 48"

definition pf_modifier :: "char \<Rightarrow> 'c PF \<Rightarrow> 'c PF option" where
  "pf_modifier ch pf =
     (if ch = CHR ''#'' then Some (pf\<lparr>altformat := True\<rparr>)
      else if ch = CHR ''-'' then Some (pf\<lparr>rightspc := True\<rparr>)
      else if ch = CHR ''l'' then Some (pf\<lparr>longsz := True\<rparr>)
      else if ch = CHR ''q'' then Some (pf\<lparr>longsz := True\<rparr>)
      else if ch = CHR ''0'' then
        Some (if spacing pf > 0 then pf\<lparr>spacing := s32 (spacing pf * 10)\<rparr> else pf\<lparr>fillchar := CHR ''0''\<rparr>)
      else do {
        kassert (0 < digit_value ch \<and> digit_value ch \<le> 9);
        Some (pf\<lparr>spacing := s32 (spacing pf * 10 + digit_value ch)\<rparr>)
      })"

text \<open>\<^verbatim>\<open>int\<close>, \<^verbatim>\<open>long\<close> and pointers have 32 bits; the negation of the smallest number wraps around.\<close>

definition pf_getnum :: "char \<Rightarrow> 'c PF \<Rightarrow> 'c PF option" where
  "pf_getnum ch pf = (case pf_ap pf of
       VInt i # ap \<Rightarrow>
         Some (if ch = CHR ''d'' \<and> s32 i < 0 then pf\<lparr>pf_ap := ap, pf_sign := True, pf_num := u32 (- s32 i)\<rparr>
               else if ch = CHR ''d'' then pf\<lparr>pf_ap := ap, pf_num := u32 (s32 i)\<rparr>
               else pf\<lparr>pf_ap := ap, pf_num := u32 i\<rparr>)
     | _ \<Rightarrow> None)"

definition pf_setbase :: "char \<Rightarrow> 'c PF \<Rightarrow> 'c PF" where
  "pf_setbase ch pf =
     (let pf1 = (if ch = CHR ''d'' \<or> ch = CHR ''u'' then pf\<lparr>pf_base := 10\<rparr>
                 else if ch = CHR ''x'' \<or> ch = CHR ''p'' then pf\<lparr>pf_base := 16\<rparr>
                 else if ch = CHR ''o'' then pf\<lparr>pf_base := 8\<rparr>
                 else pf)
      in if altformat pf1 \<or> ch = CHR ''p'' then pf1\<lparr>baseprefix := True\<rparr> else pf1)"

primrec pf_fill :: "'c sendfunc \<Rightarrow> nat \<Rightarrow> 'c PF \<Rightarrow> 'c PF option" where
  "pf_fill send 0 pf = Some pf"
| "pf_fill send (Suc n) pf = do { pf1 \<leftarrow> pf_print send [fillchar pf] pf; pf_fill send n pf1 }"

definition pf_printstuff :: "'c sendfunc \<Rightarrow> string \<Rightarrow> string \<Rightarrow> string \<Rightarrow> 'c PF \<Rightarrow> 'c PF option" where
  "pf_printstuff send prefix prefix2 stuff pf = do {
     let len = int (length prefix + length prefix2 + length stuff);
     let spc = (if spacing pf > len then spacing pf - len else 0);
     pf1 \<leftarrow> (if spc > 0 \<and> \<not> rightspc pf \<and> fillchar pf \<noteq> CHR ''0'' then pf_fill send (nat spc) pf else Some pf);
     pf2 \<leftarrow> pf_print send prefix pf1;
     pf3 \<leftarrow> pf_print send prefix2 pf2;
     pf4 \<leftarrow> (if spc > 0 \<and> \<not> rightspc pf3 \<and> fillchar pf3 = CHR ''0'' then pf_fill send (nat spc) pf3 else Some pf3);
     pf5 \<leftarrow> pf_print send stuff pf4;
     (if spc > 0 \<and> rightspc pf5 then pf_fill send (nat spc) pf5 else Some pf5)
   }"

text \<open>
  The loop that writes the digits from right to left: the buffer, the place of the next digit, the rest of
  the number. A base below 2 does not occur.
\<close>

definition hexdigits :: string where
  "hexdigits = ''0123456789abcdef''"

function printnum_loop :: "string \<Rightarrow> int \<Rightarrow> int \<Rightarrow> int \<Rightarrow> (string \<times> int) option" where
  "printnum_loop buf x xnum base =
     (if base < 2 \<or> xnum < 0 then None
      else case store (Some buf) x (hexdigits ! nat (xnum mod base)) of
          None \<Rightarrow> None
        | Some buf' \<Rightarrow> if xnum div base > 0 then printnum_loop buf' (x - 1) (xnum div base) base else Some (buf', x - 1))"
  by pat_completeness auto
termination
proof (relation "measure (\<lambda>(buf, x, xnum, base). nat xnum)")
  fix buf :: string and x xnum base :: int and buf' :: string
  assume "\<not> (base < 2 \<or> xnum < 0)" "xnum div base > 0"
  then have "0 \<le> xnum" "2 \<le> base" "0 < xnum" by (auto intro: ccontr simp: pos_imp_zdiv_pos_iff)
  then have "xnum div base < xnum" by (intro int_div_less_self) auto
  then show "((buf', x - 1, xnum div base, base), buf, x, xnum, base) \<in> measure (\<lambda>(buf, x, xnum, base). nat xnum)"
    using \<open>0 < xnum\<close> by simp
qed simp

declare printnum_loop.simps [simp del]

text \<open>\<open>NUMBER_BUF_SIZE\<close> is \<^verbatim>\<open>32 / 3 + 2\<close>; the cells that are not written are not read.\<close>

definition NUMBER_BUF_SIZE :: nat where
  "NUMBER_BUF_SIZE = 12"

definition number_text :: "int \<Rightarrow> int \<Rightarrow> string option" where
  "number_text num base = do {
     (buf, x) \<leftarrow> printnum_loop (replicate NUMBER_BUF_SIZE (CHR 0x00)) (int NUMBER_BUF_SIZE - 2) num base;
     Some (takeWhile (\<lambda>c. c \<noteq> CHR 0x00) (drop (nat (x + 1)) buf))
   }"

definition pf_printnum :: "'c sendfunc \<Rightarrow> 'c PF \<Rightarrow> 'c PF option" where
  "pf_printnum send pf = do {
     x \<leftarrow> number_text (pf_num pf) (pf_base pf);
     let bprefix = (if baseprefix pf \<and> pf_base pf = 16 then ''0x'' else if baseprefix pf \<and> pf_base pf = 8 then ''0'' else []);
     let sprefix = (if pf_sign pf then ''-'' else []);
     pf_printstuff send sprefix bprefix x pf
   }"

text \<open>The three kinds of fields: integers, strings, and everything else, of which only \<^verbatim>\<open>%c\<close> has an argument.\<close>

definition pf_integer :: "'c sendfunc \<Rightarrow> char \<Rightarrow> 'c PF \<Rightarrow> 'c PF option" where
  "pf_integer send ch pf = do {
     pf1 \<leftarrow> pf_getnum ch pf;
     pf2 \<leftarrow> pf_printnum send (pf_setbase ch pf1);
     Some (pf_endfield pf2)
   }"

definition pf_string :: "'c sendfunc \<Rightarrow> 'c PF \<Rightarrow> 'c PF option" where
  "pf_string send pf = (case pf_ap pf of
       VStr s # ap \<Rightarrow> do {
         pf1 \<leftarrow> pf_printstuff send [] [] (case s of None \<Rightarrow> ''(null)'' | Some str \<Rightarrow> str) (pf\<lparr>pf_ap := ap\<rparr>);
         Some (pf_endfield pf1)
       }
     | _ \<Rightarrow> None)"

definition pf_char :: "'c sendfunc \<Rightarrow> char \<Rightarrow> 'c PF \<Rightarrow> 'c PF option" where
  "pf_char send ch pf =
     (if ch = CHR ''c'' then
        (case pf_ap pf of
           VInt i # ap \<Rightarrow> do {
             let x = (char_of (nat (i mod 256)) :: char);
             pf1 \<leftarrow> pf_printstuff send [] [] (if x = CHR 0x00 then [] else [x]) (pf\<lparr>pf_ap := ap\<rparr>);
             Some (pf_endfield pf1)
           }
         | _ \<Rightarrow> None)
      else do { pf1 \<leftarrow> pf_printstuff send [] [] [ch] pf; Some (pf_endfield pf1) })"

definition modifier_chars :: string where
  "modifier_chars = ''#-ql0123456789''"

definition integer_chars :: string where
  "integer_chars = ''doupx''"

definition pf_send :: "'c sendfunc \<Rightarrow> char \<Rightarrow> 'c PF \<Rightarrow> 'c PF option" where
  "pf_send send ch pf =
     (if ch = CHR 0x00 then None
      else if \<not> in_pct pf \<and> ch \<noteq> CHR ''%'' then pf_print send [ch] pf
      else if \<not> in_pct pf then Some (pf\<lparr>in_pct := True\<rparr>)
      else if ch \<in> set modifier_chars then pf_modifier ch pf
      else if ch \<in> set integer_chars then pf_integer send ch pf
      else if ch = CHR ''s'' then pf_string send pf
      else pf_char send ch pf)"

primrec pf_sends :: "'c sendfunc \<Rightarrow> string \<Rightarrow> 'c PF \<Rightarrow> 'c PF option" where
  "pf_sends send [] pf = Some pf"
| "pf_sends send (ch # fmt) pf = do { pf1 \<leftarrow> pf_send send ch pf; pf_sends send fmt pf1 }"

definition pf_init :: "'c \<Rightarrow> va list \<Rightarrow> 'c PF" where
  "pf_init c ap = \<lparr>clientdata = c, pf_ap = ap, charcount = 0, in_pct = False, longsz = False, pf_num = 0, pf_sign = False,
     spacing = 0, rightspc = False, fillchar = CHR '' '', pf_base = 0, baseprefix = False, altformat = False\<rparr>"

definition vprintf :: "'c sendfunc \<Rightarrow> 'c \<Rightarrow> string \<Rightarrow> va list \<Rightarrow> (int \<times> 'c) option" where
  "vprintf func c format ap = do { pf \<leftarrow> pf_sends func format (pf_init c ap); Some (charcount pf, clientdata pf) }"

section \<open>Model of snprintf\<close>

record SNP =
  snp_buf :: string
  buflen :: int
  bufpos :: int

primrec snprintf_send :: "SNP \<Rightarrow> string \<Rightarrow> SNP option" where
  "snprintf_send snp [] = Some snp"
| "snprintf_send snp (c # cs) = do {
     snp1 \<leftarrow> (if bufpos snp < buflen snp
             then do { b \<leftarrow> store (Some (snp_buf snp)) (bufpos snp) c; Some (snp\<lparr>snp_buf := b, bufpos := bufpos snp + 1\<rparr>) }
             else Some snp);
     snprintf_send snp1 cs
   }"

text \<open>\<open>buf\<close> is the memory from \<^verbatim>\<open>buf\<close> on, which may be longer than \<open>len\<close>.\<close>

definition vsnprintf :: "string \<Rightarrow> int \<Rightarrow> string \<Rightarrow> va list \<Rightarrow> (int \<times> string) option" where
  "vsnprintf buf len fmt ap = do {
     (chars, snp) \<leftarrow> vprintf snprintf_send \<lparr>snp_buf = buf, buflen = (if len = 0 then 0 else len - 1), bufpos = 0\<rparr> fmt ap;
     if len > 0 then do { b \<leftarrow> store (Some (snp_buf snp)) (bufpos snp) (CHR 0x00); Some (chars, b) }
     else Some (chars, snp_buf snp)
   }"

definition snprintf :: "string \<Rightarrow> int \<Rightarrow> string \<Rightarrow> va list \<Rightarrow> (int \<times> string) option" where
  "snprintf buf len fmt ap = vsnprintf buf len fmt ap"

section \<open>Formatting does not depend on the client\<close>

text \<open>
  Two clients that stay related by every call of their callbacks are related after the whole format: the
  formatter sends both the same text.
\<close>

definition pf_rel :: "('c \<Rightarrow> 'd \<Rightarrow> bool) \<Rightarrow> 'c PF \<Rightarrow> 'd PF \<Rightarrow> bool" where
  "pf_rel R p q \<longleftrightarrow> R (clientdata p) (clientdata q) \<and> pf_ap p = pf_ap q \<and> charcount p = charcount q \<and> in_pct p = in_pct q \<and>
     longsz p = longsz q \<and> pf_num p = pf_num q \<and> pf_sign p = pf_sign q \<and> spacing p = spacing q \<and> rightspc p = rightspc q \<and>
     fillchar p = fillchar q \<and> pf_base p = pf_base q \<and> baseprefix p = baseprefix q \<and> altformat p = altformat q"

lemma pf_rel_flags: "pf_rel R p q \<Longrightarrow> rightspc p = rightspc q \<and> fillchar p = fillchar q"
  by (simp add: pf_rel_def)

lemma rel_option_bind:
  "rel_option A x y \<Longrightarrow> (\<And>a b. A a b \<Longrightarrow> rel_option B (f a) (g b)) \<Longrightarrow> rel_option B (Option.bind x f) (Option.bind y g)"
  by (cases x; cases y) auto

lemma rel_option_if:
  "rel_option A x y \<Longrightarrow> rel_option A x' y' \<Longrightarrow> rel_option A (if b then x else x') (if b then y else y')"
  by simp

locale printf_clients =
  fixes send :: "'c sendfunc" and send' :: "'d sendfunc" and R :: "'c \<Rightarrow> 'd \<Rightarrow> bool"
  assumes send_law: "R c d \<Longrightarrow> rel_option R (send c s) (send' d s)"
begin

lemma print_rel: "pf_rel R p q \<Longrightarrow> rel_option (pf_rel R) (pf_print send txt p) (pf_print send' txt q)"
  unfolding pf_print_def by (rule rel_option_bind[where A = R]) (auto simp: pf_rel_def intro: send_law)

lemma fill_rel: "pf_rel R p q \<Longrightarrow> rel_option (pf_rel R) (pf_fill send n p) (pf_fill send' n q)"
proof (induction n arbitrary: p q)
  case (Suc n)
  have "fillchar p = fillchar q" using Suc.prems by (simp add: pf_rel_def)
  then show ?case using rel_option_bind[OF print_rel[OF Suc.prems, of "[fillchar q]"] Suc.IH] by simp
qed simp

lemma fill_if_rel:
  "pf_rel R p q \<Longrightarrow> b = b' \<Longrightarrow> rel_option (pf_rel R) (if b then pf_fill send n p else Some p) (if b' then pf_fill send' n q else Some q)"
  by (simp add: fill_rel)

lemma printstuff_rel:
  assumes "pf_rel R p q"
  shows "rel_option (pf_rel R) (pf_printstuff send a b s p) (pf_printstuff send' a b s q)"
proof -
  have eq: "spacing p = spacing q" "rightspc p = rightspc q" "fillchar p = fillchar q" using assms by (simp_all add: pf_rel_def)
  show ?thesis unfolding pf_printstuff_def Let_def eq
    by (intro rel_option_bind[where A = "pf_rel R"] fill_if_rel print_rel assms refl; (assumption | simp add: pf_rel_flags))
qed

lemma printnum_rel:
  assumes "pf_rel R p q"
  shows "rel_option (pf_rel R) (pf_printnum send p) (pf_printnum send' q)"
proof -
  have "pf_num p = pf_num q" "pf_base p = pf_base q" "baseprefix p = baseprefix q" "pf_sign p = pf_sign q" using assms by (simp_all add: pf_rel_def)
  then show ?thesis unfolding pf_printnum_def by (cases "number_text (pf_num q) (pf_base q)") (simp_all add: printstuff_rel[OF assms])
qed

lemma modifier_rel: "pf_rel R p q \<Longrightarrow> rel_option (pf_rel R) (pf_modifier ch p) (pf_modifier ch q)"
  unfolding pf_modifier_def by (cases "0 < digit_value ch \<and> digit_value ch \<le> 9") (auto simp: pf_rel_def)

lemma getnum_rel: "pf_rel R p q \<Longrightarrow> rel_option (pf_rel R) (pf_getnum ch p) (pf_getnum ch q)"
  unfolding pf_getnum_def by (auto simp: pf_rel_def split: list.splits va.splits)

lemma setbase_rel: "pf_rel R p q \<Longrightarrow> pf_rel R (pf_setbase ch p) (pf_setbase ch q)"
  unfolding pf_setbase_def Let_def by (auto simp: pf_rel_def)

lemma endfield_rel: "pf_rel R p q \<Longrightarrow> pf_rel R (pf_endfield p) (pf_endfield q)"
  by (simp add: pf_rel_def pf_endfield_def)

lemma stuff_field_rel:
  "pf_rel R p q \<Longrightarrow> rel_option (pf_rel R) (Option.bind (pf_printstuff send a b s p) (\<lambda>x. Some (pf_endfield x)))
     (Option.bind (pf_printstuff send' a b s q) (\<lambda>x. Some (pf_endfield x)))"
  by (rule rel_option_bind[OF printstuff_rel]) (auto intro: endfield_rel)

lemma integer_rel: "pf_rel R p q \<Longrightarrow> rel_option (pf_rel R) (pf_integer send ch p) (pf_integer send' ch q)"
  unfolding pf_integer_def
  by (rule rel_option_bind[OF getnum_rel], assumption, rule rel_option_bind[OF printnum_rel])
    (auto intro: endfield_rel setbase_rel)

lemma ap_rel: "pf_rel R p q \<Longrightarrow> pf_rel R (p\<lparr>pf_ap := l\<rparr>) (q\<lparr>pf_ap := l\<rparr>)"
  by (simp add: pf_rel_def)

lemma string_rel: "pf_rel R p q \<Longrightarrow> rel_option (pf_rel R) (pf_string send p) (pf_string send' q)"
proof -
  assume r: "pf_rel R p q"
  then have "pf_ap p = pf_ap q" by (simp add: pf_rel_def)
  then show ?thesis unfolding pf_string_def by (simp add: stuff_field_rel[OF ap_rel[OF r]] split: list.split va.split)
qed

lemma char_rel: "pf_rel R p q \<Longrightarrow> rel_option (pf_rel R) (pf_char send ch p) (pf_char send' ch q)"
proof -
  assume r: "pf_rel R p q"
  then have "pf_ap p = pf_ap q" by (simp add: pf_rel_def)
  then show ?thesis unfolding pf_char_def Let_def
    by (simp add: stuff_field_rel[OF ap_rel[OF r]] stuff_field_rel[OF r] split: list.split va.split)
qed

lemma send_rel:
  assumes "pf_rel R p q"
  shows "rel_option (pf_rel R) (pf_send send ch p) (pf_send send' ch q)"
proof -
  have eq: "in_pct p = in_pct q" using assms by (simp add: pf_rel_def)
  have pct: "rel_option (pf_rel R) (Some (p\<lparr>in_pct := True\<rparr>)) (Some (q\<lparr>in_pct := True\<rparr>))" using assms by (simp add: pf_rel_def)
  show ?thesis unfolding pf_send_def eq
    by (intro rel_option_if print_rel modifier_rel integer_rel string_rel char_rel pct assms option.rel_intros)
qed

lemma sends_rel: "pf_rel R p q \<Longrightarrow> rel_option (pf_rel R) (pf_sends send fmt p) (pf_sends send' fmt q)"
  by (induction fmt arbitrary: p q) (auto intro!: rel_option_bind send_rel)

lemma vprintf_rel: "R c d \<Longrightarrow> rel_option (rel_prod (=) R) (vprintf send c fmt ap) (vprintf send' d fmt ap)"
  unfolding vprintf_def
  by (rule rel_option_bind[OF sends_rel]) (auto simp: pf_rel_def pf_init_def)

end

section \<open>Numbers\<close>

text \<open>The text of a number as it is written down, and the number a text stands for.\<close>

definition digit_char :: "int \<Rightarrow> char" where
  "digit_char d = hexdigits ! nat d"

function digits_of :: "int \<Rightarrow> int \<Rightarrow> string" where
  "digits_of base n = (if base < 2 \<or> n < base then [digit_char n] else digits_of base (n div base) @ [digit_char (n mod base)])"
  by pat_completeness auto
termination
  by (relation "measure (\<lambda>(base, n). nat n)") (auto intro: int_div_less_self)

declare digits_of.simps [simp del]

definition hex_value :: "char \<Rightarrow> int" where
  "hex_value c = (if of_char c < (58 :: nat) then int (of_char c) - 48 else int (of_char c) - 87)"

definition value_of :: "int \<Rightarrow> string \<Rightarrow> int" where
  "value_of base s = foldl (\<lambda>v c. v * base + hex_value c) 0 s"

lemma less_16_cases: "0 \<le> d \<Longrightarrow> d < 16 \<Longrightarrow> d \<in> {0, 1, 2, 3, 4, 5, 6, 7, 8, 9, 10, 11, 12, 13, 14, 15 :: int}"
  unfolding insert_iff empty_iff by presburger

lemma digit_char_facts:
  assumes "0 \<le> d" and "d < 16"
  shows "hex_value (digit_char d) = d" and "digit_char d \<noteq> CHR 0x00"
  using less_16_cases[OF assms] by (auto simp: digit_char_def hexdigits_def hex_value_def)

lemma mod_digit: "2 \<le> base \<Longrightarrow> base \<le> 16 \<Longrightarrow> 0 \<le> n mod base" "2 \<le> base \<Longrightarrow> base \<le> 16 \<Longrightarrow> n mod base < (16 :: int)"
  using pos_mod_bound[of base n] pos_mod_sign[of base n] by linarith+

lemma digits_value: "2 \<le> base \<Longrightarrow> base \<le> 16 \<Longrightarrow> 0 \<le> n \<Longrightarrow> value_of base (digits_of base n) = n"
proof (induction base n rule: digits_of.induct)
  case (1 base n)
  show ?case
  proof (cases "n < base")
    case True
    with 1 show ?thesis by (simp add: digits_of.simps[of base n] value_of_def digit_char_facts)
  next
    case False
    with 1 have "value_of base (digits_of base (n div base)) = n div base" by (simp add: pos_imp_zdiv_nonneg_iff)
    moreover have "hex_value (digit_char (n mod base)) = n mod base"
      by (rule digit_char_facts(1)[OF mod_digit[OF 1(2,3)]])
    ultimately show ?thesis using False 1(2) by (simp add: digits_of.simps[of base n] value_of_def)
  qed
qed

lemma digits_no_nul: "2 \<le> base \<Longrightarrow> base \<le> 16 \<Longrightarrow> 0 \<le> n \<Longrightarrow> CHR 0x00 \<notin> set (digits_of base n)"
proof (induction base n rule: digits_of.induct)
  case (1 base n)
  show ?case using 1 digit_char_facts(2)[of n] digit_char_facts(2)[OF mod_digit[OF 1(2,3)], of n]
    by (cases "n < base") (auto simp: digits_of.simps[of base n] pos_imp_zdiv_nonneg_iff)
qed

lemma div_less_factor: "n < m * base \<Longrightarrow> 0 < base \<Longrightarrow> n div base < (m :: int)"
proof -
  assume a: "n < m * base" "0 < base"
  have "n div base * base \<le> n" using div_mult_mod_eq[of n base] pos_mod_sign[OF a(2), of n] by linarith
  then have "n div base * base < m * base" using a(1) by (rule order.strict_trans1)
  then show ?thesis using a(2) by (simp add: mult_less_cancel_right)
qed

lemma digits_length: "2 \<le> base \<Longrightarrow> 0 \<le> n \<Longrightarrow> n < base ^ Suc k \<Longrightarrow> length (digits_of base n) \<le> Suc k"
proof (induction k arbitrary: n)
  case (Suc k)
  show ?case
  proof (cases "n < base")
    case False
    have "n < base ^ Suc k * base" using Suc.prems(3) by (simp add: mult_ac)
    then have "n div base < base ^ Suc k" using Suc.prems(1) by (intro div_less_factor) simp_all
    then show ?thesis using Suc.IH[of "n div base"] Suc.prems False
      by (simp add: digits_of.simps[of base n] pos_imp_zdiv_nonneg_iff)
  qed (simp add: digits_of.simps[of base n])
qed (simp add: digits_of.simps)

lemma printnum_loop_spec:
  assumes "2 \<le> base" and "0 \<le> n" and "int (length (digits_of base n)) \<le> x + 1" and "x < int (length buf)"
  shows "printnum_loop buf x n base = Some (take (nat (x + 1) - length (digits_of base n)) buf @ digits_of base n @ drop (nat (x + 1)) buf,
    x - int (length (digits_of base n)))"
  using assms
proof (induction base n arbitrary: buf x rule: digits_of.induct)
  case (1 base n)
  have x: "0 \<le> x" using 1(4) by (cases "n < base") (simp_all add: digits_of.simps[of base n] split: if_splits)
  let ?buf = "buf[nat x := hexdigits ! nat (n mod base)]"
  have st: "store (Some buf) x (hexdigits ! nat (n mod base)) = Some ?buf" using x 1(5) by (simp add: store_def)
  show ?case
  proof (cases "n < base")
    case True
    then have "n div base = 0" "n mod base = n" using 1(2,3) by simp_all
    moreover have "take (nat x) buf @ hexdigits ! nat n # drop (Suc (nat x)) buf = buf[nat x := hexdigits ! nat n]"
      using x 1(5) by (simp add: upd_conv_take_nth_drop)
    ultimately show ?thesis using True 1(2,3) x st
      by (simp add: printnum_loop.simps[of buf] digits_of.simps[of base n] digit_char_def nat_add_distrib)
  next
    case False
    let ?ds = "digits_of base (n div base)"
    have d: "digits_of base n = ?ds @ [digit_char (n mod base)]" using False 1(2) by (simp add: digits_of.simps[of base n])
    have pos: "0 < n div base" using False 1(2,3) by (simp add: pos_imp_zdiv_pos_iff)
    have len: "int (length ?ds) \<le> x" using 1(4) by (simp add: d)
    have "printnum_loop ?buf (x - 1) (n div base) base =
        Some (take (nat x - length ?ds) ?buf @ ?ds @ drop (nat x) ?buf, x - 1 - int (length ?ds))"
      using 1(1)[of "x - 1" ?buf] False 1(2,5) pos len by simp
    moreover have "take (nat x - length ?ds) ?buf = take (nat x - length ?ds) buf" by simp
    moreover have "drop (nat x) ?buf = digit_char (n mod base) # drop (Suc (nat x)) buf"
      using x 1(5) by (simp add: digit_char_def drop_update_swap Cons_nth_drop_Suc[symmetric])
    ultimately show ?thesis using 1(2,3) st pos x by (simp add: printnum_loop.simps[of buf] d nat_add_distrib)
  qed
qed

lemma number_text_digits:
  assumes "8 \<le> base" and "base \<le> 16" and "0 \<le> n" and "n < 4294967296"
  shows "number_text n base = Some (digits_of base n)" and "length (digits_of base n) \<le> 11"
proof -
  have "(8 :: int) ^ Suc 10 \<le> base ^ Suc 10" by (rule power_mono) (use assms in auto)
  then have "n < base ^ Suc 10" using assms(4) by simp
  then show len: "length (digits_of base n) \<le> 11" using digits_length[of base n 10] assms by simp
  let ?z = "replicate 12 (CHR 0x00)"
  have "printnum_loop ?z 10 n base = Some (take (11 - length (digits_of base n)) ?z @ digits_of base n @ drop 11 ?z, 10 - int (length (digits_of base n)))"
    using printnum_loop_spec[of base n 10 ?z] len assms by simp
  moreover have "nat (11 - int (length (digits_of base n))) = 11 - length (digits_of base n)" using len by linarith
  moreover have "takeWhile (\<lambda>c. c \<noteq> CHR 0x00) (digits_of base n @ drop 11 ?z) = digits_of base n"
    using digits_no_nul[of base n] assms by (subst takeWhile_append2) (auto simp: numeral_eq_Suc)
  ultimately show "number_text n base = Some (digits_of base n)" using len by (simp add: number_text_def NUMBER_BUF_SIZE_def)
qed

section \<open>Printing into a buffer\<close>

text \<open>The client that keeps everything it is sent, and the relation of \<^verbatim>\<open>snprintf\<close>'s client to it.\<close>

definition collect :: "string \<Rightarrow> string \<Rightarrow> string option" where
  "collect out s = Some (out @ s)"

definition snp_rel :: "string \<Rightarrow> nat \<Rightarrow> string \<Rightarrow> SNP \<Rightarrow> bool" where
  "snp_rel buf0 lim out snp \<longleftrightarrow> lim \<le> length buf0 \<and> buflen snp = int lim \<and> bufpos snp = int (min lim (length out)) \<and>
     snp_buf snp = take lim out @ drop (min lim (length out)) buf0"

lemma snprintf_send_char:
  assumes "snp_rel buf0 lim out snp"
  shows "\<exists>snp'. snprintf_send snp [c] = Some snp' \<and> snp_rel buf0 lim (out @ [c]) snp'"
proof (cases "length out < lim")
  case True
  then have "length out < length buf0" using assms by (simp add: snp_rel_def)
  then have "(out @ drop (length out) buf0)[length out := c] = out @ c # drop (Suc (length out)) buf0"
    by (simp add: list_update_append Cons_nth_drop_Suc[symmetric])
  moreover have "min lim (Suc (length out)) = Suc (length out)" "min lim (length out) = length out" using True by simp_all
  ultimately show ?thesis using True assms by (simp add: snp_rel_def store_def)
next
  case False
  with assms show ?thesis by (auto simp: snp_rel_def min_def)
qed

lemma snprintf_send_append: "snprintf_send snp (a @ b) = Option.bind (snprintf_send snp a) (\<lambda>s. snprintf_send s b)"
  by (induction a arbitrary: snp) (simp_all split: bind_splits)

lemma snprintf_send_rel: "snp_rel buf0 lim out snp \<Longrightarrow> \<exists>snp'. snprintf_send snp s = Some snp' \<and> snp_rel buf0 lim (out @ s) snp'"
proof (induction s arbitrary: out snp)
  case (Cons c s)
  obtain snp1 where 1: "snprintf_send snp [c] = Some snp1" "snp_rel buf0 lim (out @ [c]) snp1"
    using snprintf_send_char[OF Cons.prems] by blast
  from Cons.IH[OF 1(2)] obtain snp2 where "snprintf_send snp1 s = Some snp2" "snp_rel buf0 lim (out @ c # s) snp2" by auto
  moreover have "snprintf_send snp (c # s) = snprintf_send snp1 s" using snprintf_send_append[of snp "[c]" s] 1(1) by simp
  ultimately show ?case by simp
qed simp

interpretation snp: printf_clients collect snprintf_send "snp_rel buf0 lim" for buf0 lim
proof
  fix c :: string and d :: SNP and s :: string
  assume "snp_rel buf0 lim c d"
  then show "rel_option (snp_rel buf0 lim) (collect c s) (snprintf_send d s)"
    using snprintf_send_rel[of buf0 lim c d s] by (auto simp: collect_def)
qed

lemma snp_rel_terminate:
  assumes "snp_rel buf0 lim out snp" and "lim < length buf0"
  shows "store (Some (snp_buf snp)) (bufpos snp) ch = Some (take lim out @ ch # drop (Suc (length (take lim out))) buf0)"
proof -
  let ?k = "min lim (length out)"
  have k: "?k < length buf0" using assms(2) by simp
  have "snp_buf snp = take lim out @ drop ?k buf0" "bufpos snp = int ?k" "length (take lim out) = ?k" using assms(1) by (auto simp: snp_rel_def)
  moreover have "(drop ?k buf0)[0 := ch] = ch # drop (Suc ?k) buf0" using k by (simp add: Cons_nth_drop_Suc[symmetric])
  ultimately show ?thesis using k by (simp add: store_def list_update_append)
qed

section \<open>Formats and their arguments\<close>

text \<open>The arguments fit the format: \<open>p\<close> says whether a field has begun.\<close>

fun args_fit :: "bool \<Rightarrow> string \<Rightarrow> va list \<Rightarrow> bool" where
  "args_fit p [] ap = True"
| "args_fit p (ch # fmt) ap =
     (ch \<noteq> CHR 0x00 \<and>
      (if \<not> p then args_fit (ch = CHR ''%'') fmt ap
       else if ch \<in> set modifier_chars then args_fit True fmt ap
       else if ch \<in> set integer_chars \<or> ch = CHR ''c'' then (case ap of VInt i # ap' \<Rightarrow> args_fit False fmt ap' | _ \<Rightarrow> False)
       else if ch = CHR ''s'' then (case ap of VStr s # ap' \<Rightarrow> args_fit False fmt ap' | _ \<Rightarrow> False)
       else args_fit False fmt ap))"

text \<open>
  What every function of the formatter keeps up when its client is \<open>collect\<close>: the count is the length of
  the text so far, as an \<^verbatim>\<open>int\<close>.
\<close>

definition pf_counts :: "va list \<Rightarrow> bool \<Rightarrow> string PF \<Rightarrow> bool" where
  "pf_counts ap p pf \<longleftrightarrow> pf_ap pf = ap \<and> in_pct pf = p \<and> charcount pf = s32 (int (length (clientdata pf)))"

lemma s32_add: "s32 (s32 a + b) = s32 (a + b)"
  unfolding s32_def by (simp add: mod_simps algebra_simps)

lemma print_counts: "pf_counts ap p pf \<Longrightarrow> \<exists>pf'. pf_print collect s pf = Some pf' \<and> pf_counts ap p pf'"
  by (simp add: pf_print_def collect_def pf_counts_def s32_add)

lemma fill_counts: "pf_counts ap p pf \<Longrightarrow> \<exists>pf'. pf_fill collect n pf = Some pf' \<and> pf_counts ap p pf'"
proof (induction n arbitrary: pf)
  case (Suc n)
  then obtain pf1 where "pf_print collect [fillchar pf] pf = Some pf1" "pf_counts ap p pf1" using print_counts by blast
  with Suc.IH[of pf1] show ?case by simp
qed simp

lemma fill_if_counts: "pf_counts ap p pf \<Longrightarrow> \<exists>pf'. (if b then pf_fill collect n pf else Some pf) = Some pf' \<and> pf_counts ap p pf'"
  using fill_counts by (cases b) auto

lemma printstuff_counts:
  assumes "pf_counts ap p pf"
  shows "\<exists>pf'. pf_printstuff collect a b s pf = Some pf' \<and> pf_counts ap p pf'"
proof -
  define spc where "spc = (let len = int (length a + length b + length s) in if spacing pf > len then spacing pf - len else 0)"
  obtain pf1 where 1: "(if spc > 0 \<and> \<not> rightspc pf \<and> fillchar pf \<noteq> CHR ''0'' then pf_fill collect (nat spc) pf else Some pf) = Some pf1" "pf_counts ap p pf1"
    using fill_if_counts[OF assms] by blast
  obtain pf2 where 2: "pf_print collect a pf1 = Some pf2" "pf_counts ap p pf2" using print_counts[OF 1(2)] by blast
  obtain pf3 where 3: "pf_print collect b pf2 = Some pf3" "pf_counts ap p pf3" using print_counts[OF 2(2)] by blast
  obtain pf4 where 4: "(if spc > 0 \<and> \<not> rightspc pf3 \<and> fillchar pf3 = CHR ''0'' then pf_fill collect (nat spc) pf3 else Some pf3) = Some pf4" "pf_counts ap p pf4"
    using fill_if_counts[OF 3(2)] by blast
  obtain pf5 where 5: "pf_print collect s pf4 = Some pf5" "pf_counts ap p pf5" using print_counts[OF 4(2)] by blast
  obtain pf6 where 6: "(if spc > 0 \<and> rightspc pf5 then pf_fill collect (nat spc) pf5 else Some pf5) = Some pf6" "pf_counts ap p pf6"
    using fill_if_counts[OF 5(2)] by blast
  show ?thesis unfolding pf_printstuff_def Let_def spc_def[unfolded Let_def, symmetric] using 1 2 3 4 5 6 by simp
qed

lemma endfield_counts: "pf_counts ap p pf \<Longrightarrow> pf_counts ap False (pf_endfield pf)"
  by (simp add: pf_counts_def pf_endfield_def)

lemma stuff_field_counts:
  assumes "pf_counts ap p pf"
  shows "\<exists>pf'. Option.bind (pf_printstuff collect a b s pf) (\<lambda>x. Some (pf_endfield x)) = Some pf' \<and> pf_counts ap False pf'"
proof -
  obtain pf1 where "pf_printstuff collect a b s pf = Some pf1" "pf_counts ap p pf1" using printstuff_counts[OF assms] by blast
  then show ?thesis using endfield_counts by simp
qed

lemma integer_counts:
  assumes "pf_counts (VInt i # ap) p pf" and "ch \<in> set integer_chars"
  shows "\<exists>pf'. pf_integer collect ch pf = Some pf' \<and> pf_counts ap False pf'"
proof -
  define pf1 where "pf1 = (if ch = CHR ''d'' \<and> s32 i < 0 then pf\<lparr>pf_ap := ap, pf_sign := True, pf_num := u32 (- s32 i)\<rparr>
    else if ch = CHR ''d'' then pf\<lparr>pf_ap := ap, pf_num := u32 (s32 i)\<rparr> else pf\<lparr>pf_ap := ap, pf_num := u32 i\<rparr>)"
  have 1: "pf_getnum ch pf = Some pf1" "pf_counts ap p pf1" "0 \<le> pf_num pf1" "pf_num pf1 < 4294967296"
    using assms(1) by (simp_all add: pf1_def pf_getnum_def pf_counts_def)
  let ?pf = "pf_setbase ch pf1"
  have 2: "pf_counts ap p ?pf" "pf_num ?pf = pf_num pf1" using 1(2) by (simp_all add: pf_setbase_def pf_counts_def Let_def)
  have "8 \<le> pf_base ?pf" "pf_base ?pf \<le> 16" using assms(2) by (auto simp: pf_setbase_def Let_def integer_chars_def)
  then have "number_text (pf_num ?pf) (pf_base ?pf) = Some (digits_of (pf_base ?pf) (pf_num ?pf))"
    using 1(3,4) unfolding 2(2) by (intro number_text_digits) simp_all
  then obtain a b c where "pf_printnum collect ?pf = pf_printstuff collect a b c ?pf" unfolding pf_printnum_def Let_def by simp
  moreover obtain pf3 where 3: "pf_printstuff collect a b c ?pf = Some pf3" "pf_counts ap p pf3" using printstuff_counts[OF 2(1)] by blast
  ultimately have "pf_integer collect ch pf = Some (pf_endfield pf3)" using 1(1) by (simp add: pf_integer_def)
  with endfield_counts[OF 3(2)] show ?thesis by blast
qed

lemma modifier_keeps:
  "pf_modifier ch pf = Some pf' \<Longrightarrow> pf_ap pf' = pf_ap pf \<and> in_pct pf' = in_pct pf \<and> charcount pf' = charcount pf \<and> clientdata pf' = clientdata pf"
  unfolding pf_modifier_def by (auto simp: kernel_ops split: if_split_asm)

lemma modifier_chars_cases:
  "list_all (\<lambda>ch. ch = CHR ''#'' \<or> ch = CHR ''-'' \<or> ch = CHR ''l'' \<or> ch = CHR ''q'' \<or> ch = CHR ''0'' \<or> 0 < digit_value ch \<and> digit_value ch \<le> 9) modifier_chars"
  by code_simp

lemma modifier_counts:
  assumes "pf_counts ap p pf" and "ch \<in> set modifier_chars"
  shows "\<exists>pf'. pf_modifier ch pf = Some pf' \<and> pf_counts ap p pf'"
proof -
  have "ch = CHR ''#'' \<or> ch = CHR ''-'' \<or> ch = CHR ''l'' \<or> ch = CHR ''q'' \<or> ch = CHR ''0'' \<or> 0 < digit_value ch \<and> digit_value ch \<le> 9"
    using modifier_chars_cases assms(2) by (simp add: list_all_iff)
  then have "pf_modifier ch pf \<noteq> None" by (elim disjE) (simp_all add: pf_modifier_def)
  then obtain pf' where "pf_modifier ch pf = Some pf'" by blast
  with modifier_keeps[OF this] assms(1) show ?thesis by (simp add: pf_counts_def)
qed

lemma format_chars:
  "ch \<in> set integer_chars \<Longrightarrow> ch \<notin> set modifier_chars" "CHR ''c'' \<notin> set modifier_chars" "CHR ''c'' \<notin> set integer_chars"
  "CHR ''s'' \<notin> set modifier_chars" "CHR ''s'' \<notin> set integer_chars"
  by (auto simp: modifier_chars_def integer_chars_def)

lemma send_counts:
  assumes "pf_counts ap p pf" and "args_fit p (ch # fmt) ap"
  shows "\<exists>pf' ap' p'. pf_send collect ch pf = Some pf' \<and> pf_counts ap' p' pf' \<and> args_fit p' fmt ap'"
proof -
  have p: "in_pct pf = p" "pf_ap pf = ap" using assms(1) by (simp_all add: pf_counts_def)
  have nz: "ch \<noteq> CHR 0x00" using assms(2) by simp
  have upd: "pf_counts ap' p (pf\<lparr>pf_ap := ap'\<rparr>)" for ap' using assms(1) by (simp add: pf_counts_def)
  consider "\<not> p" "ch \<noteq> CHR ''%''" | "\<not> p" "ch = CHR ''%''" | "p" "ch \<in> set modifier_chars" | "p" "ch \<in> set integer_chars"
    | "p" "ch = CHR ''c''" | "p" "ch = CHR ''s''" | "p" "ch \<notin> set modifier_chars" "ch \<notin> set integer_chars" "ch \<noteq> CHR ''c''" "ch \<noteq> CHR ''s''"
    by blast
  then show ?thesis
  proof cases
    case 1
    then have "pf_send collect ch pf = pf_print collect [ch] pf" "args_fit False fmt ap" using nz p assms(2) by (simp_all add: pf_send_def)
    with print_counts[OF assms(1), of "[ch]"] 1(1) show ?thesis by auto
  next
    case 2
    then have "pf_send collect ch pf = Some (pf\<lparr>in_pct := True\<rparr>)" "args_fit True fmt ap" using p assms(2) by (simp_all add: pf_send_def)
    moreover have "pf_counts ap True (pf\<lparr>in_pct := True\<rparr>)" using assms(1) by (simp add: pf_counts_def)
    ultimately show ?thesis by blast
  next
    case 3
    then have "pf_send collect ch pf = pf_modifier ch pf" "args_fit True fmt ap" using nz p assms(2) by (simp_all add: pf_send_def)
    with modifier_counts[OF assms(1) 3(2)] 3(1) show ?thesis by auto
  next
    case 4
    note n = format_chars(1)[OF 4(2)]
    obtain i ap' where a: "ap = VInt i # ap'" "args_fit False fmt ap'"
      using assms(2) 4 n by (simp split: list.splits va.splits)
    have "pf_send collect ch pf = pf_integer collect ch pf" using 4 n nz p by (simp add: pf_send_def)
    with integer_counts[OF assms(1)[unfolded a(1)] 4(2)] a(2) show ?thesis by auto
  next
    case 5
    then obtain i ap' where a: "ap = VInt i # ap'" "args_fit False fmt ap'" using assms(2) by (simp add: format_chars split: list.splits va.splits)
    have "pf_send collect ch pf = pf_char collect ch pf" using 5 p by (simp add: pf_send_def format_chars)
    then obtain s where "pf_send collect ch pf = Option.bind (pf_printstuff collect [] [] s (pf\<lparr>pf_ap := ap'\<rparr>)) (\<lambda>x. Some (pf_endfield x))"
      using 5(2) p(2) a(1) unfolding pf_char_def Let_def by simp
    with stuff_field_counts[OF upd[of ap'], of "[]" "[]" s] a(2) show ?thesis by metis
  next
    case 6
    then obtain s ap' where a: "ap = VStr s # ap'" "args_fit False fmt ap'" using assms(2) by (simp add: format_chars split: list.splits va.splits)
    have "pf_send collect ch pf = pf_string collect pf" using 6 p by (simp add: pf_send_def format_chars)
    then obtain x where "pf_send collect ch pf = Option.bind (pf_printstuff collect [] [] x (pf\<lparr>pf_ap := ap'\<rparr>)) (\<lambda>x. Some (pf_endfield x))"
      using p(2) a(1) unfolding pf_string_def by simp
    with stuff_field_counts[OF upd[of ap'], of "[]" "[]" x] a(2) show ?thesis by metis
  next
    case 7
    then have "pf_send collect ch pf = Option.bind (pf_printstuff collect [] [] [ch] pf) (\<lambda>x. Some (pf_endfield x))" "args_fit False fmt ap"
      using nz p assms(2) by (simp_all add: pf_send_def pf_char_def)
    with stuff_field_counts[OF assms(1), of "[]" "[]" "[ch]"] show ?thesis by metis
  qed
qed

lemma sends_counts:
  "pf_counts ap p pf \<Longrightarrow> args_fit p fmt ap \<Longrightarrow> \<exists>pf' ap' p'. pf_sends collect fmt pf = Some pf' \<and> pf_counts ap' p' pf'"
proof (induction fmt arbitrary: ap p pf)
  case (Cons ch fmt)
  from send_counts[OF Cons.prems] obtain pf1 ap1 p1 where 1: "pf_send collect ch pf = Some pf1" "pf_counts ap1 p1 pf1" "args_fit p1 fmt ap1" by blast
  from Cons.IH[OF 1(2,3)] 1(1) show ?case by simp
qed auto

section \<open>Properties\<close>

text \<open>
  C35. Formatting always ends: for a format without NUL whose fields find arguments of their kind, \<^verbatim>\<open>__vprintf\<close>
  returns, whatever the widths, flags and values are; in particular the digits of a number never leave the
  buffer they are assembled in. Its result is the number of characters it sent, as an \<^verbatim>\<open>int\<close>.
\<close>

theorem vprintf_returns:
  assumes "args_fit False fmt ap"
  shows "\<exists>out. vprintf collect [] fmt ap = Some (s32 (int (length out)), out)"
proof -
  have "pf_counts ap False (pf_init [] ap)" by (simp add: pf_counts_def pf_init_def)
  with sends_counts[OF this assms] show ?thesis by (auto simp: vprintf_def pf_counts_def)
qed

theorem vprintf_returns_witness:
  "\<exists>out. vprintf collect [] ''%5d|%-3s|%#o%%'' [VInt (-42), VStr None, VInt 8] = Some (s32 (int (length out)), out)"
  by (rule vprintf_returns) (simp add: modifier_chars_def integer_chars_def)

text \<open>
  C36. The text of a number means the number: for every 32-bit value and every base between 8 and 16 the loop of
  \<^verbatim>\<open>__pf_printnum\<close> gives a text of at most 11 digits, so that with the NUL it fits its 12 bytes, and reading
  the digits in that base gives the value back.
\<close>

theorem number_text_roundtrip:
  assumes "8 \<le> base" and "base \<le> 16" and "0 \<le> n" and "n < 4294967296"
  shows "\<exists>s. number_text n base = Some s \<and> value_of base s = n \<and> 0 < length s \<and> Suc (length s) \<le> NUMBER_BUF_SIZE"
proof -
  have "digits_of base n \<noteq> []" by (simp add: digits_of.simps[of base n])
  then show ?thesis using number_text_digits[OF assms] digits_value[of base n] assms by (simp add: NUMBER_BUF_SIZE_def)
qed

theorem number_text_roundtrip_witness:
  "\<exists>s. number_text 4294967295 8 = Some s \<and> value_of 8 s = 4294967295 \<and> 0 < length s \<and> Suc (length s) \<le> NUMBER_BUF_SIZE"
  by (rule number_text_roundtrip) simp_all

text \<open>
  C34. \<^verbatim>\<open>snprintf\<close> is \<^verbatim>\<open>printf\<close> cut off: for every format and every arguments it leaves in the buffer the first
  \<open>len - 1\<close> characters of what an unlimited \<^verbatim>\<open>printf\<close> would produce and a NUL after them, changes no byte
  behind the NUL and none at all when \<open>len\<close> is 0, returns the count of the unlimited output, and has no
  result exactly when \<^verbatim>\<open>printf\<close> has none.
\<close>

theorem snprintf_is_truncated_printf:
  assumes "0 \<le> len" and "len \<le> int (length buf)"
  shows "snprintf buf len fmt ap = map_option (\<lambda>(n, out). (n, if len = 0 then buf else
    take (nat len - 1) out @ CHR 0x00 # drop (Suc (length (take (nat len - 1) out))) buf)) (vprintf collect [] fmt ap)"
proof -
  define lim where "lim = nat len - 1"
  let ?snp = "\<lparr>snp_buf = buf, buflen = (if len = 0 then 0 else len - 1), bufpos = 0\<rparr>"
  have "snp_rel buf lim [] ?snp" using assms by (auto simp: snp_rel_def lim_def)
  then have "rel_option (rel_prod (=) (snp_rel buf lim)) (vprintf collect [] fmt ap) (vprintf snprintf_send ?snp fmt ap)"
    by (rule snp.vprintf_rel)
  then show ?thesis
  proof (cases rule: option.rel_cases)
    case None
    then show ?thesis by (simp add: snprintf_def vsnprintf_def)
  next
    case (Some x y)
    then obtain n out snp where e: "vprintf collect [] fmt ap = Some (n, out)" "vprintf snprintf_send ?snp fmt ap = Some (n, snp)" "snp_rel buf lim out snp"
      by (cases x; cases y) auto
    show ?thesis
    proof (cases "len = 0")
      case True
      then have "snp_buf snp = buf" using e(3) by (simp add: snp_rel_def lim_def)
      then show ?thesis using e True by (simp add: snprintf_def vsnprintf_def)
    next
      case False
      then have "lim < length buf" using assms by (simp add: lim_def)
      from snp_rel_terminate[OF e(3) this] show ?thesis using e False assms(1) by (simp add: snprintf_def vsnprintf_def lim_def)
    qed
  qed
qed

theorem snprintf_is_truncated_printf_witness:
  "snprintf ''xxxxxx'' 4 ''%d'' [VInt 12345] = map_option (\<lambda>(n, out). (n, take 3 out @ CHR 0x00 # drop (Suc (length (take 3 out))) ''xxxxxx''))
     (vprintf collect [] ''%d'' [VInt 12345])"
  using snprintf_is_truncated_printf[of 4 "''xxxxxx''" "''%d''" "[VInt 12345]"] by simp

end
