(* ===== verification/Kernel_Array.thy ===== *)
theory Kernel_Array
  imports Libc_Memory
begin

text \<open>
  Resizable arrays of pointers (\<^verbatim>\<open>kern/lib/array.c\<close>). The thread system keeps its sleepers and
  zombies in such arrays, the VFS layer its device table, SFS its vnodes and a file table its
  descriptors.

  The record holds the fields of \<^verbatim>\<open>struct array\<close>; \<open>a_v\<close> is the block the pointers are in, of
  which only the first \<open>a_num\<close> cells are elements. \<open>km\<close> is the outcome of the call of \<^verbatim>\<open>kmalloc\<close>.
  The invariant \<open>array_wf\<close> is what the assertions of the code rely on, \<open>array_elems\<close> is the
  sequence the array stands for, and the locale \<open>vector\<close> is the contract the clients use.
\<close>

section \<open>Model\<close>

record 'p array =
  a_num :: int
  a_max :: int
  a_v :: "'p list option"

definition array_create :: "bool \<Rightarrow> 'p array option" where
  "array_create mem = (if mem then Some \<lparr>a_num = 0, a_max = 0, a_v = None\<rparr> else None)"

definition array_getnum :: "'p array \<Rightarrow> int" where
  "array_getnum a = a_num a"

definition array_getguy :: "'p array \<Rightarrow> int \<Rightarrow> 'p option" where
  "array_getguy a index = do {
     kassert (a_num a \<le> a_max a);
     kassert (index \<ge> 0 \<and> index < a_num a);
     load (a_v a) index
   }"

text \<open>
  The loop that doubles the capacity. Its variable is a C \<^verbatim>\<open>int\<close>: past the largest one the sum
  wraps around, and a loop that never ends is \<open>None\<close>.
\<close>

partial_function (option) array_newmax :: "int \<Rightarrow> int \<Rightarrow> int option" where
  "array_newmax nguys newmax =
     (if nguys > newmax then array_newmax nguys (s32 (s32 (newmax + 1) * 2)) else Some newmax)"

function array_copy :: "'p list option \<Rightarrow> int \<Rightarrow> int \<Rightarrow> 'p list option \<Rightarrow> 'p list option" where
  "array_copy v i num newv =
     (if i < num then do {
        p \<leftarrow> load v i;
        newv' \<leftarrow> store newv i p;
        array_copy v (i + 1) num (Some newv')
      } else newv)"
  by pat_completeness auto
termination
  by (relation "measure (\<lambda>(v, i, num, newv). nat (num - i))") auto

declare array_copy.simps [simp del]

definition array_preallocate ::
  "'p kmalloc_words \<Rightarrow> 'p array \<Rightarrow> int \<Rightarrow> (errno \<times> 'p array) option" where
  "array_preallocate km a nguys = do {
     kassert (a_num a \<ge> 0 \<and> a_num a \<le> a_max a);
     newmax \<leftarrow> array_newmax nguys (a_max a);
     (case km (u32 (newmax * 4)) of
        None \<Rightarrow> Some (ENOMEM, a)
      | Some newv \<Rightarrow> do {
          newv' \<leftarrow> array_copy (a_v a) 0 (a_num a) (Some newv);
          Some (OK, a\<lparr>a_max := newmax, a_v := Some newv'\<rparr>)
        })
   }"

definition array_setsize ::
  "'p kmalloc_words \<Rightarrow> 'p array \<Rightarrow> int \<Rightarrow> (errno \<times> 'p array) option" where
  "array_setsize km a nguys = do {
     kassert (a_num a \<ge> 0 \<and> a_num a \<le> a_max a);
     (if nguys > a_max a then do {
        (result, a') \<leftarrow> array_preallocate km a nguys;
        if result \<noteq> OK then Some (result, a') else Some (OK, a'\<lparr>a_num := nguys\<rparr>)
      }
      else if nguys = 0 \<and> a_max a > 16 then do {
        kassert (a_v a \<noteq> None);
        Some (OK, a\<lparr>a_v := None, a_max := 0, a_num := nguys\<rparr>)
      }
      else Some (OK, a\<lparr>a_num := nguys\<rparr>))
   }"

definition array_setguy :: "'p array \<Rightarrow> int \<Rightarrow> 'p \<Rightarrow> 'p array option" where
  "array_setguy a index ptr = do {
     kassert (a_num a \<le> a_max a);
     kassert (index \<ge> 0 \<and> index < a_num a);
     v \<leftarrow> store (a_v a) index ptr;
     Some (a\<lparr>a_v := Some v\<rparr>)
   }"

definition array_add ::
  "'p kmalloc_words \<Rightarrow> 'p array \<Rightarrow> 'p \<Rightarrow> (errno \<times> 'p array) option" where
  "array_add km a guy = do {
     (result, a') \<leftarrow> array_setsize km a (s32 (a_num a + 1));
     if result \<noteq> OK then Some (result, a')
     else do {
       v \<leftarrow> store (a_v a') (a_num a) guy;
       Some (OK, a'\<lparr>a_v := Some v\<rparr>)
     }
   }"

definition array_remove :: "'p array \<Rightarrow> int \<Rightarrow> 'p array option" where
  "array_remove a index = do {
     kassert (a_num a \<le> a_max a);
     kassert (index \<ge> 0 \<and> index < a_num a);
     v \<leftarrow> a_v a;
     v' \<leftarrow> memmove_words (nat index) (nat index + 1) (nat (a_num a - (index + 1))) v;
     Some (a\<lparr>a_v := Some v', a_num := a_num a - 1\<rparr>)
   }"

section \<open>Invariant and abstraction\<close>

text \<open>
  The block fits the directly mapped segment, so the capacity is below \<^verbatim>\<open>2^27\<close>; the block has
  exactly \<open>a_max\<close> cells, and only an array of capacity 0 may have no block.
\<close>

definition array_wf :: "'p array \<Rightarrow> bool" where
  "array_wf a \<longleftrightarrow> 0 \<le> a_num a \<and> a_num a \<le> a_max a \<and> a_max a < 134217728 \<and>
     (case a_v a of None \<Rightarrow> a_max a = 0 | Some v \<Rightarrow> int (length v) = a_max a)"

definition array_elems :: "'p array \<Rightarrow> 'p list" where
  "array_elems a = (case a_v a of None \<Rightarrow> [] | Some v \<Rightarrow> take (nat (a_num a)) v)"

lemma array_wfE:
  assumes "array_wf a"
  obtains (null) "a_v a = None" "a_num a = 0" "a_max a = 0" "array_elems a = []"
  | (block) v where "a_v a = Some v" "int (length v) = a_max a" "0 \<le> a_num a" "a_num a \<le> a_max a"
      "a_max a < 134217728" "array_elems a = take (nat (a_num a)) v"
  using assms by (auto simp: array_wf_def array_elems_def split: option.splits)

lemma length_array_elems: "array_wf a \<Longrightarrow> int (length (array_elems a)) = a_num a"
  by (erule array_wfE) auto

text \<open>The capacity loop returns, and at most doubles what was asked for.\<close>

lemma array_newmax_returns:
  assumes "0 \<le> newmax" and "newmax \<le> hi" and "nguys \<le> 536870912" and "hi < 1073741824"
    and "2 * nguys \<le> hi"
  shows "\<exists>r. array_newmax nguys newmax = Some r \<and> newmax \<le> r \<and> nguys \<le> r \<and> r \<le> hi"
  using assms
proof (induction "nat (nguys - newmax)" arbitrary: newmax rule: less_induct)
  case less
  show ?case
  proof (cases "nguys > newmax")
    case True
    have step: "s32 (s32 (newmax + 1) * 2) = (newmax + 1) * 2" using less.prems True by simp
    have "\<exists>r. array_newmax nguys ((newmax + 1) * 2) = Some r \<and> (newmax + 1) * 2 \<le> r \<and> nguys \<le> r \<and> r \<le> hi"
      using less.prems True by (intro less.hyps) auto
    with True step less.prems show ?thesis by (subst array_newmax.simps) force
  next
    case False
    with less.prems show ?thesis by (subst array_newmax.simps) simp
  qed
qed

lemma array_newmax_small:
  assumes "0 \<le> newmax" and "newmax < 1073741824" and "nguys \<le> 536870911"
  shows "\<exists>r. array_newmax nguys newmax = Some r \<and> newmax \<le> r \<and> nguys \<le> r \<and> r < 1073741824"
  using array_newmax_returns[of newmax "1073741823" nguys] assms by force

lemma array_copy_from:
  assumes "0 \<le> i" and "i \<le> num" and "num \<le> int (length v)" and "num \<le> int (length w)"
    and "take (nat i) w = take (nat i) v"
  shows "\<exists>w'. array_copy (Some v) i num (Some w) = Some w' \<and> length w' = length w \<and>
           take (nat num) w' = take (nat num) v"
  using assms
proof (induction "nat (num - i)" arbitrary: i w rule: less_induct)
  case less
  show ?case
  proof (cases "i < num")
    case True
    let ?w = "w[nat i := v ! nat i]"
    have "take (nat (i + 1)) ?w = take (nat (i + 1)) v"
      using less.prems True by (simp add: nat_add_distrib take_Suc_update take_Suc_conv_app_nth)
    then have "\<exists>w'. array_copy (Some v) (i + 1) num (Some ?w) = Some w' \<and> length w' = length ?w \<and>
        take (nat num) w' = take (nat num) v"
      using less.prems True by (intro less.hyps) auto
    with True less.prems show ?thesis by (simp add: array_copy.simps[of "Some v" i num])
  next
    case False
    with less.prems have "i = num" by simp
    with less.prems show ?thesis by (simp add: array_copy.simps[of "Some v" num num])
  qed
qed

lemma array_copy_spec:
  assumes "0 \<le> num" and "num \<le> int (length v)" and "num \<le> int (length w)"
  shows "\<exists>w'. array_copy (Some v) 0 num (Some w) = Some w' \<and> length w' = length w \<and>
           take (nat num) w' = take (nat num) v"
  using assms by (intro array_copy_from) auto

section \<open>The operations on the sequence\<close>

text \<open>
  Preallocation never changes the elements: it returns \<open>ENOMEM\<close> and the array it was given, or
  an array with the same elements and room for \<open>nguys\<close> of them.
\<close>

lemma array_preallocate_spec:
  assumes "array_wf a" and "words_of_size km" and "nguys \<le> 536870911"
  shows "array_preallocate km a nguys = Some (ENOMEM, a) \<or>
    (\<exists>a'. array_preallocate km a nguys = Some (OK, a') \<and> array_wf a' \<and>
          array_elems a' = array_elems a \<and> a_num a' = a_num a \<and>
          a_max a \<le> a_max a' \<and> nguys \<le> a_max a' \<and> a_v a' \<noteq> None)"
proof -
  have bounds: "0 \<le> a_num a" "a_num a \<le> a_max a" "a_max a < 134217728"
    using assms(1) by (simp_all add: array_wf_def)
  then obtain newmax where nm: "array_newmax nguys (a_max a) = Some newmax"
      "a_max a \<le> newmax" "nguys \<le> newmax" "newmax < 1073741824"
    using array_newmax_small[of "a_max a" nguys] assms(3) by force
  show ?thesis
  proof (cases "km (u32 (newmax * 4))")
    case None
    then show ?thesis using nm bounds by (simp add: array_preallocate_def)
  next
    case (Some w)
    then have lw: "int (length w) = newmax" and "newmax < 134217728"
      using words_of_sizeD[OF assms(2) Some] words_of_size_bound[OF assms(2) Some] nm bounds by simp_all
    note nm = nm(1-3) this(2)
    show ?thesis using assms(1)
    proof (cases rule: array_wfE)
      case null
      then show ?thesis using Some nm lw
        by (simp add: array_preallocate_def array_copy.simps array_wf_def array_elems_def)
    next
      case (block v)
      obtain w' where w': "array_copy (Some v) 0 (a_num a) (Some w) = Some w'"
          "length w' = length w" "take (nat (a_num a)) w' = take (nat (a_num a)) v"
        using array_copy_spec[of "a_num a" v w] block lw nm by force
      then show ?thesis using Some nm lw block
        by (simp add: array_preallocate_def array_wf_def array_elems_def)
    qed
  qed
qed

lemma array_setsize_grow:
  assumes "array_wf a" and "words_of_size km" and "a_num a \<le> n" and "n \<le> 536870911" and "0 < n"
  shows "(array_setsize km a n = Some (ENOMEM, a) \<and> n > a_max a) \<or>
    (\<exists>a' v. array_setsize km a n = Some (OK, a') \<and> array_wf a' \<and> a_num a' = n \<and>
          a_v a' = Some v \<and> n \<le> int (length v) \<and> take (nat (a_num a)) v = array_elems a \<and>
          a_max a \<le> a_max a')"
proof (cases "n > a_max a")
  case True
  from array_preallocate_spec[OF assms(1,2,4)] show ?thesis
  proof
    assume "array_preallocate km a n = Some (ENOMEM, a)"
    with True assms(1) show ?thesis by (auto simp: array_setsize_def array_wf_def)
  next
    assume "\<exists>a'. array_preallocate km a n = Some (OK, a') \<and> array_wf a' \<and>
          array_elems a' = array_elems a \<and> a_num a' = a_num a \<and>
          a_max a \<le> a_max a' \<and> n \<le> a_max a' \<and> a_v a' \<noteq> None"
    then obtain a' v where "array_preallocate km a n = Some (OK, a')" "array_wf a'"
        "array_elems a' = array_elems a" "a_num a' = a_num a" "n \<le> a_max a'" "a_v a' = Some v"
        "a_max a \<le> a_max a'"
      by auto
    with True assms show ?thesis
      by (auto simp: array_setsize_def array_wf_def array_elems_def)
  qed
next
  case False
  with assms show ?thesis
    by (auto simp: array_setsize_def array_wf_def array_elems_def split: option.splits)
qed

text \<open>\<^verbatim>\<open>array_add\<close> appends, or runs out of memory and changes nothing.\<close>

lemma array_add_spec:
  assumes "array_wf a" and "words_of_size km"
  shows "(array_add km a p = Some (ENOMEM, a) \<and> a_num a = a_max a) \<or>
    (\<exists>a'. array_add km a p = Some (OK, a') \<and> array_wf a' \<and> array_elems a' = array_elems a @ [p] \<and>
          a_max a \<le> a_max a')"
proof -
  have n: "0 \<le> a_num a" "a_num a \<le> a_max a" "a_max a < 134217728" using assms(1) by (simp_all add: array_wf_def)
  then have s: "s32 (a_num a + 1) = a_num a + 1" by simp
  have "a_num a \<le> a_num a + 1" "a_num a + 1 \<le> 536870911" "0 < a_num a + 1" using n by auto
  from array_setsize_grow[OF assms(1,2) this] show ?thesis
  proof (elim disjE exE conjE)
    assume "array_setsize km a (a_num a + 1) = Some (ENOMEM, a)" "a_max a < a_num a + 1"
    with s n show ?thesis by (simp add: array_add_def)
  next
    fix a' v
    assume a': "array_setsize km a (a_num a + 1) = Some (OK, a')" "array_wf a'"
      "a_num a' = a_num a + 1" "a_v a' = Some v" "a_num a + 1 \<le> int (length v)"
      "take (nat (a_num a)) v = array_elems a" "a_max a \<le> a_max a'"
    then have "take (nat (a_num a + 1)) (v[nat (a_num a) := p]) = array_elems a @ [p]"
      using n by (simp add: nat_add_distrib take_Suc_update)
    with a' s n show ?thesis
      by (auto simp: array_add_def array_wf_def array_elems_def)
  qed
qed

text \<open>With room for one more element, no memory is needed and the call cannot fail.\<close>

lemma array_add_room:
  assumes "array_wf a" and "a_num a < a_max a"
  shows "\<exists>a'. array_add km a p = Some (OK, a') \<and> array_wf a' \<and>
           array_elems a' = array_elems a @ [p] \<and> a_num a' = a_num a + 1 \<and> a_max a' = a_max a"
  using assms(1)
proof (cases rule: array_wfE)
  case (block v)
  then have "take (nat (a_num a + 1)) (v[nat (a_num a) := p]) = array_elems a @ [p]"
    using assms(2) by (simp add: nat_add_distrib take_Suc_update)
  with block assms show ?thesis
    by (auto simp: array_add_def array_setsize_def array_wf_def array_elems_def)
qed (use assms in auto)

lemma array_getguy_spec:
  assumes "array_wf a"
  shows "array_getguy a i =
    (if 0 \<le> i \<and> i < a_num a then Some (array_elems a ! nat i) else None)"
  using assms by (cases rule: array_wfE) (auto simp: array_getguy_def kassert_def)

lemma array_setguy_spec:
  assumes "array_wf a" and "0 \<le> i" and "i < a_num a"
  shows "\<exists>a'. array_setguy a i p = Some a' \<and> array_wf a' \<and>
           array_elems a' = (array_elems a)[nat i := p] \<and> a_num a' = a_num a \<and> a_max a' = a_max a"
  using assms(1)
  by (cases rule: array_wfE)
    (use assms in \<open>auto simp: array_setguy_def array_wf_def array_elems_def take_update_swap\<close>)

lemma take_put_remove:
  assumes "i < n" and "n \<le> length v"
  shows "take (n - 1) (put v i (take (n - Suc i) (drop (Suc i) v))) =
           take i v @ drop (Suc i) (take n v)"
  using assms by (intro nth_equalityI) (auto simp: nth_put nth_append)

lemma array_remove_spec:
  assumes "array_wf a" and "0 \<le> i" and "i < a_num a"
  shows "\<exists>a'. array_remove a i = Some a' \<and> array_wf a' \<and> a_num a' = a_num a - 1 \<and> a_max a' = a_max a \<and>
           array_elems a' = take (nat i) (array_elems a) @ drop (Suc (nat i)) (array_elems a)"
  using assms(1)
proof (cases rule: array_wfE)
  case (block v)
  have n: "nat (a_num a - (i + 1)) = nat (a_num a) - Suc (nat i)" "nat (a_num a - 1) = nat (a_num a) - 1"
    using assms by auto
  have "memmove_words (nat i) (nat i + 1) (nat (a_num a - (i + 1))) v =
      Some (put v (nat i) (take (nat (a_num a) - Suc (nat i)) (drop (Suc (nat i)) v)))"
    using memmove_words_spec[of "nat i" "nat (a_num a) - Suc (nat i)" v "nat i + 1"] block assms n
    by simp
  moreover have "take (nat (a_num a) - 1) (put v (nat i) (take (nat (a_num a) - Suc (nat i)) (drop (Suc (nat i)) v)))
      = take (nat i) (array_elems a) @ drop (Suc (nat i)) (array_elems a)"
    using take_put_remove[of "nat i" "nat (a_num a)" v] block assms by simp
  moreover have "length (put v (nat i) (take (nat (a_num a) - Suc (nat i)) (drop (Suc (nat i)) v))) = length v"
    using block assms by simp
  ultimately show ?thesis
    using block assms n by (simp add: array_remove_def array_wf_def array_elems_def)
qed (use assms in auto)

section \<open>The contract of a vector\<close>

text \<open>
  What the clients of an array rely on: the sequence \<open>elems\<close> behind a value that satisfies \<open>ok\<close>,
  and what each operation does to it. The lemmas speak of the operations only.
\<close>

locale vector =
  fixes ok :: "'a \<Rightarrow> bool"
    and elems :: "'a \<Rightarrow> 'p list"
    and getnum :: "'a \<Rightarrow> int"
    and getguy :: "'a \<Rightarrow> int \<Rightarrow> 'p option"
    and setguy :: "'a \<Rightarrow> int \<Rightarrow> 'p \<Rightarrow> 'a option"
    and remove :: "'a \<Rightarrow> int \<Rightarrow> 'a option"
  assumes getnum_law: "ok a \<Longrightarrow> getnum a = int (length (elems a))"
    and getguy_law: "ok a \<Longrightarrow>
      getguy a i = (if 0 \<le> i \<and> i < getnum a then Some (elems a ! nat i) else None)"
    and setguy_law: "ok a \<Longrightarrow> 0 \<le> i \<Longrightarrow> i < getnum a \<Longrightarrow>
      \<exists>a'. setguy a i p = Some a' \<and> ok a' \<and> elems a' = (elems a)[nat i := p]"
    and remove_law: "ok a \<Longrightarrow> 0 \<le> i \<Longrightarrow> i < getnum a \<Longrightarrow>
      \<exists>a'. remove a i = Some a' \<and> ok a' \<and>
           elems a' = take (nat i) (elems a) @ drop (Suc (nat i)) (elems a)"
begin

lemma mem_iff: "ok a \<Longrightarrow> p \<in> set (elems a) \<longleftrightarrow> (\<exists>i. getguy a i = Some p)"
  by (auto simp: getguy_law getnum_law in_set_conv_nth split: if_splits)
    (metis nat_int of_nat_0_le_iff of_nat_less_iff, metis nat_less_iff)

lemma getguy_after_setguy:
  assumes "ok a" and "0 \<le> i" and "i < getnum a"
  shows "\<exists>a'. setguy a i p = Some a' \<and> ok a' \<and> getnum a' = getnum a \<and>
           (\<forall>j. getguy a' j = (if j = i then Some p else getguy a j))"
proof -
  obtain a' where a': "setguy a i p = Some a'" "ok a'" "elems a' = (elems a)[nat i := p]"
    using setguy_law[OF assms] by blast
  moreover have "getguy a' j = (if j = i then Some p else getguy a j)" for j
    using a' assms by (auto simp: getguy_law getnum_law nth_list_update)
  ultimately show ?thesis using assms by (auto simp: getnum_law)
qed

lemma getguy_after_remove:
  assumes "ok a" and "0 \<le> i" and "i < getnum a"
  shows "\<exists>a'. remove a i = Some a' \<and> ok a' \<and> getnum a' = getnum a - 1 \<and>
           (\<forall>j\<ge>0. getguy a' j = (if j < i then getguy a j else getguy a (j + 1)))"
proof -
  obtain a' where a': "remove a i = Some a'" "ok a'"
      "elems a' = take (nat i) (elems a) @ drop (Suc (nat i)) (elems a)"
    using remove_law[OF assms] by blast
  moreover have n: "getnum a' = getnum a - 1" using a' assms by (simp add: getnum_law)
  moreover have "getguy a' j = (if j < i then getguy a j else getguy a (j + 1))" if "0 \<le> j" for j
  proof (cases "j < i")
    case True
    then show ?thesis using a' assms n that by (simp add: getguy_law getnum_law nth_append)
  next
    case False
    have "min (length (elems a)) (nat i) = nat i" "Suc (nat i) + (nat j - nat i) = nat (j + 1)"
      using False that assms by (simp_all add: getnum_law)
    with False show ?thesis using a' assms n that by (simp add: getguy_law getnum_law nth_append)
  qed
  ultimately show ?thesis by auto
qed

end

interpretation arr: vector array_wf array_elems array_getnum array_getguy array_setguy array_remove
proof
  fix a :: "'p array" and i p
  assume a: "array_wf a"
  show "array_getnum a = int (length (array_elems a))"
    using length_array_elems[OF a] by (simp add: array_getnum_def)
  show "array_getguy a i = (if 0 \<le> i \<and> i < array_getnum a then Some (array_elems a ! nat i) else None)"
    using array_getguy_spec[OF a] by (simp add: array_getnum_def)
  assume i: "0 \<le> i" "i < array_getnum a"
  show "\<exists>a'. array_setguy a i p = Some a' \<and> array_wf a' \<and> array_elems a' = (array_elems a)[nat i := p]"
    using array_setguy_spec[OF a, of i p] i by (auto simp: array_getnum_def)
  show "\<exists>a'. array_remove a i = Some a' \<and> array_wf a' \<and>
      array_elems a' = take (nat i) (array_elems a) @ drop (Suc (nat i)) (array_elems a)"
    using array_remove_spec[OF a, of i] i by (auto simp: array_getnum_def)
qed

section \<open>Properties\<close>

text \<open>
  C15. \<^verbatim>\<open>array_add\<close> on a well-formed array either reports \<open>ENOMEM\<close>, which happens only when the
  array is full and leaves it as it was, or it puts the pointer at the index that was the number of
  elements, and every other index reads as before.
\<close>

theorem array_add_correct:
  assumes "array_wf a" and "words_of_size km"
  shows "(array_add km a p = Some (ENOMEM, a) \<and> array_getnum a = a_max a) \<or>
    (\<exists>a'. array_add km a p = Some (OK, a') \<and> array_wf a' \<and>
          (\<forall>j. array_getguy a' j = (if j = array_getnum a then Some p else array_getguy a j)))"
proof -
  have "array_getguy a' j = (if j = array_getnum a then Some p else array_getguy a j)"
    if "array_wf a'" "array_elems a' = array_elems a @ [p]" for a' j
    using that assms(1) length_array_elems[OF assms(1)]
    by (auto simp: arr.getguy_law arr.getnum_law nth_append)
  with array_add_spec[OF assms, of p] show ?thesis
    unfolding array_getnum_def by blast
qed

theorem array_add_correct_witness:
  "\<exists>km a'. words_of_size km \<and> array_add km \<lparr>a_num = 0, a_max = 0, a_v = None\<rparr> (7 :: nat) = Some (OK, a') \<and>
           array_getguy a' 0 = Some 7"
proof -
  let ?km = "\<lambda>n. if n \<ge> 0 \<and> n < 536870912 then Some (replicate (nat (n div 4)) (0 :: nat)) else None"
  let ?a = "\<lparr>a_num = 0, a_max = 0, a_v = None\<rparr>"
  have km: "words_of_size ?km" by (simp add: words_of_size_def)
  have "array_wf ?a" by (simp add: array_wf_def)
  from array_add_correct[OF this km, of 7]
  obtain a' where "array_add ?km ?a 7 = Some (OK, a')" "array_getguy a' 0 = Some 7"
    by (auto simp: array_getnum_def array_add_def array_setsize_def array_preallocate_def
        array_newmax.simps array_copy.simps)
  with km show ?thesis by blast
qed

text \<open>
  C16. \<^verbatim>\<open>array_remove\<close> at a valid index closes the gap: the elements before it keep their index and
  the later ones move down by one, and there is one element less.
\<close>

theorem array_remove_correct:
  assumes "array_wf a" and "0 \<le> i" and "i < array_getnum a"
  shows "\<exists>a'. array_remove a i = Some a' \<and> array_wf a' \<and> array_getnum a' = array_getnum a - 1 \<and>
           (\<forall>j\<ge>0. array_getguy a' j = (if j < i then array_getguy a j else array_getguy a (j + 1)))"
  using arr.getguy_after_remove[OF assms] .

theorem array_remove_correct_witness:
  "\<exists>a'. array_remove \<lparr>a_num = 3, a_max = 4, a_v = Some [10, 20, 30, 40 :: nat]\<rparr> 1 = Some a' \<and>
        array_getguy a' 1 = Some 30"
proof -
  let ?a = "\<lparr>a_num = 3, a_max = 4, a_v = Some [10, 20, 30, 40 :: nat]\<rparr>"
  have "array_wf ?a" "(0 :: int) \<le> 1" "1 < array_getnum ?a"
    by (simp_all add: array_wf_def array_getnum_def)
  from array_remove_correct[OF this] obtain a' where "array_remove ?a 1 = Some a'"
      "\<forall>j\<ge>0. array_getguy a' j = (if j < 1 then array_getguy ?a j else array_getguy ?a (j + 1))"
    by blast
  then show ?thesis by (simp add: array_getguy_def)
qed

end
