(* ===== verification/Kernel_Bitmap.thy ===== *)
theory Kernel_Bitmap
  imports Libc_Memory
begin

text \<open>
  Arrays of bits (\<^verbatim>\<open>kern/lib/bitmap.c\<close>). SFS keeps the map of free disk blocks in one.

  The bits are in 8-bit words as in the code; \<open>bitmap_bit\<close> reads bit number \<open>i\<close>. The
  invariant \<open>bitmap_wf\<close> says that the block has as many words as the bits need and that the spare
  bits of the last word are set, which is why the allocator never hands one out. The locale
  \<open>bit_allocator\<close> is the contract of the component.
\<close>

section \<open>Model\<close>

record bitmap =
  nbits :: nat
  bm_v :: "8 word list"

text \<open>\<^verbatim>\<open>DIVROUNDUP\<close> on \<^verbatim>\<open>u_int32_t\<close>: the sum wraps around.\<close>

definition bitmap_words :: "nat \<Rightarrow> nat" where
  "bitmap_words n = ((n + 8 - 1) mod 4294967296) div 8"

definition word_mask :: "nat \<Rightarrow> 8 word" where
  "word_mask offset = push_bit offset 1"

function bitmap_mark_spare :: "nat \<Rightarrow> nat \<Rightarrow> 8 word list \<Rightarrow> 8 word list option" where
  "bitmap_mark_spare ix j v =
     (if j < 8 then do {
        w \<leftarrow> load (Some v) (int ix);
        v' \<leftarrow> store (Some v) (int ix) (or w (word_mask j));
        bitmap_mark_spare ix (Suc j) v'
      } else Some v)"
  by pat_completeness auto
termination
  by (relation "measure (\<lambda>(ix, j, v). 8 - j)") auto

declare bitmap_mark_spare.simps [simp del]

text \<open>
  \<open>mem\<close> is whether there is memory for the structure, \<open>km\<close> the outcome of the allocation of the
  words; the inner \<open>None\<close> is the \<^verbatim>\<open>NULL\<close> the function returns when either fails.
\<close>

definition bitmap_create :: "bool \<Rightarrow> (nat \<Rightarrow> 8 word list option) \<Rightarrow> nat \<Rightarrow> bitmap option option" where
  "bitmap_create mem km n =
     (let words = bitmap_words n in
      if \<not> mem then Some None
      else case km words of
        None \<Rightarrow> Some None
      | Some v \<Rightarrow> do {
          v0 \<leftarrow> bzero 0 words v;
          (if n div 8 < words then
             (let ix = words - 1; overbits = n - ix * 8 in do {
                kassert (n div 8 = words - 1);
                kassert (overbits > 0 \<and> overbits < 8);
                v1 \<leftarrow> bitmap_mark_spare ix overbits v0;
                Some (Some \<lparr>nbits = n, bm_v = v1\<rparr>)
              })
           else Some (Some \<lparr>nbits = n, bm_v = v0\<rparr>))
        })"

definition bitmap_getdata :: "bitmap \<Rightarrow> 8 word list" where
  "bitmap_getdata b = bm_v b"

function bitmap_find_zero :: "8 word \<Rightarrow> nat \<Rightarrow> nat option" where
  "bitmap_find_zero w offset =
     (if offset < 8
      then (if and w (word_mask offset) = 0 then Some offset else bitmap_find_zero w (Suc offset))
      else None)"
  by pat_completeness auto
termination
  by (relation "measure (\<lambda>(w, offset). 8 - offset)") auto

declare bitmap_find_zero.simps [simp del]

function bitmap_alloc_from :: "bitmap \<Rightarrow> nat \<Rightarrow> nat \<Rightarrow> (errno \<times> nat option \<times> bitmap) option" where
  "bitmap_alloc_from b ix maxix =
     (if ix < maxix then do {
        w \<leftarrow> load (Some (bm_v b)) (int ix);
        (if w \<noteq> 255 then do {
           offset \<leftarrow> bitmap_find_zero w 0;
           v \<leftarrow> store (Some (bm_v b)) (int ix) (or w (word_mask offset));
           kassert (ix * 8 + offset < nbits b);
           Some (OK, Some (ix * 8 + offset), b\<lparr>bm_v := v\<rparr>)
         }
         else bitmap_alloc_from b (Suc ix) maxix)
      }
      else Some (ENOSPC, None, b))"
  by pat_completeness auto
termination
  by (relation "measure (\<lambda>(b, ix, maxix). maxix - ix)") auto

declare bitmap_alloc_from.simps [simp del]

definition bitmap_alloc :: "bitmap \<Rightarrow> (errno \<times> nat option \<times> bitmap) option" where
  "bitmap_alloc b = bitmap_alloc_from b 0 (bitmap_words (nbits b))"

definition bitmap_translate :: "nat \<Rightarrow> nat \<times> 8 word" where
  "bitmap_translate bitno = (bitno div 8, word_mask (bitno mod 8))"

definition bitmap_mark :: "bitmap \<Rightarrow> nat \<Rightarrow> bitmap option" where
  "bitmap_mark b index = do {
     kassert (index < nbits b);
     let (ix, mask) = bitmap_translate index;
     w \<leftarrow> load (Some (bm_v b)) (int ix);
     kassert (and w mask = 0);
     v \<leftarrow> store (Some (bm_v b)) (int ix) (or w mask);
     Some (b\<lparr>bm_v := v\<rparr>)
   }"

definition bitmap_unmark :: "bitmap \<Rightarrow> nat \<Rightarrow> bitmap option" where
  "bitmap_unmark b index = do {
     kassert (index < nbits b);
     let (ix, mask) = bitmap_translate index;
     w \<leftarrow> load (Some (bm_v b)) (int ix);
     kassert (and w mask \<noteq> 0);
     v \<leftarrow> store (Some (bm_v b)) (int ix) (and w (not mask));
     Some (b\<lparr>bm_v := v\<rparr>)
   }"

definition bitmap_isset :: "bitmap \<Rightarrow> nat \<Rightarrow> int option" where
  "bitmap_isset b index = do {
     let (ix, mask) = bitmap_translate index;
     w \<leftarrow> load (Some (bm_v b)) (int ix);
     Some (uint (and w mask))
   }"

section \<open>Bits of the words\<close>

definition bitmap_bit :: "bitmap \<Rightarrow> nat \<Rightarrow> bool" where
  "bitmap_bit b i = bit (bm_v b ! (i div 8)) (i mod 8)"

definition bitmap_wf :: "bitmap \<Rightarrow> bool" where
  "bitmap_wf b \<longleftrightarrow> nbits b + 7 < 4294967296 \<and> length (bm_v b) = (nbits b + 7) div 8 \<and>
     (\<forall>i. nbits b \<le> i \<and> i < 8 * length (bm_v b) \<longrightarrow> bitmap_bit b i)"

lemma bit_mask_word8 [simp]: "bit (word_mask j) k \<longleftrightarrow> k = j \<and> j < 8"
  by (simp add: word_mask_def bit_exp_iff) auto

lemma and_mask_zero [simp]: "j < 8 \<Longrightarrow> and w (word_mask j) = 0 \<longleftrightarrow> \<not> bit (w :: 8 word) j"
  by (auto simp: bit_eq_iff[of "and w (word_mask j)" 0] bit_and_iff)

lemma allbits_word8: "(w :: 8 word) = 255 \<longleftrightarrow> (\<forall>j<8. bit w j)"
proof -
  have "(255 :: 8 word) = mask 8" by (simp add: mask_eq_exp_minus_1)
  then show ?thesis by (auto simp: bit_eq_iff bit_mask_iff bit_imp_le_length)
qed

lemma bitmap_index_lt: "bitmap_wf b \<Longrightarrow> i < nbits b \<Longrightarrow> i div 8 < length (bm_v b)"
  by (auto simp: bitmap_wf_def)

lemma bitmap_words_wf: "bitmap_wf b \<Longrightarrow> bitmap_words (nbits b) = length (bm_v b)"
  by (simp add: bitmap_wf_def bitmap_words_def)

text \<open>Writing one bit of one word, as a change of the numbered bits.\<close>

lemma bitmap_bit_set:
  assumes "i div 8 < length (bm_v b)"
  shows "bitmap_bit (b\<lparr>bm_v := (bm_v b)[i div 8 := or (bm_v b ! (i div 8)) (word_mask (i mod 8))]\<rparr>) j
           \<longleftrightarrow> j = i \<or> bitmap_bit b j"
  using assms by (auto simp: bitmap_bit_def nth_list_update bit_or_iff)
    (metis div_mult_mod_eq)

lemma bitmap_bit_clear:
  assumes "i div 8 < length (bm_v b)"
  shows "bitmap_bit (b\<lparr>bm_v := (bm_v b)[i div 8 := and (bm_v b ! (i div 8)) (not (word_mask (i mod 8)))]\<rparr>) j
           \<longleftrightarrow> j \<noteq> i \<and> bitmap_bit b j"
  using assms by (auto simp: bitmap_bit_def nth_list_update bit_and_iff bit_not_iff bit_imp_le_length)
    (metis div_mult_mod_eq)

lemma bitmap_wf_set:
  assumes "bitmap_wf b" and "i < nbits b"
  shows "bitmap_wf (b\<lparr>bm_v := (bm_v b)[i div 8 := or (bm_v b ! (i div 8)) (word_mask (i mod 8))]\<rparr>)"
  using assms bitmap_index_lt[OF assms] by (simp add: bitmap_wf_def bitmap_bit_set)

lemma bitmap_wf_clear:
  assumes "bitmap_wf b" and "i < nbits b"
  shows "bitmap_wf (b\<lparr>bm_v := (bm_v b)[i div 8 := and (bm_v b ! (i div 8)) (not (word_mask (i mod 8)))]\<rparr>)"
  using assms bitmap_index_lt[OF assms] by (auto simp: bitmap_wf_def bitmap_bit_clear)

section \<open>The operations\<close>

lemma bitmap_find_zero_from:
  "offset \<le> 8 \<Longrightarrow> case bitmap_find_zero w offset of
     None \<Rightarrow> \<forall>j. offset \<le> j \<and> j < 8 \<longrightarrow> bit w j
   | Some k \<Rightarrow> offset \<le> k \<and> k < 8 \<and> \<not> bit w k \<and> (\<forall>j. offset \<le> j \<and> j < k \<longrightarrow> bit w j)"
proof (induction w offset rule: bitmap_find_zero.induct)
  case (1 w offset)
  show ?case
  proof (cases "offset < 8 \<and> bit w offset")
    case True
    then have "bitmap_find_zero w offset = bitmap_find_zero w (Suc offset)"
      by (simp add: bitmap_find_zero.simps[of w offset])
    with 1 True show ?thesis
      by (auto split: option.splits) (metis Suc_leI le_neq_implies_less)+
  qed (use 1 in \<open>auto simp: bitmap_find_zero.simps[of w offset]\<close>)
qed

lemma bitmap_alloc_from_full:
  "ix \<le> maxix \<Longrightarrow> maxix \<le> length (bm_v b) \<Longrightarrow> \<forall>k. ix \<le> k \<and> k < maxix \<longrightarrow> bm_v b ! k = 255 \<Longrightarrow>
     bitmap_alloc_from b ix maxix = Some (ENOSPC, None, b)"
proof (induction b ix maxix rule: bitmap_alloc_from.induct)
  case (1 b ix maxix)
  then show ?case by (subst bitmap_alloc_from.simps) auto
qed

lemma bitmap_alloc_from_skip:
  assumes "ix \<le> k" and "k < maxix" and "maxix \<le> length (bm_v b)"
    and "\<forall>i. ix \<le> i \<and> i < k \<longrightarrow> bm_v b ! i = 255"
  shows "bitmap_alloc_from b ix maxix = bitmap_alloc_from b k maxix"
  using assms
proof (induction "k - ix" arbitrary: ix)
  case (Suc n)
  then have "bitmap_alloc_from b ix maxix = bitmap_alloc_from b (Suc ix) maxix"
    by (simp add: bitmap_alloc_from.simps[of b ix])
  with Suc show ?case by simp
qed simp

lemma bitmap_full_iff:
  assumes "bitmap_wf b"
  shows "(\<forall>k < length (bm_v b). bm_v b ! k = 255) \<longleftrightarrow> (\<forall>i < nbits b. bitmap_bit b i)"
proof
  assume "\<forall>k < length (bm_v b). bm_v b ! k = 255"
  then show "\<forall>i < nbits b. bitmap_bit b i"
    using bitmap_index_lt[OF assms] by (simp add: bitmap_bit_def allbits_word8)
next
  assume *: "\<forall>i < nbits b. bitmap_bit b i"
  have "bit (bm_v b ! k) j" if "k < length (bm_v b)" "j < 8" for k j
  proof -
    have "bitmap_bit b (k * 8 + j)"
      using * assms that by (cases "k * 8 + j < nbits b") (auto simp: bitmap_wf_def)
    with that show ?thesis by (simp add: bitmap_bit_def)
  qed
  then show "\<forall>k < length (bm_v b). bm_v b ! k = 255" by (simp add: allbits_word8)
qed

lemma bitmap_alloc_full:
  assumes "bitmap_wf b" and "\<forall>i < nbits b. bitmap_bit b i"
  shows "bitmap_alloc b = Some (ENOSPC, None, b)"
  using assms bitmap_alloc_from_full[of 0 "length (bm_v b)" b] bitmap_full_iff[OF assms(1)]
  by (simp add: bitmap_alloc_def bitmap_words_wf)

lemma bitmap_alloc_first:
  assumes wf: "bitmap_wf b" and i: "i < nbits b" "\<not> bitmap_bit b i" and least: "\<forall>j<i. bitmap_bit b j"
  shows "bitmap_alloc b = Some (OK, Some i,
    b\<lparr>bm_v := (bm_v b)[i div 8 := or (bm_v b ! (i div 8)) (word_mask (i mod 8))]\<rparr>)"
proof -
  let ?w = "bm_v b ! (i div 8)"
  have ix: "i div 8 < length (bm_v b)" using bitmap_index_lt[OF wf i(1)] .
  have low: "bm_v b ! k = 255" if "k < i div 8" for k
    unfolding allbits_word8
  proof (intro allI impI)
    fix j :: nat assume "j < 8"
    moreover have "k * 8 + j < i"
      using that \<open>j < 8\<close> div_times_less_eq_dividend[of i 8] by linarith
    ultimately have "bitmap_bit b (k * 8 + j)" using least by blast
    with \<open>j < 8\<close> show "bit (bm_v b ! k) j" by (simp add: bitmap_bit_def)
  qed
  have w: "?w \<noteq> 255" using i(2) by (auto simp: allbits_word8 bitmap_bit_def intro!: exI[of _ "i mod 8"])
  have bits: "bit ?w j" if "j < i mod 8" for j
  proof -
    have "(i div 8) * 8 + j < i" using that by (metis add_less_cancel_left div_mult_mod_eq)
    with least have "bitmap_bit b ((i div 8) * 8 + j)" by blast
    moreover have "j < 8" using that by (meson less_trans mod_less_divisor zero_less_numeral)
    ultimately show ?thesis by (simp add: bitmap_bit_def)
  qed
  have "bitmap_find_zero ?w 0 = Some (i mod 8)"
  proof -
    have "\<not> bit ?w (i mod 8)" "i mod 8 < 8" using i(2) by (simp_all add: bitmap_bit_def)
    then show ?thesis
      using bitmap_find_zero_from[of 0 ?w] bits by (auto split: option.splits) (metis nat_neq_iff)
  qed
  moreover have "bitmap_alloc b = bitmap_alloc_from b (i div 8) (length (bm_v b))"
    using bitmap_alloc_from_skip[of 0 "i div 8" "length (bm_v b)" b] ix low wf
    by (simp add: bitmap_alloc_def bitmap_words_wf)
  ultimately show ?thesis
    using ix w i(1) by (simp add: bitmap_alloc_from.simps[of b "i div 8"])
qed

lemma bitmap_mark_spec:
  assumes "bitmap_wf b" and "i < nbits b"
  shows "if bitmap_bit b i then bitmap_mark b i = None
         else \<exists>b'. bitmap_mark b i = Some b' \<and> bitmap_wf b' \<and> nbits b' = nbits b \<and>
                   (\<forall>j. bitmap_bit b' j \<longleftrightarrow> j = i \<or> bitmap_bit b j)"
  using bitmap_index_lt[OF assms] bitmap_wf_set[OF assms] bitmap_bit_set[of i b] assms(2)
  by (auto simp: bitmap_mark_def bitmap_translate_def bitmap_bit_def[of b i] Let_def)

lemma bitmap_unmark_spec:
  assumes "bitmap_wf b" and "i < nbits b"
  shows "if bitmap_bit b i
         then \<exists>b'. bitmap_unmark b i = Some b' \<and> bitmap_wf b' \<and> nbits b' = nbits b \<and>
                   (\<forall>j. bitmap_bit b' j \<longleftrightarrow> j \<noteq> i \<and> bitmap_bit b j)
         else bitmap_unmark b i = None"
  using bitmap_index_lt[OF assms] bitmap_wf_clear[OF assms] bitmap_bit_clear[of i b] assms(2)
  by (auto simp: bitmap_unmark_def bitmap_translate_def bitmap_bit_def[of b i] Let_def)

lemma bitmap_isset_spec:
  assumes "bitmap_wf b" and "i < nbits b"
  shows "\<exists>r. bitmap_isset b i = Some r \<and> (r \<noteq> 0 \<longleftrightarrow> bitmap_bit b i)"
proof -
  have "uint (and (bm_v b ! (i div 8)) (word_mask (i mod 8))) \<noteq> 0 \<longleftrightarrow> bitmap_bit b i"
    unfolding uint_0_iff bitmap_bit_def by simp
  then show ?thesis
    using bitmap_index_lt[OF assms] by (simp add: bitmap_isset_def bitmap_translate_def Let_def)
qed

lemma bitmap_mark_spare_spec:
  "ix < length v \<Longrightarrow> j \<le> 8 \<Longrightarrow>
     \<exists>w. bitmap_mark_spare ix j v = Some (v[ix := w]) \<and>
         (\<forall>i. bit w i \<longleftrightarrow> bit (v ! ix) i \<or> j \<le> i \<and> i < 8)"
proof (induction "8 - j" arbitrary: j v)
  case 0
  then show ?case by (auto simp: bitmap_mark_spare.simps[of ix 8] intro!: exI[of _ "v ! ix"])
next
  case (Suc m)
  let ?v = "v[ix := or (v ! ix) (word_mask j)]"
  obtain w where w: "bitmap_mark_spare ix (Suc j) ?v = Some (?v[ix := w])"
      "\<forall>i. bit w i \<longleftrightarrow> bit (?v ! ix) i \<or> Suc j \<le> i \<and> i < 8"
    using Suc.hyps(1)[of "Suc j" ?v] Suc.hyps(2) Suc.prems by fastforce
  have "j < 8" using Suc.hyps(2) by simp
  then have "bitmap_mark_spare ix j v = Some (v[ix := w])"
    using w(1) Suc.prems by (simp add: bitmap_mark_spare.simps[of ix j])
  moreover have "bit w i \<longleftrightarrow> bit (v ! ix) i \<or> j \<le> i \<and> i < 8" for i
    using w(2) Suc by (auto simp: bit_or_iff)
  ultimately show ?case by blast
qed

lemma words_of_bits: "(n + 7) div 8 = (if n mod 8 = 0 then n div 8 else Suc (n div 8 :: nat))"
proof -
  have "(8 * (n div 8) + n mod 8 + 7) div 8 = n div 8 + (n mod 8 + 7) div 8"
    by (simp only: add.assoc div_mult_self4)
  moreover have "(r + 7) div 8 = (if r = 0 then 0 else Suc 0)" if "r < 8" for r :: nat
    using that by (auto simp: div_nat_eqI)
  ultimately show ?thesis by simp
qed

lemma bitmap_create_spec:
  assumes n: "n + 7 < 4294967296" and km: "km ((n + 7) div 8) = Some v" "length v = (n + 7) div 8"
  shows "\<exists>b. bitmap_create True km n = Some (Some b) \<and> bitmap_wf b \<and> nbits b = n \<and>
           (\<forall>i<n. \<not> bitmap_bit b i)"
proof -
  define words where "words = (n + 7) div 8"
  have w: "bitmap_words n = words" using n by (simp add: bitmap_words_def words_def)
  have km': "km words = Some v" "length v = words" using km by (simp_all add: words_def)
  have z: "bzero 0 words v = Some (replicate words 0)" using bzero_spec[of 0 words v] km' by (simp add: put_def)
  have n8: "8 * (n div 8) + n mod 8 = n" by simp
  have len: "n + 7 < 4294967296 \<and> words = (n + 7) div 8" using n words_def by simp
  show ?thesis
  proof (cases "n div 8 < words")
    case False
    then have full: "8 * words = n" using n8 by (auto simp: words_def words_of_bits split: if_splits)
    let ?b = "\<lparr>nbits = n, bm_v = replicate words 0\<rparr>"
    have "bitmap_create True km n = Some (Some ?b)"
      using False by (simp add: bitmap_create_def Let_def w z km')
    moreover have "bitmap_wf ?b" unfolding bitmap_wf_def using len full by auto
    moreover have "\<not> bitmap_bit ?b i" if "i < n" for i
      using that full by (simp add: bitmap_bit_def less_mult_imp_div_less)
    ultimately show ?thesis by (intro exI[of _ ?b]) simp
  next
    case True
    have ix: "n div 8 = words - 1" "words - 1 < words" and r: "0 < n mod 8"
      using True by (auto simp: words_def words_of_bits split: if_splits)
    have o: "n - (words - 1) * 8 = n mod 8" using n8 ix by simp
    obtain u where u: "bitmap_mark_spare (words - 1) (n mod 8) (replicate words 0) =
          Some ((replicate words 0)[words - 1 := u])" "\<forall>i. bit u i \<longleftrightarrow> n mod 8 \<le> i \<and> i < 8"
      using bitmap_mark_spare_spec[of "words - 1" "replicate words 0" "n mod 8"] ix by auto
    let ?b = "\<lparr>nbits = n, bm_v = (replicate words 0)[words - 1 := u]\<rparr>"
    have bits: "bitmap_bit ?b i \<longleftrightarrow> n \<le> i" if "i < 8 * words" for i
    proof (cases "i div 8 = words - 1")
      case True
      with u(2) ix have "bitmap_bit ?b i \<longleftrightarrow> n mod 8 \<le> i mod 8" by (simp add: bitmap_bit_def)
      moreover have "n mod 8 \<le> i mod 8 \<longleftrightarrow> n \<le> i"
        using True ix(1) div_mult_mod_eq[of i 8] div_mult_mod_eq[of n 8] by linarith
      ultimately show ?thesis by simp
    next
      case False
      have lt: "i div 8 < words" using that by (simp add: less_mult_imp_div_less mult.commute)
      with False have "i div 8 < n div 8" using ix by linarith
      then have "i < n" using div_le_mono[of n i 8] by linarith
      with False lt show ?thesis by (simp add: bitmap_bit_def)
    qed
    have "bitmap_create True km n = Some (Some ?b)"
      using True ix o r u(1) by (simp add: bitmap_create_def Let_def w z km')
    moreover have "bitmap_wf ?b" unfolding bitmap_wf_def using len bits by simp
    moreover have "\<forall>i<n. \<not> bitmap_bit ?b i"
    proof (intro allI impI)
      fix i assume "i < n"
      moreover have "n < 8 * words" using n8 ix by simp
      ultimately show "\<not> bitmap_bit ?b i" using bits[of i] by simp
    qed
    ultimately show ?thesis by (intro exI[of _ ?b]) simp
  qed
qed

section \<open>The contract of an allocator of numbers\<close>

locale bit_allocator =
  fixes ok :: "'a \<Rightarrow> bool"
    and size :: "'a \<Rightarrow> nat"
    and used :: "'a \<Rightarrow> nat \<Rightarrow> bool"
    and alloc :: "'a \<Rightarrow> (errno \<times> nat option \<times> 'a) option"
    and unmark :: "'a \<Rightarrow> nat \<Rightarrow> 'a option"
  assumes alloc_full_law: "ok b \<Longrightarrow> \<forall>i < size b. used b i \<Longrightarrow> alloc b = Some (ENOSPC, None, b)"
    and alloc_first_law: "ok b \<Longrightarrow> i < size b \<Longrightarrow> \<not> used b i \<Longrightarrow> \<forall>j<i. used b j \<Longrightarrow>
      \<exists>b'. alloc b = Some (OK, Some i, b') \<and> ok b' \<and> size b' = size b \<and>
           (\<forall>j. used b' j \<longleftrightarrow> j = i \<or> used b j)"
    and unmark_law: "ok b \<Longrightarrow> i < size b \<Longrightarrow> used b i \<Longrightarrow>
      \<exists>b'. unmark b i = Some b' \<and> ok b' \<and> size b' = size b \<and>
           (\<forall>j. used b' j \<longleftrightarrow> j \<noteq> i \<and> used b j)"
begin

lemma alloc_cases:
  assumes "ok b"
  obtains (full) "\<forall>i < size b. used b i" "alloc b = Some (ENOSPC, None, b)"
  | (fresh) i b' where "i < size b" "\<not> used b i" "\<forall>j<i. used b j" "alloc b = Some (OK, Some i, b')"
      "ok b'" "size b' = size b" "\<forall>j. used b' j \<longleftrightarrow> j = i \<or> used b j"
proof (cases "\<forall>i < size b. used b i")
  case True
  with full alloc_full_law[OF assms] show ?thesis by blast
next
  case False
  define i where "i = (LEAST i. i < size b \<and> \<not> used b i)"
  have i: "i < size b" "\<not> used b i"
    using LeastI_ex[of "\<lambda>i. i < size b \<and> \<not> used b i"] False unfolding i_def by blast+
  have "used b j" if "j < i" for j
    using not_less_Least[of j "\<lambda>i. i < size b \<and> \<not> used b i"] that i unfolding i_def by linarith
  with fresh alloc_first_law[OF assms i] i show ?thesis by blast
qed

text \<open>One call uses up exactly one free number.\<close>

lemma alloc_free_count:
  assumes "ok b" and "alloc b = Some (OK, Some i, b')"
  shows "card {j. j < size b \<and> \<not> used b j} = Suc (card {j. j < size b' \<and> \<not> used b' j})"
  using assms(1)
proof (cases rule: alloc_cases)
  case (fresh k c)
  with assms(2) have "{j. j < size b \<and> \<not> used b j} = insert i {j. j < size b' \<and> \<not> used b' j}"
    by auto
  moreover have "used b' i" using fresh assms(2) by auto
  ultimately show ?thesis by simp
qed (use assms in simp)

text \<open>Giving a number back undoes the allocation.\<close>

lemma unmark_after_alloc:
  assumes "ok b" and "alloc b = Some (OK, Some i, b')"
  shows "\<exists>c. unmark b' i = Some c \<and> ok c \<and> size c = size b \<and> (\<forall>j. used c j \<longleftrightarrow> used b j)"
  using assms(1)
proof (cases rule: alloc_cases)
  case (fresh k d)
  with assms(2) unmark_law[of b' i] show ?thesis by auto
qed (use assms in simp)

end

interpretation bm: bit_allocator bitmap_wf nbits bitmap_bit bitmap_alloc bitmap_unmark
proof
  fix b i
  assume b: "bitmap_wf b"
  show "\<forall>i<nbits b. bitmap_bit b i \<Longrightarrow> bitmap_alloc b = Some (ENOSPC, None, b)"
    by (rule bitmap_alloc_full[OF b])
  assume i: "i < nbits b"
  show "\<exists>b'. bitmap_alloc b = Some (OK, Some i, b') \<and> bitmap_wf b' \<and> nbits b' = nbits b \<and>
          (\<forall>j. bitmap_bit b' j \<longleftrightarrow> j = i \<or> bitmap_bit b j)"
    if "\<not> bitmap_bit b i" "\<forall>j<i. bitmap_bit b j"
    using bitmap_alloc_first[OF b i that] bitmap_wf_set[OF b i] bitmap_bit_set[OF bitmap_index_lt[OF b i]]
    by simp
  show "\<exists>b'. bitmap_unmark b i = Some b' \<and> bitmap_wf b' \<and> nbits b' = nbits b \<and>
          (\<forall>j. bitmap_bit b' j \<longleftrightarrow> j \<noteq> i \<and> bitmap_bit b j)" if "bitmap_bit b i"
    using bitmap_unmark_spec[OF b i] that by simp
qed

section \<open>Properties\<close>

text \<open>
  C13. A new bitmap of \<open>n\<close> bits (as long as \<open>n\<close> rounded up to whole words is a \<^verbatim>\<open>u_int32_t\<close>)
  satisfies the invariant, which marks the spare bits of the last word as used, and none of its \<open>n\<close>
  bits is set; without memory the result is \<^verbatim>\<open>NULL\<close>. No assertion fails.
\<close>

theorem bitmap_create_correct:
  assumes "n + 7 < 4294967296" and "\<forall>k v. km k = Some v \<longrightarrow> length v = k"
  shows "bitmap_create mem km n = Some None \<and> (\<not> mem \<or> km ((n + 7) div 8) = None) \<or>
    (\<exists>b. bitmap_create mem km n = Some (Some b) \<and> bitmap_wf b \<and> nbits b = n \<and>
         (\<forall>i<n. bitmap_isset b i = Some 0))"
proof (cases "\<not> mem \<or> km ((n + 7) div 8) = None")
  case True
  moreover have "bitmap_words n = (n + 7) div 8" using assms(1) by (simp add: bitmap_words_def)
  ultimately have "bitmap_create mem km n = Some None" by (auto simp: bitmap_create_def Let_def)
  with True show ?thesis by blast
next
  case False
  then obtain v where "mem" "km ((n + 7) div 8) = Some v" "length v = (n + 7) div 8" using assms(2) by auto
  from bitmap_create_spec[of n km v, OF assms(1) this(2,3)] this(1) obtain b where
      b: "bitmap_create mem km n = Some (Some b)" "bitmap_wf b" "nbits b = n" "\<forall>i<n. \<not> bitmap_bit b i"
    by auto
  moreover have "bitmap_isset b i = Some 0" if "i < n" for i
    using bitmap_isset_spec[of b i] b that by auto
  ultimately show ?thesis by blast
qed

theorem bitmap_create_correct_witness:
  "\<exists>b. bitmap_create True (\<lambda>k. Some (replicate k 165)) 12 = Some (Some b) \<and> bitmap_wf b \<and>
       bitmap_isset b 11 = Some 0"
  using bitmap_create_correct[of 12 "\<lambda>k. Some (replicate k 165)" True] by auto

text \<open>
  C12. \<^verbatim>\<open>bitmap_alloc\<close> on a well-formed bitmap fails no assertion: when every bit is set it returns
  \<open>ENOSPC\<close> and changes nothing; otherwise it returns the lowest clear bit, which is in range, sets
  that bit and no other, and keeps the invariant.
\<close>

theorem bitmap_alloc_correct:
  assumes "bitmap_wf b"
  shows "(\<forall>i<nbits b. bitmap_bit b i) \<and> bitmap_alloc b = Some (ENOSPC, None, b) \<or>
    (\<exists>i b'. i < nbits b \<and> \<not> bitmap_bit b i \<and> (\<forall>j<i. bitmap_bit b j) \<and>
            bitmap_alloc b = Some (OK, Some i, b') \<and> bitmap_wf b' \<and> nbits b' = nbits b \<and>
            (\<forall>j. bitmap_bit b' j \<longleftrightarrow> j = i \<or> bitmap_bit b j))"
  using assms by (cases rule: bm.alloc_cases) blast+

theorem bitmap_alloc_correct_witness:
  "\<exists>b'. bitmap_alloc \<lparr>nbits = 10, bm_v = [255, 253]\<rparr> = Some (OK, Some 9, b') \<and> bitmap_bit b' 9"
proof -
  let ?b = "\<lparr>nbits = 10, bm_v = [255, 253 :: 8 word]\<rparr>"
  have wf: "bitmap_wf ?b"
    unfolding bitmap_wf_def
  proof (intro conjI allI impI)
    fix i assume "nbits ?b \<le> i \<and> i < 8 * length (bm_v ?b)"
    then have "i \<in> {10, 11, 12, 13, 14, 15}" by auto
    then show "bitmap_bit ?b i" by (auto simp: bitmap_bit_def)
  qed simp_all
  have clear: "\<not> bitmap_bit ?b 9" by (simp add: bitmap_bit_def)
  have low: "bitmap_bit ?b j" if "j < 9" for j
  proof -
    from that have "j \<in> {0, 1, 2, 3, 4, 5, 6, 7, 8}" by auto
    then show ?thesis by (auto simp: bitmap_bit_def)
  qed
  from bitmap_alloc_correct[OF wf] clear obtain i b' where
      i: "\<not> bitmap_bit ?b i" "\<forall>j<i. bitmap_bit ?b j" "bitmap_alloc ?b = Some (OK, Some i, b')"
        "\<forall>j. bitmap_bit b' j \<longleftrightarrow> j = i \<or> bitmap_bit ?b j"
    by auto
  with clear low have "i = 9" by (metis nat_neq_iff)
  with i show ?thesis by blast
qed

text \<open>
  C14. Giving an allocated bit back restores the set of used bits, and each allocation uses up
  exactly one of the free ones.
\<close>

theorem bitmap_alloc_unmark:
  assumes "bitmap_wf b" and "bitmap_alloc b = Some (OK, Some i, b')"
  shows "card {j. j < nbits b \<and> \<not> bitmap_bit b j} = Suc (card {j. j < nbits b' \<and> \<not> bitmap_bit b' j}) \<and>
    (\<exists>c. bitmap_unmark b' i = Some c \<and> bitmap_wf c \<and> (\<forall>j. bitmap_bit c j \<longleftrightarrow> bitmap_bit b j))"
  using bm.alloc_free_count[OF assms] bm.unmark_after_alloc[OF assms] by blast

theorem bitmap_alloc_unmark_witness:
  "\<exists>b' c. bitmap_alloc \<lparr>nbits = 8, bm_v = [251]\<rparr> = Some (OK, Some 2, b') \<and>
          bitmap_unmark b' 2 = Some c \<and> \<not> bitmap_bit c 2"
proof -
  let ?b = "\<lparr>nbits = 8, bm_v = [251 :: 8 word]\<rparr>" and ?b' = "\<lparr>nbits = 8, bm_v = [255 :: 8 word]\<rparr>"
  have wf: "bitmap_wf ?b" by (auto simp: bitmap_wf_def)
  have alloc: "bitmap_alloc ?b = Some (OK, Some 2, ?b')"
    by (simp add: bitmap_alloc_def bitmap_words_def bitmap_alloc_from.simps bitmap_find_zero.simps word_mask_def)
  from bitmap_alloc_unmark[OF wf alloc] obtain c where
      "bitmap_unmark ?b' 2 = Some c" "\<forall>j. bitmap_bit c j \<longleftrightarrow> bitmap_bit ?b j"
    by blast
  moreover have "\<not> bitmap_bit ?b 2" by (simp add: bitmap_bit_def)
  ultimately show ?thesis using alloc by blast
qed

end
