(* ===== verification/Kernel_Queue.thy ===== *)
theory Kernel_Queue
  imports Kernel_Prelude
begin

text \<open>
  The growing ring buffer of pointers (\<^verbatim>\<open>kern/lib/queue.c\<close>); the scheduler keeps the runnable
  threads in one.

  \<^verbatim>\<open>q_grow\<close> and \<^verbatim>\<open>q_addtail\<close> call each other. \<open>q_grow_with\<close> takes the \<^verbatim>\<open>q_addtail\<close> it calls as an
  argument, and \<open>q_addtail_depth\<close> ties the knot with a bound on the nesting: 2 is enough, because
  the buffer that \<^verbatim>\<open>q_grow\<close> copies into has room for every element (\<open>q_addtail_depth_enough\<close>). The
  copy loop has at most \<open>size\<close> rounds when its indices are in range, and never ends otherwise
  (\<open>None\<close>). One cell stays unused, so that a full ring is not mistaken for an empty one.
\<close>

section \<open>Model\<close>

record 'p queue =
  q_size :: int
  q_nextwrite :: int
  q_nextread :: int
  q_data :: "'p list"

partial_function (option) q_newsize :: "int \<Rightarrow> int \<Rightarrow> int option" where
  "q_newsize targetsize nsize =
     (if nsize < targetsize
      then (if s32 (nsize * 2) > 0 then q_newsize targetsize (s32 (nsize * 2)) else None)
      else Some nsize)"

primrec q_copy :: "('p queue \<Rightarrow> 'p \<Rightarrow> (errno \<times> 'p queue) option) \<Rightarrow> 'p list \<Rightarrow> int \<Rightarrow> int \<Rightarrow>
    nat \<Rightarrow> int \<Rightarrow> 'p queue \<Rightarrow> 'p queue option" where
  "q_copy add olddata onw osize 0 i q = (if i = onw then Some q else None)"
| "q_copy add olddata onw osize (Suc rounds) i q =
     (if i = onw then Some q
      else do {
        p \<leftarrow> load (Some olddata) i;
        (result, q') \<leftarrow> add q p;
        kassert (result = OK);
        q_copy add olddata onw osize rounds ((i + 1) mod osize) q'
      })"

definition q_grow_with :: "('p queue \<Rightarrow> 'p \<Rightarrow> (errno \<times> 'p queue) option) \<Rightarrow> 'p kmalloc_words \<Rightarrow>
    'p queue \<Rightarrow> int \<Rightarrow> (errno \<times> 'p queue) option" where
  "q_grow_with add km q targetsize = do {
     nsize \<leftarrow> q_newsize targetsize (q_size q);
     (case km (u32 (nsize * 4)) of
        None \<Rightarrow> Some (ENOMEM, q)
      | Some ndata \<Rightarrow> do {
          q' \<leftarrow> q_copy add (q_data q) (q_nextwrite q) (q_size q) (nat (q_size q)) (q_nextread q)
                  \<lparr>q_size = nsize, q_nextwrite = 0, q_nextread = 0, q_data = ndata\<rparr>;
          Some (OK, q')
        })
   }"

primrec q_addtail_depth ::
  "nat \<Rightarrow> 'p kmalloc_words \<Rightarrow> 'p queue \<Rightarrow> 'p \<Rightarrow> (errno \<times> 'p queue) option" where
  "q_addtail_depth 0 km q ptr = None"
| "q_addtail_depth (Suc d) km q ptr = do {
     kassert (q_size q > 0);
     (result, q') \<leftarrow>
       (if (q_nextwrite q + 1) mod q_size q = q_nextread q
        then q_grow_with (q_addtail_depth d km) km q (s32 (q_size q + 1))
        else Some (OK, q));
     if result \<noteq> OK then Some (result, q')
     else do {
       data \<leftarrow> store (Some (q_data q')) (q_nextwrite q') ptr;
       Some (OK, q'\<lparr>q_data := data, q_nextwrite := (q_nextwrite q' + 1) mod q_size q'\<rparr>)
     }
   }"

definition q_addtail :: "'p kmalloc_words \<Rightarrow> 'p queue \<Rightarrow> 'p \<Rightarrow> (errno \<times> 'p queue) option" where
  "q_addtail km q ptr = q_addtail_depth 2 km q ptr"

definition q_grow :: "'p kmalloc_words \<Rightarrow> 'p queue \<Rightarrow> int \<Rightarrow> (errno \<times> 'p queue) option" where
  "q_grow km q targetsize = q_grow_with (q_addtail_depth 1 km) km q targetsize"

definition q_create :: "bool \<Rightarrow> 'p kmalloc_words \<Rightarrow> int \<Rightarrow> 'p queue option" where
  "q_create mem km sz =
     (if \<not> mem then None
      else case km (u32 (sz * 4)) of
        None \<Rightarrow> None
      | Some data \<Rightarrow> Some \<lparr>q_size = sz, q_nextwrite = 0, q_nextread = 0, q_data = data\<rparr>)"

definition q_preallocate :: "'p kmalloc_words \<Rightarrow> 'p queue \<Rightarrow> int \<Rightarrow> (errno \<times> 'p queue) option" where
  "q_preallocate km q sz = do {
     kassert (q_size q > 0);
     (if sz > q_size q then q_grow km q sz else Some (OK, q))
   }"

definition q_empty :: "'p queue \<Rightarrow> bool" where
  "q_empty q \<longleftrightarrow> q_nextwrite q = q_nextread q"

definition q_remhead :: "'p queue \<Rightarrow> ('p \<times> 'p queue) option" where
  "q_remhead q = do {
     kassert (q_size q > 0);
     kassert (\<not> q_empty q);
     ret \<leftarrow> load (Some (q_data q)) (q_nextread q);
     Some (ret, q\<lparr>q_nextread := (q_nextread q + 1) mod q_size q\<rparr>)
   }"

definition q_destroy :: "'p queue \<Rightarrow> unit option" where
  "q_destroy q = kassert (q_empty q)"

definition q_getstart :: "'p queue \<Rightarrow> int" where
  "q_getstart q = q_nextread q"

definition q_getend :: "'p queue \<Rightarrow> int" where
  "q_getend q = q_nextwrite q"

definition q_getsize :: "'p queue \<Rightarrow> int" where
  "q_getsize q = q_size q"

definition q_getguy :: "'p queue \<Rightarrow> int \<Rightarrow> 'p option" where
  "q_getguy q index = do {
     kassert (index \<ge> 0 \<and> index < q_size q);
     load (Some (q_data q)) index
   }"

section \<open>Invariant and abstraction\<close>

text \<open>
  The buffer fits the directly mapped segment, so the size is below \<^verbatim>\<open>2^27\<close>: neither doubling it nor
  its size in bytes overflows.
\<close>

definition queue_wf :: "'p queue \<Rightarrow> bool" where
  "queue_wf q \<longleftrightarrow> 0 < q_size q \<and> q_size q < 134217728 \<and> int (length (q_data q)) = q_size q \<and>
     0 \<le> q_nextwrite q \<and> q_nextwrite q < q_size q \<and> 0 \<le> q_nextread q \<and> q_nextread q < q_size q"

definition queue_count :: "'p queue \<Rightarrow> int" where
  "queue_count q = (q_nextwrite q - q_nextread q) mod q_size q"

definition queue_elems :: "'p queue \<Rightarrow> 'p list" where
  "queue_elems q = map (\<lambda>k. q_data q ! nat ((q_nextread q + int k) mod q_size q)) [0..<nat (queue_count q)]"

lemma queue_count_bounds:
  assumes "queue_wf q"
  shows "0 \<le> queue_count q" and "queue_count q < q_size q"
  using assms by (simp_all add: queue_wf_def queue_count_def)

lemma length_queue_elems: "queue_wf q \<Longrightarrow> int (length (queue_elems q)) = queue_count q"
  using queue_count_bounds by (fastforce simp: queue_elems_def)

lemma queue_full_iff:
  assumes "queue_wf q"
  shows "(q_nextwrite q + 1) mod q_size q = q_nextread q \<longleftrightarrow> queue_count q = q_size q - 1"
proof -
  let ?s = "q_size q" and ?r = "q_nextread q" and ?w = "q_nextwrite q"
  have "?r = ?r mod ?s" "0 < ?s" using assms by (simp_all add: queue_wf_def)
  then have "(?w + 1) mod ?s = ?r \<longleftrightarrow> ((?w + 1) - ?r) mod ?s = 0"
    by (metis mod_eq_dvd_iff mod_0_imp_dvd dvd_imp_mod_0)
  also have "(?w + 1) - ?r = (?w - ?r) + 1" by simp
  also have "((?w - ?r) + 1) mod ?s = (queue_count q + 1) mod ?s"
    unfolding queue_count_def by (simp only: mod_add_left_eq)
  also have "(queue_count q + 1) mod ?s = 0 \<longleftrightarrow> queue_count q = ?s - 1"
    using queue_count_bounds[OF assms] by (cases "queue_count q + 1 = ?s") auto
  finally show ?thesis .
qed

lemma queue_empty_iff: "queue_wf q \<Longrightarrow> q_empty q \<longleftrightarrow> queue_elems q = []"
proof -
  assume wf: "queue_wf q"
  have "queue_count q = 0 \<longleftrightarrow> q_nextwrite q = q_nextread q"
    using wf by (simp add: queue_wf_def queue_count_def)
      (metis mod_eq_dvd_iff mod_0_imp_dvd dvd_imp_mod_0 mod_pos_pos_trivial)
  with queue_count_bounds[OF wf] show ?thesis by (auto simp: q_empty_def queue_elems_def)
qed

section \<open>The operations on the sequence\<close>

lemma ring_index_neq:
  assumes "0 \<le> k" and "k < c" and "c < s" and "0 \<le> r" and "r < (s :: int)"
  shows "(r + k) mod s \<noteq> (r + c) mod s"
proof
  assume "(r + k) mod s = (r + c) mod s"
  then have "s dvd (c - k)" by (metis add_diff_cancel_left mod_eq_dvd_iff)
  with assms show False using zdvd_imp_le[of s "c - k"] by simp
qed

lemma queue_write_index: "queue_wf q \<Longrightarrow> (q_nextread q + queue_count q) mod q_size q = q_nextwrite q"
  by (simp add: queue_wf_def queue_count_def mod_add_right_eq)

text \<open>Storing at the write index and advancing it appends.\<close>

lemma queue_put:
  assumes wf: "queue_wf q" and room: "queue_count q < q_size q - 1"
    and q'_def: "q' = q\<lparr>q_data := (q_data q)[nat (q_nextwrite q) := p],
                   q_nextwrite := (q_nextwrite q + 1) mod q_size q\<rparr>"
  shows "queue_wf q'" and "queue_count q' = queue_count q + 1"
    and "queue_elems q' = queue_elems q @ [p]"
proof -
  let ?s = "q_size q" and ?r = "q_nextread q" and ?c = "queue_count q"
  have b: "0 < ?s" "0 \<le> ?r" "?r < ?s" "0 \<le> ?c" "?c < ?s" "int (length (q_data q)) = ?s"
    using wf queue_count_bounds[OF wf] by (simp_all add: queue_wf_def)
  show "queue_wf q'" using wf by (simp add: queue_wf_def q'_def)
  have "queue_count q' = ((q_nextwrite q - ?r) mod ?s + 1) mod ?s"
    by (simp add: queue_count_def q'_def mod_simps algebra_simps)
  then show c': "queue_count q' = ?c + 1" using room b by (simp add: queue_count_def)
  have at: "q_data q' ! nat ((?r + int k) mod ?s) =
      (if k = nat ?c then p else q_data q ! nat ((?r + int k) mod ?s))" if "k \<le> nat ?c" for k
  proof (cases "k = nat ?c")
    case True
    with b show ?thesis using queue_write_index[OF wf] wf
      by (simp add: q'_def queue_wf_def nat_less_iff)
  next
    case False
    then have "(?r + int k) mod ?s \<noteq> q_nextwrite q"
      using ring_index_neq[of "int k" ?c ?s ?r] that b queue_write_index[OF wf] by simp
    moreover have "0 \<le> (?r + int k) mod ?s" "0 \<le> q_nextwrite q" using b wf by (simp_all add: queue_wf_def)
    ultimately show ?thesis using False by (simp add: q'_def nth_list_update eq_nat_nat_iff)
  qed
  have "nat (queue_count q') = Suc (nat ?c)" using c' b by simp
  moreover have "q_nextread q' = ?r" "q_size q' = ?s" by (simp_all add: q'_def)
  ultimately show "queue_elems q' = queue_elems q @ [p]"
    using at[of "nat ?c"] by (simp add: queue_elems_def at)
qed

lemma q_addtail_depth_room:
  assumes "queue_wf q" and "queue_count q < q_size q - 1"
  shows "\<exists>q'. q_addtail_depth (Suc d) km q p = Some (OK, q') \<and> queue_wf q' \<and>
           queue_elems q' = queue_elems q @ [p] \<and> queue_count q' = queue_count q + 1 \<and>
           q_size q' = q_size q"
proof -
  have "0 < q_size q" "(q_nextwrite q + 1) mod q_size q \<noteq> q_nextread q" "0 \<le> q_nextwrite q"
      "q_nextwrite q < int (length (q_data q))"
    using assms queue_full_iff[OF assms(1)] by (simp_all add: queue_wf_def)
  with queue_put[OF assms refl, of p] show ?thesis by simp
qed

text \<open>The copy loop, entered at the element number \<open>k\<close>, appends the elements from \<open>k\<close> on.\<close>

lemma q_copy_from:
  assumes old: "queue_wf old" and "k \<le> nat (queue_count old)" and "nat (queue_count old) - k \<le> rounds"
    and "queue_wf q" and "queue_elems q = take k (queue_elems old)" and "queue_count old < q_size q"
  shows "\<exists>q'. q_copy (q_addtail_depth (Suc d) km) (q_data old) (q_nextwrite old) (q_size old) rounds
             ((q_nextread old + int k) mod q_size old) q = Some q' \<and>
           queue_wf q' \<and> queue_elems q' = queue_elems old \<and> q_size q' = q_size q"
  using assms(2-)
proof (induction "nat (queue_count old) - k" arbitrary: k rounds q)
  case 0
  then have "int k = queue_count old" using queue_count_bounds[OF old] by simp
  then have "(q_nextread old + int k) mod q_size old = q_nextwrite old"
    using queue_write_index[OF old] by simp
  moreover have "take k (queue_elems old) = queue_elems old" using 0 by (simp add: queue_elems_def)
  ultimately show ?case using 0 by (cases rounds) auto
next
  case (Suc m)
  let ?i = "(q_nextread old + int k) mod q_size old"
  have b: "0 < q_size old" "0 \<le> q_nextread old" "q_nextread old < q_size old"
      "int (length (q_data old)) = q_size old" "0 \<le> queue_count old" "queue_count old < q_size old"
    using old queue_count_bounds[OF old] by (simp_all add: queue_wf_def)
  have k: "int k < queue_count old" using Suc.hyps(2) by simp
  have i: "?i \<noteq> q_nextwrite old" "0 \<le> ?i" "?i < int (length (q_data old))"
    using ring_index_neq[of "int k" "queue_count old" "q_size old" "q_nextread old"] k b
      queue_write_index[OF old] by simp_all
  have "k < nat (queue_count old)" using Suc.hyps(2) by simp
  then have p: "q_data old ! nat ?i = queue_elems old ! k" by (simp add: queue_elems_def)
  have len: "int (length (queue_elems old)) = queue_count old" by (rule length_queue_elems[OF old])
  have cnt: "queue_count q = int k"
    using length_queue_elems[of q] Suc.prems len k by simp
  then have room: "queue_count q < q_size q - 1" using k Suc.prems by simp
  obtain q1 where q1: "q_addtail_depth (Suc d) km q (queue_elems old ! k) = Some (OK, q1)"
      "queue_wf q1" "queue_elems q1 = take (Suc k) (queue_elems old)" "q_size q1 = q_size q"
    using q_addtail_depth_room[OF Suc.prems(3) room, of d km "queue_elems old ! k"] Suc.prems k len
    by (auto simp: take_Suc_conv_app_nth)
  obtain rounds' where r: "rounds = Suc rounds'" using Suc.hyps(2) Suc.prems(2) by (cases rounds) auto
  have step: "(?i + 1) mod q_size old = (q_nextread old + int (Suc k)) mod q_size old"
    by (simp add: mod_simps algebra_simps)
  have "\<exists>q'. q_copy (q_addtail_depth (Suc d) km) (q_data old) (q_nextwrite old) (q_size old) rounds'
             ((q_nextread old + int (Suc k)) mod q_size old) q1 = Some q' \<and>
           queue_wf q' \<and> queue_elems q' = queue_elems old \<and> q_size q' = q_size q1"
    using Suc.hyps(2) Suc.prems q1 r by (intro Suc.hyps(1)) auto
  with q1 i p step r show ?case by (simp del: q_addtail_depth.simps)
qed

lemma q_newsize_doubles:
  assumes "0 < nsize" and "nsize \<le> target" and "target < 536870912"
  shows "\<exists>r. q_newsize target nsize = Some r \<and> target \<le> r \<and> r < 2 * target"
  using assms
proof (induction "nat (target - nsize)" arbitrary: nsize rule: less_induct)
  case less
  show ?case
  proof (cases "2 * nsize < target")
    case True
    then have "\<exists>r. q_newsize target (nsize * 2) = Some r \<and> target \<le> r \<and> r < 2 * target"
      using less.prems by (intro less.hyps) auto
    with True less.prems show ?thesis by (subst q_newsize.simps) simp
  next
    case False
    then have "q_newsize target (nsize * 2) = Some (nsize * 2)" by (subst q_newsize.simps) simp
    with False less.prems show ?thesis
      by (cases "nsize = target") (subst q_newsize.simps; simp)+
  qed
qed

text \<open>
  Growing keeps the elements and makes room; without memory the queue is as it was.
\<close>

lemma q_grow_with_spec:
  assumes wf: "queue_wf q" and km: "words_of_size km" and t: "q_size q < target" "target < 536870912"
  shows "q_grow_with (q_addtail_depth (Suc d) km) km q target = Some (ENOMEM, q) \<or>
    (\<exists>q'. q_grow_with (q_addtail_depth (Suc d) km) km q target = Some (OK, q') \<and> queue_wf q' \<and>
          queue_elems q' = queue_elems q \<and> target \<le> q_size q')"
proof -
  have b: "0 < q_size q" "0 \<le> q_nextread q" "q_nextread q < q_size q" using wf by (simp_all add: queue_wf_def)
  obtain n where n: "q_newsize target (q_size q) = Some n" "target \<le> n" "n < 2 * target"
    using q_newsize_doubles[of "q_size q" target] t b by force
  show ?thesis
  proof (cases "km (u32 (n * 4))")
    case None
    with n show ?thesis by (simp add: q_grow_with_def)
  next
    case (Some data)
    let ?q = "\<lparr>q_size = n, q_nextwrite = 0, q_nextread = 0, q_data = data\<rparr>"
    have "int (length data) = n" "n < 134217728"
      using words_of_sizeD[OF km Some] words_of_size_bound[OF km Some] n t b by simp_all
    then have "queue_wf ?q" "queue_elems ?q = take 0 (queue_elems q)"
      using n t b by (simp_all add: queue_wf_def queue_elems_def queue_count_def)
    moreover have "queue_count q < q_size ?q" using n t queue_count_bounds[OF wf] by simp
    ultimately obtain q' where "q_copy (q_addtail_depth (Suc d) km) (q_data q) (q_nextwrite q) (q_size q)
        (nat (q_size q)) (q_nextread q) ?q = Some q'" "queue_wf q'" "queue_elems q' = queue_elems q" "q_size q' = n"
      using q_copy_from[of q 0 "nat (q_size q)" ?q d km] wf b queue_count_bounds[OF wf]
        nat_mono[of "queue_count q" "q_size q"] by auto
    with n Some show ?thesis by (simp add: q_grow_with_def)
  qed
qed

lemma q_addtail_depth_spec:
  assumes wf: "queue_wf q" and km: "words_of_size km"
  shows "(q_addtail_depth (Suc (Suc d)) km q p = Some (ENOMEM, q) \<and> queue_count q = q_size q - 1) \<or>
    (\<exists>q'. q_addtail_depth (Suc (Suc d)) km q p = Some (OK, q') \<and> queue_wf q' \<and>
          queue_elems q' = queue_elems q @ [p] \<and> q_size q \<le> q_size q')"
proof (cases "queue_count q = q_size q - 1")
  case False
  then have "queue_count q < q_size q - 1" using queue_count_bounds[OF wf] by simp
  from q_addtail_depth_room[OF wf this, of "Suc d" km p] show ?thesis by auto
next
  case True
  have b: "0 < q_size q" "q_size q < q_size q + 1" "q_size q + 1 < 536870912"
      "s32 (q_size q + 1) = q_size q + 1" using wf by (simp_all add: queue_wf_def)
  have full: "(q_nextwrite q + 1) mod q_size q = q_nextread q" using True queue_full_iff[OF wf] by simp
  from q_grow_with_spec[OF wf km b(2,3), of d] show ?thesis
  proof (elim disjE exE conjE)
    assume "q_grow_with (q_addtail_depth (Suc d) km) km q (q_size q + 1) = Some (ENOMEM, q)"
    with True b full show ?thesis by simp
  next
    fix q' assume q': "q_grow_with (q_addtail_depth (Suc d) km) km q (q_size q + 1) = Some (OK, q')"
      "queue_wf q'" "queue_elems q' = queue_elems q" "q_size q + 1 \<le> q_size q'"
    have "queue_count q' < q_size q' - 1"
      using length_queue_elems[OF wf] length_queue_elems[OF q'(2)] q'(3,4) True by simp
    moreover have "0 \<le> q_nextwrite q'" "q_nextwrite q' < int (length (q_data q'))"
      using q'(2) by (simp_all add: queue_wf_def)
    ultimately show ?thesis using queue_put[OF q'(2) _ refl, of p] q' b full by simp
  qed
qed

text \<open>The bound on the nesting does not matter from 2 on.\<close>

lemma q_addtail_depth_enough:
  assumes "queue_wf q" and "words_of_size km"
  shows "q_addtail_depth (Suc (Suc d)) km q p \<noteq> None"
  using q_addtail_depth_spec[OF assms, of d p] by auto

lemma q_addtail_spec:
  assumes "queue_wf q" and "words_of_size km"
  shows "(q_addtail km q p = Some (ENOMEM, q) \<and> queue_count q = q_size q - 1) \<or>
    (\<exists>q'. q_addtail km q p = Some (OK, q') \<and> queue_wf q' \<and> queue_elems q' = queue_elems q @ [p] \<and>
          q_size q \<le> q_size q')"
  using q_addtail_depth_spec[OF assms, of 0 p] by (simp add: q_addtail_def numeral_2_eq_2)

lemma q_addtail_room:
  assumes "queue_wf q" and "queue_count q < q_size q - 1"
  shows "\<exists>q'. q_addtail km q p = Some (OK, q') \<and> queue_wf q' \<and>
           queue_elems q' = queue_elems q @ [p] \<and> queue_count q' = queue_count q + 1 \<and> q_size q' = q_size q"
  using q_addtail_depth_room[OF assms, of 1 km p] by (simp add: q_addtail_def numeral_2_eq_2)

lemma q_remhead_spec:
  assumes wf: "queue_wf q"
  shows "case queue_elems q of [] \<Rightarrow> q_remhead q = None
    | p # ps \<Rightarrow> \<exists>q'. q_remhead q = Some (p, q') \<and> queue_wf q' \<and> queue_elems q' = ps \<and> q_size q' = q_size q"
proof (cases "q_empty q")
  case True
  then show ?thesis using queue_empty_iff[OF wf] by (simp add: q_remhead_def)
next
  case False
  let ?s = "q_size q" and ?r = "q_nextread q" and ?q = "q\<lparr>q_nextread := (q_nextread q + 1) mod q_size q\<rparr>"
  have b: "0 < ?s" "0 \<le> ?r" "?r < ?s" "int (length (q_data q)) = ?s" using wf by (simp_all add: queue_wf_def)
  have c: "0 < queue_count q"
    using False queue_empty_iff[OF wf] length_queue_elems[OF wf] by (cases "queue_elems q") auto
  have "queue_count ?q = (queue_count q - 1) mod ?s"
    by (simp add: queue_count_def mod_simps algebra_simps)
  then have c': "queue_count ?q = queue_count q - 1" using c queue_count_bounds[OF wf] by simp
  have "nat (queue_count q) = Suc (nat (queue_count ?q))" using c c' by simp
  then have "queue_elems q = q_data q ! nat ?r # queue_elems ?q"
    using b by (simp add: queue_elems_def upt_rec[of 0] map_Suc_upt[symmetric] mod_simps algebra_simps del: upt_Suc)
  moreover have "q_remhead q = Some (q_data q ! nat ?r, ?q)" using False b by (simp add: q_remhead_def)
  moreover have "queue_wf ?q" using wf by (simp add: queue_wf_def)
  ultimately show ?thesis by simp
qed

lemma q_preallocate_spec:
  assumes wf: "queue_wf q" and km: "words_of_size km" and n: "n < 536870912"
  shows "q_preallocate km q n = Some (ENOMEM, q) \<and> q_size q < n \<or>
    (\<exists>q'. q_preallocate km q n = Some (OK, q') \<and> queue_wf q' \<and> queue_elems q' = queue_elems q \<and>
          n \<le> q_size q' \<and> q_size q \<le> q_size q')"
proof (cases "q_size q < n")
  case True
  with q_grow_with_spec[OF wf km True n, of 0] wf show ?thesis
    by (auto simp: q_preallocate_def q_grow_def queue_wf_def simp del: q_addtail_depth.simps)
next
  case False
  with wf show ?thesis by (auto simp: q_preallocate_def queue_wf_def)
qed

section \<open>The contract of a first-in first-out queue\<close>

primrec add_all :: "('q \<Rightarrow> 'p \<Rightarrow> (errno \<times> 'q) option) \<Rightarrow> 'p list \<Rightarrow> 'q \<Rightarrow> 'q option" where
  "add_all add [] q = Some q"
| "add_all add (p # ps) q = do { (r, q') \<leftarrow> add q p; kassert (r = OK); add_all add ps q' }"

primrec remove_n :: "('q \<Rightarrow> ('p \<times> 'q) option) \<Rightarrow> nat \<Rightarrow> 'q \<Rightarrow> ('p list \<times> 'q) option" where
  "remove_n rem 0 q = Some ([], q)"
| "remove_n rem (Suc n) q = do { (p, q') \<leftarrow> rem q; (ps, q'') \<leftarrow> remove_n rem n q'; Some (p # ps, q'') }"

locale fifo =
  fixes ok :: "'q \<Rightarrow> bool"
    and elems :: "'q \<Rightarrow> 'p list"
    and memok :: "'m \<Rightarrow> bool"
    and isempty :: "'q \<Rightarrow> bool"
    and addtail :: "'m \<Rightarrow> 'q \<Rightarrow> 'p \<Rightarrow> (errno \<times> 'q) option"
    and remhead :: "'q \<Rightarrow> ('p \<times> 'q) option"
  assumes empty_law: "ok q \<Longrightarrow> isempty q \<longleftrightarrow> elems q = []"
    and addtail_law: "ok q \<Longrightarrow> memok m \<Longrightarrow> addtail m q p = Some (ENOMEM, q) \<or>
      (\<exists>q'. addtail m q p = Some (OK, q') \<and> ok q' \<and> elems q' = elems q @ [p])"
    and remhead_law: "ok q \<Longrightarrow> elems q = p # ps \<Longrightarrow>
      \<exists>q'. remhead q = Some (p, q') \<and> ok q' \<and> elems q' = ps"
begin

lemma addtail_OK:
  "ok q \<Longrightarrow> memok m \<Longrightarrow> addtail m q p = Some (OK, q') \<Longrightarrow> ok q' \<and> elems q' = elems q @ [p]"
  using addtail_law[of q m p] by auto

lemma add_all_OK:
  "ok q \<Longrightarrow> memok m \<Longrightarrow> add_all (addtail m) ps q = Some q' \<Longrightarrow> ok q' \<and> elems q' = elems q @ ps"
proof (induction ps arbitrary: q)
  case (Cons p ps)
  from Cons.prems(3) obtain q1 where "addtail m q p = Some (OK, q1)" "add_all (addtail m) ps q1 = Some q'"
    by (auto simp: kernel_ops split: prod.splits)
  with Cons addtail_OK[OF Cons.prems(1,2)] show ?case by fastforce
qed simp

lemma remove_n_elems:
  "ok q \<Longrightarrow> elems q = ps @ rest \<Longrightarrow>
     \<exists>q'. remove_n remhead (length ps) q = Some (ps, q') \<and> ok q' \<and> elems q' = rest"
proof (induction ps arbitrary: q)
  case (Cons p ps)
  then obtain q1 where "remhead q = Some (p, q1)" "ok q1" "elems q1 = ps @ rest"
    using remhead_law[of q p "ps @ rest"] by auto
  with Cons.IH[of q1] show ?case by auto
qed auto

text \<open>What is added comes out behind what was there, in the order it was added.\<close>

lemma first_in_first_out:
  assumes "ok q" and "memok m" and "add_all (addtail m) ps q = Some q'"
  shows "\<exists>q''. remove_n remhead (length (elems q) + length ps) q' = Some (elems q @ ps, q'') \<and>
           ok q'' \<and> isempty q''"
  using add_all_OK[OF assms] remove_n_elems[of q' "elems q @ ps" "[]"] empty_law by auto

end

interpretation lq: fifo queue_wf queue_elems words_of_size q_empty q_addtail q_remhead
proof
  fix q :: "'p queue" and m p ps
  assume wf: "queue_wf q"
  show "q_empty q \<longleftrightarrow> queue_elems q = []" by (rule queue_empty_iff[OF wf])
  show "q_addtail m q p = Some (ENOMEM, q) \<or>
      (\<exists>q'. q_addtail m q p = Some (OK, q') \<and> queue_wf q' \<and> queue_elems q' = queue_elems q @ [p])"
    if "words_of_size m" using q_addtail_spec[OF wf that, of p] by blast
  show "\<exists>q'. q_remhead q = Some (p, q') \<and> queue_wf q' \<and> queue_elems q' = ps"
    if "queue_elems q = p # ps" using q_remhead_spec[OF wf] that by auto
qed

section \<open>Properties\<close>

text \<open>
  C8. \<^verbatim>\<open>q_addtail\<close> on a well-formed queue always returns, and never recurses deeper than one
  growth: it reports \<open>ENOMEM\<close> only when the ring is full, and then the queue is unchanged;
  otherwise the pointer is appended to the sequence the ring stands for, whether or not the ring had
  to be copied into a larger buffer.
\<close>

theorem q_addtail_correct:
  assumes "queue_wf q" and "words_of_size km"
  shows "(q_addtail km q p = Some (ENOMEM, q) \<and> int (length (queue_elems q)) = q_size q - 1) \<or>
    (\<exists>q'. q_addtail km q p = Some (OK, q') \<and> queue_wf q' \<and> queue_elems q' = queue_elems q @ [p])"
  using q_addtail_spec[OF assms, of p] length_queue_elems[OF assms(1)] by auto

theorem q_addtail_correct_witness:
  "\<exists>km q'. words_of_size km \<and>
     q_addtail km \<lparr>q_size = 2, q_nextwrite = 0, q_nextread = 1, q_data = [0, 5]\<rparr> (6 :: nat) = Some (OK, q') \<and>
     queue_elems q' = [5, 6]"
proof -
  let ?km = "\<lambda>n. if n \<ge> 0 \<and> n < 536870912 then Some (replicate (nat (n div 4)) (0 :: nat)) else None"
  let ?q = "\<lparr>q_size = 2, q_nextwrite = 0, q_nextread = 1, q_data = [0, 5 :: nat]\<rparr>"
  have km: "words_of_size ?km" by (simp add: words_of_size_def)
  have wf: "queue_wf ?q" by (simp add: queue_wf_def)
  have e: "queue_elems ?q = [5]" by (simp add: queue_elems_def queue_count_def)
  have "q_addtail ?km ?q 6 \<noteq> Some (ENOMEM, ?q)"
    by (simp add: q_addtail_def numeral_2_eq_2 q_grow_with_def q_newsize.simps)
  with q_addtail_correct[OF wf km, of 6] e km show ?thesis by auto
qed

text \<open>
  C9. The queue is first in, first out: when pointers \<open>ps\<close> are added to a queue, possibly with
  several growths in between, removing as many as there are returns the old elements and then
  \<open>ps\<close>, in order, and leaves the queue empty.
\<close>

theorem queue_first_in_first_out:
  assumes "queue_wf q" and "words_of_size km" and "add_all (q_addtail km) ps q = Some q'"
  shows "\<exists>q''. remove_n q_remhead (length (queue_elems q) + length ps) q' = Some (queue_elems q @ ps, q'') \<and>
           queue_wf q'' \<and> q_empty q''"
  using lq.first_in_first_out[OF assms] .

theorem queue_first_in_first_out_witness:
  "\<exists>km q' q''. words_of_size km \<and>
     add_all (q_addtail km) [7, 8, 9] \<lparr>q_size = 4, q_nextwrite = 0, q_nextread = 0, q_data = [0, 0, 0, 0 :: nat]\<rparr>
       = Some q' \<and> remove_n q_remhead 3 q' = Some ([7, 8, 9], q'')"
proof -
  let ?km = "\<lambda>n :: int. None :: nat list option"
  let ?q = "\<lparr>q_size = 4, q_nextwrite = 0, q_nextread = 0, q_data = [0, 0, 0, 0 :: nat]\<rparr>"
  have km: "words_of_size ?km" by (simp add: words_of_size_def)
  have wf: "queue_wf ?q" by (simp add: queue_wf_def)
  have e: "queue_elems ?q = []" by (simp add: queue_elems_def queue_count_def)
  have add: "\<exists>q'. add_all (q_addtail ?km) [7, 8, 9] ?q = Some q'"
    by (simp add: q_addtail_def numeral_2_eq_2)
  then obtain q' where "add_all (q_addtail ?km) [7, 8, 9] ?q = Some q'" by blast
  with queue_first_in_first_out[OF wf km this] km e show ?thesis by (auto simp: numeral_3_eq_3)
qed

text \<open>
  C10. What \<^verbatim>\<open>q_preallocate\<close> promises: when it succeeds, the elements are the same and pointers can be
  added without any memory (\<open>km\<close> returns \<^verbatim>\<open>NULL\<close>) until the queue holds \<open>n - 1\<close> of them. The
  \<open>n\<close>-th is not covered, since the ring keeps a cell unused.
\<close>

theorem q_preallocate_room:
  assumes "queue_wf q" and "words_of_size km" and "n < 536870912"
    and "q_preallocate km q n = Some (OK, q')" and "int (length (queue_elems q)) + int (length ps) < n"
  shows "queue_elems q' = queue_elems q \<and> add_all (q_addtail (\<lambda>_. None)) ps q' \<noteq> None"
proof -
  have q': "queue_wf q'" "queue_elems q' = queue_elems q" "n \<le> q_size q'"
    using q_preallocate_spec[OF assms(1-3)] assms(4) by auto
  have "add_all (q_addtail (\<lambda>_. None)) ps r \<noteq> None"
    if "queue_wf r" "queue_count r + int (length ps) < q_size r" for r :: "'a queue"
    using that
  proof (induction ps arbitrary: r)
    case (Cons p ps)
    then have "queue_count r < q_size r - 1" by simp
    from q_addtail_room[OF Cons.prems(1) this, of "\<lambda>_. None" p] Cons show ?case by fastforce
  qed simp
  with q' assms(5) length_queue_elems[OF q'(1)] show ?thesis by simp
qed

theorem q_preallocate_room_witness:
  "\<exists>q'. q_preallocate (\<lambda>_. None) \<lparr>q_size = 2, q_nextwrite = 0, q_nextread = 0, q_data = [0, 0 :: nat]\<rparr> 2 = Some (OK, q') \<and>
        add_all (q_addtail (\<lambda>_. None)) [4] q' \<noteq> None \<and> add_all (q_addtail (\<lambda>_. None)) [4, 5] q' = None"
proof -
  let ?q = "\<lparr>q_size = 2, q_nextwrite = 0, q_nextread = 0, q_data = [0, 0 :: nat]\<rparr>"
  have hyps: "queue_wf ?q" "words_of_size (\<lambda>_. None :: nat list option)" "(2 :: int) < 536870912"
      "q_preallocate (\<lambda>_. None) ?q 2 = Some (OK, ?q)" "int (length (queue_elems ?q)) + int (length [4 :: nat]) < 2"
    by (simp_all add: queue_wf_def words_of_size_def q_preallocate_def queue_elems_def queue_count_def)
  from q_preallocate_room[OF hyps] hyps(4) show ?thesis
    by (auto simp: q_addtail_def numeral_2_eq_2 q_grow_with_def q_newsize.simps)
qed

end
