(* ===== verification/Thread_System.thy ===== *)
theory Thread_System
  imports Kernel_Array Kernel_Queue "HOL-Library.Multiset"
begin

text \<open>
  The thread system and the scheduler (\<^verbatim>\<open>kern/thread/thread.c\<close>, \<^verbatim>\<open>kern/thread/scheduler.c\<close>, and the
  interrupt levels of \<^verbatim>\<open>kern/arch/mips/mips/spl.c\<close>).

  \<open>tsys\<close> holds the global variables: the current thread, the arrays \<open>sleepers\<close> and \<open>zombies\<close>, the
  counter, the run queue and the interrupt level, and in \<open>threads\<close> the thread structures that are
  allocated. A context switch is where \<^verbatim>\<open>md_switch\<close> is called: \<open>mi_switch_out\<close> is \<^verbatim>\<open>mi_switch\<close> up to
  the call of the scheduler, which leaves no current thread, and \<open>mi_switch_in\<close> is what follows in
  the thread that continues. The field \<open>t_pcb\<close> of a thread that does not run says where it
  continues: at the start of \<^verbatim>\<open>mi_threadstart\<close>, in \<^verbatim>\<open>thread_yield\<close> (which restores the saved
  interrupt level) or in \<^verbatim>\<open>thread_sleep\<close>. An empty run queue leaves the processor in \<^verbatim>\<open>cpu_idle\<close>
  with no current thread, where only interrupt handlers run.

  References to vnodes are counted in \<open>vn_refs\<close>; what the last reference does to the vnode is not
  part of this component, and neither are the file table of a thread and its address space, of
  which only the pointer is kept.
\<close>

section \<open>Model\<close>

type_synonym tid = nat
type_synonym addr = nat

datatype threadstate = S_RUN | S_READY | S_SLEEP | S_ZOMB

datatype pcb = Start | Yielded int | Slept

record thread =
  t_pcb :: pcb
  t_name :: string
  t_sleepaddr :: "addr option"
  t_stack :: "8 word list option"
  t_vmspace :: "nat option"
  t_cwd :: "nat option"

record tsys =
  curthread :: "tid option"
  sleepers :: "tid array"
  zombies :: "tid array"
  numthreads :: int
  runqueue :: "tid queue"
  curspl :: int
  int_enabled :: bool
  in_interrupt :: int
  threads :: "tid \<Rightarrow> thread option"
  vn_refs :: "nat \<Rightarrow> int"

subsection \<open>Interrupt levels\<close>

definition splx :: "int \<Rightarrow> tsys \<Rightarrow> int \<times> tsys" where
  "splx newspl st =
     (curspl st, st\<lparr>curspl := newspl,
        int_enabled := (if newspl > 0 then False else if newspl = 0 then True else int_enabled st)\<rparr>)"

definition splhigh :: "tsys \<Rightarrow> int \<times> tsys" where
  "splhigh st = splx 15 st"

definition spl0 :: "tsys \<Rightarrow> int \<times> tsys" where
  "spl0 st = splx 0 st"

subsection \<open>Scheduler\<close>

definition scheduler_bootstrap :: "bool \<Rightarrow> tid kmalloc_words \<Rightarrow> tsys \<Rightarrow> tsys option" where
  "scheduler_bootstrap mem km st = do { q \<leftarrow> q_create mem km 32; Some (st\<lparr>runqueue := q\<rparr>) }"

definition scheduler_preallocate :: "tid kmalloc_words \<Rightarrow> int \<Rightarrow> tsys \<Rightarrow> (errno \<times> tsys) option" where
  "scheduler_preallocate km nthreads st = do {
     kassert (curspl st > 0);
     (r, q) \<leftarrow> q_preallocate km (runqueue st) nthreads;
     Some (r, st\<lparr>runqueue := q\<rparr>)
   }"

partial_function (option) scheduler_drop :: "tid queue \<Rightarrow> tid queue option" where
  "scheduler_drop q =
     (if q_empty q then Some q else Option.bind (q_remhead q) (\<lambda>(t, q'). scheduler_drop q'))"

definition scheduler_killall :: "tsys \<Rightarrow> tsys option" where
  "scheduler_killall st = do {
     kassert (curspl st > 0);
     q \<leftarrow> scheduler_drop (runqueue st);
     Some (st\<lparr>runqueue := q\<rparr>)
   }"

definition make_runnable :: "tid kmalloc_words \<Rightarrow> tid \<Rightarrow> tsys \<Rightarrow> (errno \<times> tsys) option" where
  "make_runnable km t st = do {
     kassert (curspl st > 0);
     (r, q) \<leftarrow> q_addtail km (runqueue st) t;
     Some (r, st\<lparr>runqueue := q\<rparr>)
   }"

text \<open>One look at the run queue; \<open>None\<close> is the branch that calls \<^verbatim>\<open>cpu_idle\<close> and looks again.\<close>

definition scheduler :: "tsys \<Rightarrow> (tid option \<times> tsys) option" where
  "scheduler st = do {
     kassert (curspl st > 0);
     (if q_empty (runqueue st) then Some (None, st)
      else do {
        (t, q) \<leftarrow> q_remhead (runqueue st);
        Some (Some t, st\<lparr>runqueue := q\<rparr>)
      })
   }"

subsection \<open>Creating and destroying threads\<close>

definition set_thread :: "tid \<Rightarrow> (thread \<Rightarrow> thread) \<Rightarrow> tsys \<Rightarrow> tsys" where
  "set_thread t f st = st\<lparr>threads := (threads st)(t := map_option f (threads st t))\<rparr>"

text \<open>\<open>new\<close> is the structure \<^verbatim>\<open>kmalloc\<close> returns, \<open>dup\<close> whether there is memory for the name.\<close>

definition thread_create :: "tid option \<Rightarrow> bool \<Rightarrow> string \<Rightarrow> tsys \<Rightarrow> tid option \<times> tsys" where
  "thread_create new dup name st =
     (case new of
        None \<Rightarrow> (None, st)
      | Some t \<Rightarrow>
          if \<not> dup then (None, st)
          else (Some t, st\<lparr>threads := (threads st)(t \<mapsto>
             \<lparr>t_pcb = Start, t_name = name, t_sleepaddr = None, t_stack = None, t_vmspace = None,
              t_cwd = None\<rparr>)\<rparr>))"

definition thread_destroy :: "tid \<Rightarrow> tsys \<Rightarrow> tsys option" where
  "thread_destroy t st = do {
     kassert (curthread st \<noteq> Some t);
     thr \<leftarrow> threads st t;
     kassert (t_vmspace thr = None);
     kassert (t_cwd thr = None);
     Some (st\<lparr>threads := (threads st)(t := None)\<rparr>)
   }"

function exorcise_from :: "int \<Rightarrow> tsys \<Rightarrow> tsys option" where
  "exorcise_from i st =
     (if i < array_getnum (zombies st) then do {
        z \<leftarrow> array_getguy (zombies st) i;
        kassert (curthread st \<noteq> Some z);
        st' \<leftarrow> thread_destroy z st;
        exorcise_from (i + 1) st'
      } else Some st)"
  by pat_completeness auto
termination
  by (relation "measure (\<lambda>(i, st). nat (array_getnum (zombies st) - i))")
    (auto simp: thread_destroy_def kernel_ops)

declare exorcise_from.simps [simp del]

definition exorcise :: "tsys \<Rightarrow> tsys option" where
  "exorcise st = do {
     kassert (curspl st > 0);
     st' \<leftarrow> exorcise_from 0 st;
     (result, z) \<leftarrow> array_setsize (\<lambda>_. None) (zombies st') 0;
     kassert (result = OK);
     Some (st'\<lparr>zombies := z\<rparr>)
   }"

definition thread_killall :: "tsys \<Rightarrow> tsys option" where
  "thread_killall st = do {
     kassert (curspl st > 0);
     (result, s) \<leftarrow> array_setsize (\<lambda>_. None) (sleepers st) 0;
     kassert (result = OK);
     Some (st\<lparr>sleepers := s\<rparr>)
   }"

definition thread_panic :: "tsys \<Rightarrow> tsys option" where
  "thread_panic st = do {
     kassert (curspl st > 0);
     st' \<leftarrow> thread_killall st;
     scheduler_killall st'
   }"

definition one_thread_only :: "tsys \<Rightarrow> bool \<times> tsys" where
  "one_thread_only st =
     (let (s, st1) = splhigh st; n = numthreads st1; (_, st2) = splx s st1 in (n = 1, st2))"

text \<open>The arguments are whether there is memory for each of the structures.\<close>

definition thread_bootstrap :: "bool \<Rightarrow> bool \<Rightarrow> tid option \<Rightarrow> bool \<Rightarrow> tsys \<Rightarrow> tsys option" where
  "thread_bootstrap mem1 mem2 new dup st = do {
     s \<leftarrow> array_create mem1;
     z \<leftarrow> array_create mem2;
     let (me, st') = thread_create new dup ''<boot/menu>'' (st\<lparr>sleepers := s, zombies := z\<rparr>);
     t \<leftarrow> me;
     Some (st'\<lparr>curthread := Some t, numthreads := 1\<rparr>)
   }"

definition stack_magic :: "8 word list option \<Rightarrow> bool" where
  "stack_magic s \<longleftrightarrow> s = None \<or>
     (load s 0 = Some 174 \<and> load s 1 = Some 17 \<and> load s 2 = Some 218 \<and> load s 3 = Some 51)"

definition write_magic :: "8 word list \<Rightarrow> 8 word list option" where
  "write_magic s0 = do {
     s1 \<leftarrow> store (Some s0) 0 174;
     s2 \<leftarrow> store (Some s1) 1 17;
     s3 \<leftarrow> store (Some s2) 2 218;
     store (Some s3) 3 51
   }"

definition vop_incref :: "nat \<Rightarrow> tsys \<Rightarrow> tsys" where
  "vop_incref v st = st\<lparr>vn_refs := (vn_refs st)(v := vn_refs st v + 1)\<rparr>"

definition vop_decref :: "nat \<Rightarrow> tsys \<Rightarrow> tsys" where
  "vop_decref v st = st\<lparr>vn_refs := (vn_refs st)(v := vn_refs st v - 1)\<rparr>"

text \<open>
  The outcomes of the allocations are the arguments: the thread structure, its name, its stack, and
  the blocks that the preallocations and \<^verbatim>\<open>make_runnable\<close> may need. The result is the error code and
  the thread handed back through \<^verbatim>\<open>ret\<close>.
\<close>

record fork_memory =
  fm_thread :: "tid option"
  fm_name :: bool
  fm_stack :: "8 word list option"
  fm_sleepers :: "tid kmalloc_words"
  fm_zombies :: "tid kmalloc_words"
  fm_prealloc :: "tid kmalloc_words"
  fm_runnable :: "tid kmalloc_words"

definition fork_fail :: "int \<Rightarrow> tid \<Rightarrow> tsys \<Rightarrow> tsys option" where
  "fork_fail s new st0 = do {
     let (_, st) = splx s st0;
     thr \<leftarrow> threads st new;
     let st1 = (case t_cwd thr of None \<Rightarrow> st | Some v \<Rightarrow> vop_decref v st);
     Some (st1\<lparr>threads := (threads st1)(new := None)\<rparr>)
   }"

definition fork_lists :: "fork_memory \<Rightarrow> tid \<Rightarrow> tsys \<Rightarrow> (errno \<times> tid option \<times> tsys) option" where
  "fork_lists mem new st3 = do {
     let (s, st4) = splhigh st3;
     (r1, sl) \<leftarrow> array_preallocate (fm_sleepers mem) (sleepers st4) (numthreads st4 + 1);
     let st5 = st4\<lparr>sleepers := sl\<rparr>;
     if r1 \<noteq> OK then do { st' \<leftarrow> fork_fail s new st5; Some (r1, None, st') }
     else do {
       (r2, zs) \<leftarrow> array_preallocate (fm_zombies mem) (zombies st5) (numthreads st5 + 1);
       let st6 = st5\<lparr>zombies := zs\<rparr>;
       if r2 \<noteq> OK then do { st' \<leftarrow> fork_fail s new st6; Some (r2, None, st') }
       else do {
         (r3, st7) \<leftarrow> scheduler_preallocate (fm_prealloc mem) (numthreads st6 + 1) st6;
         if r3 \<noteq> OK then do { st' \<leftarrow> fork_fail s new st7; Some (r3, None, st') }
         else do {
           (r4, st8) \<leftarrow> make_runnable (fm_runnable mem) new st7;
           if r4 \<noteq> OK then do { st' \<leftarrow> fork_fail s new st8; Some (r4, None, st') }
           else do {
             let (_, st9) = splx s (st8\<lparr>numthreads := numthreads st8 + 1\<rparr>);
             Some (OK, Some new, st9)
           }
         }
       }
     }
   }"

definition thread_fork ::
  "fork_memory \<Rightarrow> string \<Rightarrow> tsys \<Rightarrow> (errno \<times> tid option \<times> tsys) option" where
  "thread_fork mem name st0 =
     (let (newguy, st1) = thread_create (fm_thread mem) (fm_name mem) name st0 in
      case newguy of
        None \<Rightarrow> Some (ENOMEM, None, st1)
      | Some new \<Rightarrow>
         (case fm_stack mem of
            None \<Rightarrow> Some (ENOMEM, None, st1\<lparr>threads := (threads st1)(new := None)\<rparr>)
          | Some s0 \<Rightarrow> do {
              stk \<leftarrow> write_magic s0;
              cur \<leftarrow> curthread st1;
              me \<leftarrow> threads st1 cur;
              let st2 = set_thread new (\<lambda>t. t\<lparr>t_stack := Some stk\<rparr>) st1;
              let st3 = (case t_cwd me of None \<Rightarrow> st2
                 | Some v \<Rightarrow> set_thread new (\<lambda>t. t\<lparr>t_cwd := Some v\<rparr>) (vop_incref v st2));
              fork_lists mem new (set_thread new (\<lambda>t. t\<lparr>t_pcb := Start\<rparr>) st3)
            }))"

subsection \<open>The context switch\<close>

text \<open>
  \<^verbatim>\<open>mi_switch\<close> up to the call of the scheduler. The flag says whether the processor is given up;
  without a current thread (an interrupt taken in the idle loop) the function returns at once.
\<close>

definition mi_switch_out :: "tid kmalloc_words \<Rightarrow> threadstate \<Rightarrow> tsys \<Rightarrow> (bool \<times> tsys) option" where
  "mi_switch_out km nextstate st = do {
     kassert (curspl st > 0);
     (case curthread st of
        None \<Rightarrow> Some (False, st)
      | Some cur \<Rightarrow> do {
          thr \<leftarrow> threads st cur;
          kassert (stack_magic (t_stack thr));
          let st1 = st\<lparr>curthread := None\<rparr>;
          (result, st2) \<leftarrow>
            (if nextstate = S_READY then make_runnable km cur st1
             else if nextstate = S_SLEEP then do {
               (r, s) \<leftarrow> array_add km (sleepers st1) cur;
               Some (r, st1\<lparr>sleepers := s\<rparr>)
             }
             else do {
               kassert (nextstate = S_ZOMB);
               (r, z) \<leftarrow> array_add km (zombies st1) cur;
               Some (r, st1\<lparr>zombies := z\<rparr>)
             });
          kassert (result = OK);
          Some (True, st2)
        })
   }"

text \<open>
  The thread \<open>next\<close> continues behind \<^verbatim>\<open>md_switch\<close>, or in \<^verbatim>\<open>mi_threadstart\<close> when it is new, and runs
  on to the end of \<^verbatim>\<open>thread_yield\<close> or \<^verbatim>\<open>thread_sleep\<close>.
\<close>

definition mi_switch_in :: "tid \<Rightarrow> tsys \<Rightarrow> tsys option" where
  "mi_switch_in next st0 = do {
     let st = st0\<lparr>curthread := Some next\<rparr>;
     thr \<leftarrow> threads st next;
     (case t_pcb thr of
        Start \<Rightarrow> Some (snd (spl0 st))
      | Yielded spl \<Rightarrow> do { st1 \<leftarrow> exorcise st; Some (snd (splx spl st1)) }
      | Slept \<Rightarrow> do {
          st1 \<leftarrow> exorcise st;
          Some (set_thread next (\<lambda>t. t\<lparr>t_sleepaddr := None\<rparr>) st1)
        })
   }"

definition thread_yield :: "tid kmalloc_words \<Rightarrow> tsys \<Rightarrow> tsys option" where
  "thread_yield km st0 = do {
     let (spl, st1) = splhigh st0;
     let st2 = (case curthread st1 of None \<Rightarrow> st1
        | Some cur \<Rightarrow> set_thread cur (\<lambda>t. t\<lparr>t_pcb := Yielded spl\<rparr>) st1);
     (switched, st3) \<leftarrow> mi_switch_out km S_READY st2;
     Some (if switched then st3 else snd (splx spl st3))
   }"

definition thread_sleep :: "tid kmalloc_words \<Rightarrow> addr \<Rightarrow> tsys \<Rightarrow> tsys option" where
  "thread_sleep km address st0 = do {
     kassert (in_interrupt st0 = 0);
     cur \<leftarrow> curthread st0;
     let st1 = set_thread cur (\<lambda>t. t\<lparr>t_sleepaddr := Some address, t_pcb := Slept\<rparr>) st0;
     (switched, st2) \<leftarrow> mi_switch_out km S_SLEEP st1;
     Some st2
   }"

definition thread_exit :: "tid kmalloc_words \<Rightarrow> tsys \<Rightarrow> tsys option" where
  "thread_exit km st0 = do {
     cur \<leftarrow> curthread st0;
     thr \<leftarrow> threads st0 cur;
     kassert (stack_magic (t_stack thr));
     let st1 = set_thread cur (\<lambda>t. t\<lparr>t_vmspace := None\<rparr>) (snd (splhigh st0));
     let st2 = (case t_cwd thr of None \<Rightarrow> st1
        | Some v \<Rightarrow> set_thread cur (\<lambda>t. t\<lparr>t_cwd := None\<rparr>) (vop_decref v st1));
     kassert (numthreads st2 > 0);
     (switched, st3) \<leftarrow> mi_switch_out km S_ZOMB (st2\<lparr>numthreads := numthreads st2 - 1\<rparr>);
     Some st3
   }"

text \<open>The processor, in the scheduler with no current thread, takes the next runnable one.\<close>

definition dispatch :: "tsys \<Rightarrow> tsys option" where
  "dispatch st = do {
     (next, st1) \<leftarrow> scheduler st;
     (case next of None \<Rightarrow> Some st1 | Some t \<Rightarrow> mi_switch_in t st1)
   }"

subsection \<open>Wakeup\<close>

function wakeup_from :: "tid kmalloc_words \<Rightarrow> addr \<Rightarrow> int \<Rightarrow> tsys \<Rightarrow> tsys option" where
  "wakeup_from km address i st =
     (if i < array_getnum (sleepers st) then do {
        t \<leftarrow> array_getguy (sleepers st) i;
        thr \<leftarrow> threads st t;
        (if t_sleepaddr thr = Some address then do {
           s \<leftarrow> array_remove (sleepers st) i;
           (result, st') \<leftarrow> make_runnable km t (st\<lparr>sleepers := s\<rparr>);
           kassert (result = OK);
           wakeup_from km address i st'
         }
         else wakeup_from km address (i + 1) st)
      } else Some st)"
  by pat_completeness auto
termination
  by (relation "measure (\<lambda>(km, address, i, st). nat (array_getnum (sleepers st) - i))")
    (auto simp: make_runnable_def array_remove_def array_getnum_def kernel_ops split: prod.splits)

declare wakeup_from.simps [simp del]

definition thread_wakeup :: "tid kmalloc_words \<Rightarrow> addr \<Rightarrow> tsys \<Rightarrow> tsys option" where
  "thread_wakeup km address st = do {
     kassert (curspl st > 0);
     wakeup_from km address 0 st
   }"

function hassleepers_from :: "addr \<Rightarrow> int \<Rightarrow> tsys \<Rightarrow> bool option" where
  "hassleepers_from address i st =
     (if i < array_getnum (sleepers st) then do {
        t \<leftarrow> array_getguy (sleepers st) i;
        thr \<leftarrow> threads st t;
        (if t_sleepaddr thr = Some address then Some True
         else hassleepers_from address (i + 1) st)
      } else Some False)"
  by pat_completeness auto
termination
  by (relation "measure (\<lambda>(address, i, st). nat (array_getnum (sleepers st) - i))") auto

declare hassleepers_from.simps [simp del]

definition thread_hassleepers :: "addr \<Rightarrow> tsys \<Rightarrow> bool option" where
  "thread_hassleepers address st = do {
     kassert (curspl st > 0);
     hassleepers_from address 0 st
   }"

section \<open>Invariant\<close>

text \<open>
  Every thread structure that is allocated is in exactly one place: current, asleep, runnable or a
  zombie; the counter counts those that are not zombies. Zombies have given up their address space
  and directory, sleepers have a sleep address, and no stack has lost its magic number.
\<close>

definition running :: "tsys \<Rightarrow> tid list" where
  "running st = (case curthread st of None \<Rightarrow> [] | Some t \<Rightarrow> [t])"

definition live :: "tsys \<Rightarrow> tid list" where
  "live st = running st @ array_elems (sleepers st) @ queue_elems (runqueue st)"

definition owned :: "tsys \<Rightarrow> tid list" where
  "owned st = live st @ array_elems (zombies st)"

definition ts_wf :: "tsys \<Rightarrow> bool" where
  "ts_wf st \<longleftrightarrow> array_wf (sleepers st) \<and> array_wf (zombies st) \<and> queue_wf (runqueue st)"

definition ts_contents :: "tsys \<Rightarrow> bool" where
  "ts_contents st \<longleftrightarrow>
     (\<forall>t thr. threads st t = Some thr \<longrightarrow>
        stack_magic (t_stack thr) \<and>
        (t \<in> set (array_elems (zombies st)) \<longrightarrow> t_vmspace thr = None \<and> t_cwd thr = None) \<and>
        (t \<in> set (array_elems (sleepers st)) \<longrightarrow> t_sleepaddr thr \<noteq> None \<and> t_pcb thr = Slept))"

definition ts_core :: "tsys \<Rightarrow> bool" where
  "ts_core st \<longleftrightarrow> ts_wf st \<and> distinct (owned st) \<and> set (owned st) = dom (threads st) \<and> ts_contents st"

definition ts_room :: "tsys \<Rightarrow> bool" where
  "ts_room st \<longleftrightarrow> numthreads st \<le> max 1 (a_max (sleepers st)) \<and> numthreads st \<le> q_size (runqueue st)"

definition ts_inv :: "tsys \<Rightarrow> bool" where
  "ts_inv st \<longleftrightarrow> ts_core st \<and> numthreads st = int (length (live st)) \<and> ts_room st"

lemmas ts_defs = ts_inv_def ts_core_def ts_wf_def ts_contents_def

lemma ts_inv_core: "ts_inv st \<Longrightarrow> ts_core st"
  by (simp add: ts_inv_def)

lemma ts_core_wf:
  "ts_core st \<Longrightarrow> array_wf (sleepers st)" "ts_core st \<Longrightarrow> array_wf (zombies st)"
  "ts_core st \<Longrightarrow> queue_wf (runqueue st)"
  by (simp_all add: ts_core_def ts_wf_def)

lemma ts_core_dom: "ts_core st \<Longrightarrow> t \<in> set (owned st) \<Longrightarrow> \<exists>thr. threads st t = Some thr"
  by (auto simp: ts_core_def)

lemma current_owned: "curthread st = Some t \<Longrightarrow> t \<in> set (owned st)"
  by (simp add: owned_def live_def running_def)

lemma current_apart:
  "ts_core st \<Longrightarrow> curthread st = Some t \<Longrightarrow>
     t \<notin> set (array_elems (sleepers st)) \<and> t \<notin> set (queue_elems (runqueue st)) \<and>
     t \<notin> set (array_elems (zombies st))"
  by (auto simp: ts_core_def owned_def live_def running_def)

text \<open>Two states whose lists hold the same threads differ only in where they are.\<close>

lemma ts_core_move:
  assumes "ts_core st" and "ts_wf st'" and "mset (owned st') = mset (owned st)"
    and "dom (threads st') = dom (threads st)" and "ts_contents st'"
  shows "ts_core st'"
  using assms mset_eq_setD[OF assms(3)] mset_eq_imp_distinct_iff[OF assms(3)]
  by (simp add: ts_core_def)

lemma splx_core: "ts_core (snd (splx s st)) = ts_core st"
  by (simp add: splx_def ts_core_def ts_wf_def ts_contents_def owned_def live_def running_def)

lemma splx_inv: "ts_inv (snd (splx s st)) = ts_inv st"
  using splx_core[of s st]
  by (simp add: ts_inv_def ts_room_def) (simp add: splx_def live_def running_def)

lemma splx_simps [simp]:
  "curspl (snd (splx s st)) = s" "fst (splx s st) = curspl st"
  "curthread (snd (splx s st)) = curthread st" "sleepers (snd (splx s st)) = sleepers st"
  "zombies (snd (splx s st)) = zombies st" "runqueue (snd (splx s st)) = runqueue st"
  "threads (snd (splx s st)) = threads st" "numthreads (snd (splx s st)) = numthreads st"
  "vn_refs (snd (splx s st)) = vn_refs st" "in_interrupt (snd (splx s st)) = in_interrupt st"
  by (simp_all add: splx_def)

lemma set_thread_simps [simp]:
  "curspl (set_thread t f st) = curspl st" "curthread (set_thread t f st) = curthread st"
  "sleepers (set_thread t f st) = sleepers st" "zombies (set_thread t f st) = zombies st"
  "runqueue (set_thread t f st) = runqueue st" "numthreads (set_thread t f st) = numthreads st"
  "vn_refs (set_thread t f st) = vn_refs st" "in_interrupt (set_thread t f st) = in_interrupt st"
  "owned (set_thread t f st) = owned st" "live (set_thread t f st) = live st"
  "dom (threads (set_thread t f st)) = dom (threads st)"
  by (auto simp: set_thread_def owned_def live_def running_def split: if_splits)

lemma threads_set_thread:
  "threads (set_thread t f st) u = (if u = t then map_option f (threads st t) else threads st u)"
  by (simp add: set_thread_def)

text \<open>Changing fields of the current thread other than its stack keeps the invariant.\<close>

lemma set_current_core:
  assumes "ts_core st" and "curthread st = Some t" and "\<And>thr. t_stack (f thr) = t_stack thr"
  shows "ts_core (set_thread t f st)"
  using assms current_apart[OF assms(1,2)]
  by (simp add: ts_core_def ts_wf_def ts_contents_def threads_set_thread) fastforce

lemma vop_simps [simp]:
  "ts_core (vop_incref v st) = ts_core st" "ts_core (vop_decref v st) = ts_core st"
  "curthread (vop_decref v st) = curthread st" "numthreads (vop_decref v st) = numthreads st"
  "live (vop_decref v st) = live st" "threads (vop_decref v st) = threads st"
  "curspl (vop_decref v st) = curspl st" "sleepers (vop_decref v st) = sleepers st"
  "runqueue (vop_decref v st) = runqueue st" "zombies (vop_decref v st) = zombies st"
  by (simp_all add: vop_incref_def vop_decref_def ts_core_def ts_wf_def ts_contents_def owned_def
      live_def running_def)

section \<open>Scheduling\<close>

lemma make_runnable_cases:
  assumes "queue_wf (runqueue st)" and "words_of_size km" and "curspl st > 0"
  obtains (full) "make_runnable km t st = Some (ENOMEM, st)" "queue_count (runqueue st) = q_size (runqueue st) - 1"
  | (added) q where "make_runnable km t st = Some (OK, st\<lparr>runqueue := q\<rparr>)" "queue_wf q"
      "queue_elems q = queue_elems (runqueue st) @ [t]" "q_size (runqueue st) \<le> q_size q"
  using q_addtail_spec[OF assms(1,2), of t] assms(3) by (auto simp: make_runnable_def)

lemma make_runnable_room:
  assumes "queue_wf (runqueue st)" and "curspl st > 0"
    and "queue_count (runqueue st) < q_size (runqueue st) - 1"
  shows "\<exists>q. make_runnable km t st = Some (OK, st\<lparr>runqueue := q\<rparr>) \<and> queue_wf q \<and>
    queue_elems q = queue_elems (runqueue st) @ [t] \<and> queue_count q = queue_count (runqueue st) + 1 \<and>
    q_size q = q_size (runqueue st)"
  using q_addtail_room[OF assms(1,3), of km t] assms(2) by (auto simp: make_runnable_def)

text \<open>
  Giving up the processor moves the current thread to one list; a thread that exits leaves the
  threads that count.
\<close>

definition switch_ready :: "threadstate \<Rightarrow> tsys \<Rightarrow> bool" where
  "switch_ready ns st \<longleftrightarrow> (\<forall>t thr. curthread st = Some t \<longrightarrow> threads st t = Some thr \<longrightarrow>
     (ns = S_SLEEP \<longrightarrow> t_sleepaddr thr \<noteq> None \<and> t_pcb thr = Slept) \<and>
     (ns = S_ZOMB \<longrightarrow> t_vmspace thr = None \<and> t_cwd thr = None))"

lemma mi_switch_out_cases:
  assumes core: "ts_core st" and km: "words_of_size km" and run: "mi_switch_out km ns st = Some (b, st')"
  obtains (idle) "curthread st = None" "\<not> b" "st' = st"
  | (ready) cur q where "curthread st = Some cur" "b" "ns = S_READY" "queue_wf q"
      "st' = st\<lparr>curthread := None, runqueue := q\<rparr>"
      "queue_elems q = queue_elems (runqueue st) @ [cur]" "q_size (runqueue st) \<le> q_size q"
  | (sleep) cur s where "curthread st = Some cur" "b" "ns = S_SLEEP" "array_wf s"
      "st' = st\<lparr>curthread := None, sleepers := s\<rparr>"
      "array_elems s = array_elems (sleepers st) @ [cur]" "a_max (sleepers st) \<le> a_max s"
  | (zombie) cur z where "curthread st = Some cur" "b" "ns = S_ZOMB" "array_wf z"
      "st' = st\<lparr>curthread := None, zombies := z\<rparr>" "array_elems z = array_elems (zombies st) @ [cur]"
proof (cases "curthread st")
  case None
  with run have "\<not> b" "st' = st" by (auto simp: mi_switch_out_def kernel_ops)
  with None show ?thesis by (rule idle)
next
  case (Some cur)
  let ?st = "st\<lparr>curthread := None\<rparr>"
  have spl: "curspl st > 0" using run by (simp add: mi_switch_out_def kernel_ops)
  show ?thesis
  proof (cases ns)
    case S_READY
    have "make_runnable km cur ?st = Some (OK, st')" "b"
      using run Some S_READY by (auto simp: mi_switch_out_def kernel_ops)
    moreover have "queue_wf (runqueue ?st)" "curspl ?st > 0" using core spl by (simp_all add: ts_core_wf)
    ultimately show ?thesis using make_runnable_cases[OF _ km, of ?st cur] ready[OF Some _ S_READY] by auto
  next
    case S_SLEEP
    then obtain s where "array_add km (sleepers st) cur = Some (OK, s)" "st' = ?st\<lparr>sleepers := s\<rparr>" "b"
      using run Some by (auto simp: mi_switch_out_def kernel_ops)
    then show ?thesis
      using array_add_spec[OF ts_core_wf(1)[OF core] km, of cur] sleep[OF Some _ S_SLEEP] by auto
  next
    case S_ZOMB
    then obtain z where "array_add km (zombies st) cur = Some (OK, z)" "st' = ?st\<lparr>zombies := z\<rparr>" "b"
      using run Some by (auto simp: mi_switch_out_def kernel_ops)
    then show ?thesis
      using array_add_spec[OF ts_core_wf(2)[OF core] km, of cur] zombie[OF Some _ S_ZOMB] by auto
  next
    case S_RUN
    then show ?thesis using run Some by (auto simp: mi_switch_out_def kernel_ops)
  qed
qed

lemma mi_switch_out_core:
  assumes core: "ts_core st" and km: "words_of_size km" and ready: "switch_ready ns st"
    and run: "mi_switch_out km ns st = Some (b, st')"
  shows "ts_core st'"
  using core km run
proof (cases rule: mi_switch_out_cases)
  case (ready cur q)
  then show ?thesis using core
    by (intro ts_core_move[OF core]) (auto simp: ts_defs owned_def live_def running_def)
next
  case (sleep cur s)
  then show ?thesis using core assms(3)
    by (intro ts_core_move[OF core])
      (auto simp: ts_defs owned_def live_def running_def switch_ready_def)
next
  case (zombie cur z)
  then show ?thesis using core assms(3)
    by (intro ts_core_move[OF core])
      (auto simp: ts_defs owned_def live_def running_def switch_ready_def)
qed (use core in simp)

text \<open>Yielding and sleeping keep the counter right, and so does exiting, which has lowered it.\<close>

lemma mi_switch_out_inv:
  assumes core: "ts_core st" and km: "words_of_size km" and ready: "switch_ready ns st"
    and run: "mi_switch_out km ns st = Some (b, st')" and cur: "curthread st \<noteq> None"
    and n: "numthreads st = int (length (live st)) - (if ns = S_ZOMB then 1 else 0)" and room: "ts_room st"
  shows "ts_inv st'"
proof -
  have "numthreads st' = int (length (live st')) \<and> ts_room st'"
    using core km run
    by (cases rule: mi_switch_out_cases) (use cur n room in \<open>auto simp: live_def running_def ts_room_def\<close>)
  with mi_switch_out_core[OF assms(1-4)] show ?thesis by (simp add: ts_inv_def)
qed

lemma numthreads_core [simp]: "ts_core (st\<lparr>numthreads := n\<rparr>) = ts_core st"
  by (simp add: ts_core_def ts_wf_def ts_contents_def owned_def live_def running_def)

lemma live_simps [simp]:
  "live (st\<lparr>numthreads := n\<rparr>) = live st" "live (snd (splx s st)) = live st"
  by (simp_all add: live_def running_def)

lemma thread_yield_inv:
  assumes inv: "ts_inv st" and km: "words_of_size km" and run: "thread_yield km st = Some st'"
  shows "ts_inv st'"
proof (cases "curthread st")
  case None
  with run have "st' = snd (splx (curspl st) (snd (splx 15 st)))"
    by (auto simp: thread_yield_def mi_switch_out_def splhigh_def splx_def)
  with inv show ?thesis by (simp add: splx_inv)
next
  case (Some cur)
  let ?st = "set_thread cur (\<lambda>t. t\<lparr>t_pcb := Yielded (curspl st)\<rparr>) (snd (splx 15 st))"
  have "ts_core (snd (splx 15 st))" "ts_room st" using inv splx_inv[of 15 st] by (simp_all add: ts_inv_def)
  then have core: "ts_core ?st" "ts_room ?st"
    using Some by (auto simp: ts_room_def intro!: set_current_core)
  from run Some obtain b x where out: "mi_switch_out km S_READY ?st = Some (b, x)"
    and st': "st' = (if b then x else snd (splx (curspl st) x))"
    unfolding thread_yield_def splhigh_def Let_def by (auto simp: kernel_ops case_prod_beta)
  have "b" using core(1) km out by (cases rule: mi_switch_out_cases) (use Some in auto)
  then show ?thesis
    using mi_switch_out_inv[OF core(1) km _ out _ _ core(2)] Some inv st'
    by (simp add: switch_ready_def ts_inv_def)
qed

lemma thread_sleep_inv:
  assumes inv: "ts_inv st" and km: "words_of_size km" and run: "thread_sleep km a st = Some st'"
  shows "ts_inv st'"
proof -
  from run obtain cur b where cur: "curthread st = Some cur"
    and out: "mi_switch_out km S_SLEEP (set_thread cur (\<lambda>t. t\<lparr>t_sleepaddr := Some a, t_pcb := Slept\<rparr>) st) = Some (b, st')"
    by (auto simp: thread_sleep_def kernel_ops)
  let ?st = "set_thread cur (\<lambda>t. t\<lparr>t_sleepaddr := Some a, t_pcb := Slept\<rparr>) st"
  have core: "ts_core ?st" "ts_room ?st"
    using cur inv by (auto simp: ts_room_def ts_inv_def intro!: set_current_core)
  have "switch_ready S_SLEEP ?st" using cur by (auto simp: switch_ready_def threads_set_thread)
  from mi_switch_out_inv[OF core(1) km this out _ _ core(2)] cur inv show ?thesis
    by (simp add: ts_inv_def)
qed

lemma thread_exit_inv:
  assumes inv: "ts_inv st" and km: "words_of_size km" and run: "thread_exit km st = Some st'"
  shows "ts_inv st'"
proof -
  from run obtain cur thr where cur: "curthread st = Some cur" and thr: "threads st cur = Some thr"
    by (auto simp: thread_exit_def kernel_ops)
  define st1 where "st1 = set_thread cur (\<lambda>t. t\<lparr>t_vmspace := None\<rparr>) (snd (splhigh st))"
  define st2 where "st2 = (case t_cwd thr of None \<Rightarrow> st1
    | Some v \<Rightarrow> set_thread cur (\<lambda>t. t\<lparr>t_cwd := None\<rparr>) (vop_decref v st1))"
  let ?st = "st2\<lparr>numthreads := numthreads st2 - 1\<rparr>"
  from run cur thr obtain b where out: "mi_switch_out km S_ZOMB ?st = Some (b, st')"
    unfolding thread_exit_def Let_def st2_def st1_def by (auto simp: kernel_ops)
  have cur1: "curthread st1 = Some cur" using cur by (simp add: st1_def splhigh_def)
  have "ts_core st1"
    using inv cur splx_core[of 15 st] by (auto simp: st1_def splhigh_def ts_inv_def intro!: set_current_core)
  then have "ts_core st2" using cur1 by (auto simp: st2_def split: option.splits intro!: set_current_core)
  moreover have "switch_ready S_ZOMB ?st"
    using cur thr by (auto simp: switch_ready_def st2_def st1_def splhigh_def threads_set_thread split: option.splits)
  moreover have "curthread st2 = Some cur" "numthreads st2 = numthreads st" "live st2 = live st" "ts_room ?st"
    using cur inv by (auto simp: st2_def st1_def splhigh_def ts_inv_def ts_room_def split: option.splits)
  ultimately show ?thesis
    using mi_switch_out_inv[OF _ km _ out] inv by (simp add: ts_inv_def live_simps)
qed

text \<open>Exorcising frees the zombies, all of them and nothing else; no assertion fails.\<close>

lemma exorcise_from_spec:
  assumes wf: "array_wf (zombies st)" and "0 \<le> i" and "i \<le> array_getnum (zombies st)"
    and "distinct (drop (nat i) (array_elems (zombies st)))"
    and "\<forall>z \<in> set (drop (nat i) (array_elems (zombies st))). curthread st \<noteq> Some z \<and>
          (\<exists>thr. threads st z = Some thr \<and> t_vmspace thr = None \<and> t_cwd thr = None)"
  shows "exorcise_from i st =
    Some (st\<lparr>threads := threads st |` (- set (drop (nat i) (array_elems (zombies st))))\<rparr>)"
  using assms(2-) wf
proof (induction "nat (array_getnum (zombies st) - i)" arbitrary: i st)
  case 0
  then have "i = array_getnum (zombies st)" by simp
  with 0 have "drop (nat i) (array_elems (zombies st)) = []" by (simp add: arr.getnum_law)
  with 0 show ?case by (simp add: exorcise_from.simps[of i] restrict_map_def)
next
  case (Suc n)
  let ?zs = "array_elems (zombies st)" and ?z = "array_elems (zombies st) ! nat i"
  have lt: "i < array_getnum (zombies st)" "nat i < length ?zs"
    using Suc by (auto simp: arr.getnum_law)
  then have drop: "drop (nat i) ?zs = ?z # drop (nat (i + 1)) ?zs"
    using Suc.prems(1) by (simp add: Cons_nth_drop_Suc nat_add_distrib)
  obtain thr where thr: "threads st ?z = Some thr" "t_vmspace thr = None" "t_cwd thr = None"
      "curthread st \<noteq> Some ?z" using Suc.prems(4) drop by auto
  let ?st = "st\<lparr>threads := (threads st)(?z := None)\<rparr>"
  have "exorcise_from (i + 1) ?st =
      Some (?st\<lparr>threads := threads ?st |` (- set (drop (nat (i + 1)) (array_elems (zombies ?st))))\<rparr>)"
    using Suc.hyps(2) Suc.prems drop lt by (intro Suc.hyps(1)) auto
  moreover have "exorcise_from i st = exorcise_from (i + 1) ?st"
    using lt Suc.prems thr by (simp add: exorcise_from.simps[of i] arr.getguy_law thread_destroy_def)
  moreover have "(threads st)(?z := None) |` (- set (drop (nat (i + 1)) ?zs)) =
      threads st |` (- set (drop (nat i) ?zs))"
    unfolding drop by (auto simp: restrict_map_def fun_eq_iff)
  ultimately show ?case by simp
qed

lemma array_setsize_zero:
  assumes "array_wf a"
  shows "\<exists>a'. array_setsize km a 0 = Some (OK, a') \<and> array_wf a' \<and> array_elems a' = [] \<and>
           a_max a' = (if a_max a > 16 then 0 else a_max a)"
  using assms by (cases rule: array_wfE) (auto simp: array_setsize_def array_wf_def array_elems_def)

lemma exorcise_spec:
  assumes core: "ts_core st" and spl: "curspl st > 0"
  shows "\<exists>z. exorcise st = Some (st\<lparr>threads := threads st |` (- set (array_elems (zombies st))), zombies := z\<rparr>) \<and>
    array_wf z \<and> array_elems z = [] \<and> a_max z = (if a_max (zombies st) > 16 then 0 else a_max (zombies st))"
proof -
  have "curthread st \<noteq> Some z \<and> (\<exists>thr. threads st z = Some thr \<and> t_vmspace thr = None \<and> t_cwd thr = None)"
    if "z \<in> set (array_elems (zombies st))" for z
    using that core ts_core_dom[OF core, of z]
    by (auto simp: ts_core_def ts_contents_def owned_def live_def running_def)
  then have "exorcise_from 0 st = Some (st\<lparr>threads := threads st |` (- set (array_elems (zombies st)))\<rparr>)"
    using exorcise_from_spec[of st 0] core by (simp add: ts_core_def ts_wf_def owned_def arr.getnum_law)
  with array_setsize_zero[OF ts_core_wf(2)[OF core], of "\<lambda>_. None"] spl show ?thesis
    by (auto simp: exorcise_def)
qed

lemma exorcise_core:
  assumes core: "ts_core st" and spl: "curspl st > 0"
  shows "\<exists>st'. exorcise st = Some st' \<and> ts_core st' \<and> live st' = live st \<and> array_elems (zombies st') = [] \<and>
    sleepers st' = sleepers st \<and> runqueue st' = runqueue st \<and> curthread st' = curthread st \<and>
    numthreads st' = numthreads st \<and> curspl st' = curspl st \<and> in_interrupt st' = in_interrupt st \<and>
    (\<forall>t \<in> set (live st). threads st' t = threads st t)"
proof -
  obtain z where z: "exorcise st =
      Some (st\<lparr>threads := threads st |` (- set (array_elems (zombies st))), zombies := z\<rparr>)"
      "array_wf z" "array_elems z = []"
    using exorcise_spec[OF assms] by blast
  let ?st = "st\<lparr>threads := threads st |` (- set (array_elems (zombies st))), zombies := z\<rparr>"
  have live: "live ?st = live st" by (simp add: live_def running_def)
  have "set (live st) \<inter> set (array_elems (zombies st)) = {}"
    using core by (auto simp: ts_core_def owned_def)
  moreover from this have "set (owned ?st) = dom (threads ?st)" "distinct (owned ?st)"
    using core z(3) live by (auto simp: ts_core_def owned_def)
  moreover have "ts_contents ?st" using core z(3) by (auto simp: ts_core_def ts_contents_def restrict_map_def)
  ultimately have "ts_core ?st" using core z(2) by (simp add: ts_core_def ts_wf_def)
  moreover have "\<forall>t \<in> set (live st). threads ?st t = threads st t"
    using \<open>set (live st) \<inter> _ = {}\<close> by (auto simp: restrict_map_def)
  ultimately show ?thesis using z live by simp
qed

lemma mi_switch_in_spec:
  assumes core: "ts_core st" and none: "curthread st = None" and spl: "curspl st > 0"
    and q: "queue_elems (runqueue st) = t # ts" "queue_wf q" "queue_elems q = ts"
  shows "\<exists>st'. mi_switch_in t (st\<lparr>runqueue := q\<rparr>) = Some st' \<and> ts_core st' \<and> curthread st' = Some t \<and>
    runqueue st' = q \<and> sleepers st' = sleepers st \<and> numthreads st' = numthreads st \<and>
    mset (live st') = mset (live st) \<and> in_interrupt st' = in_interrupt st \<and>
    (\<forall>u \<in> set (array_elems (sleepers st)). threads st' u = threads st u) \<and>
    curspl st' = (case t_pcb (the (threads st t)) of Start \<Rightarrow> 0 | Yielded s \<Rightarrow> s | Slept \<Rightarrow> curspl st)"
proof -
  let ?st = "st\<lparr>runqueue := q, curthread := Some t\<rparr>"
  have perm: "mset (live ?st) = mset (live st)" "mset (owned ?st) = mset (owned st)"
    using none q by (simp_all add: live_def owned_def running_def)
  have core': "ts_core ?st"
    by (rule ts_core_move[OF core _ perm(2)]) (use core q in \<open>auto simp: ts_core_def ts_wf_def ts_contents_def\<close>)
  obtain thr where thr: "threads st t = Some thr"
    using ts_core_dom[OF core, of t] q(1) by (auto simp: owned_def live_def)
  obtain st1 where st1: "exorcise ?st = Some st1" "ts_core st1" "live st1 = live ?st" "sleepers st1 = sleepers st"
      "runqueue st1 = q" "curthread st1 = Some t" "numthreads st1 = numthreads st" "curspl st1 = curspl st"
      "in_interrupt st1 = in_interrupt st" "\<forall>u \<in> set (live ?st). threads st1 u = threads st u"
    using exorcise_core[OF core'] spl by auto
  have apart: "u \<in> set (live ?st) \<and> u \<noteq> t" if "u \<in> set (array_elems (sleepers st))" for u
    using that current_apart[OF core', of t] by (auto simp: live_def)
  show ?thesis
  proof (cases "t_pcb thr")
    case Start
    with thr core' perm show ?thesis using splx_core[of 0 ?st]
      by (simp add: mi_switch_in_def spl0_def)
  next
    case (Yielded s)
    with thr st1 perm apart show ?thesis using splx_core[of s st1] by (simp add: mi_switch_in_def)
  next
    case Slept
    have "ts_core (set_thread t (\<lambda>t. t\<lparr>t_sleepaddr := None\<rparr>) st1)"
      using st1 by (intro set_current_core) simp_all
    with Slept thr st1 perm apart show ?thesis by (simp add: mi_switch_in_def threads_set_thread)
  qed
qed

lemma dispatch_spec:
  assumes inv: "ts_inv st" and none: "curthread st = None" and spl: "curspl st > 0"
  shows "case queue_elems (runqueue st) of
      [] \<Rightarrow> dispatch st = Some st
    | t # ts \<Rightarrow> \<exists>st'. dispatch st = Some st' \<and> ts_inv st' \<and> curthread st' = Some t \<and>
        queue_elems (runqueue st') = ts \<and> sleepers st' = sleepers st \<and>
        q_size (runqueue st') = q_size (runqueue st) \<and> in_interrupt st' = in_interrupt st \<and>
        (\<forall>u \<in> set (array_elems (sleepers st)). threads st' u = threads st u) \<and>
        curspl st' = (case t_pcb (the (threads st t)) of Start \<Rightarrow> 0 | Yielded s \<Rightarrow> s | Slept \<Rightarrow> curspl st)"
proof -
  have core: "ts_core st" and wf: "queue_wf (runqueue st)" using inv by (auto simp: ts_inv_def ts_core_wf)
  show ?thesis
  proof (cases "queue_elems (runqueue st)")
    case Nil
    then show ?thesis using spl queue_empty_iff[OF wf] by (simp add: dispatch_def scheduler_def)
  next
    case (Cons t ts)
    then obtain q where q: "q_remhead (runqueue st) = Some (t, q)" "queue_wf q" "queue_elems q = ts"
        "q_size q = q_size (runqueue st)"
      using q_remhead_spec[OF wf] by auto
    obtain st' where st': "mi_switch_in t (st\<lparr>runqueue := q\<rparr>) = Some st'" "ts_core st'" "curthread st' = Some t"
        "runqueue st' = q" "sleepers st' = sleepers st" "numthreads st' = numthreads st"
        "mset (live st') = mset (live st)" "in_interrupt st' = in_interrupt st"
        "\<forall>u \<in> set (array_elems (sleepers st)). threads st' u = threads st u"
        "curspl st' = (case t_pcb (the (threads st t)) of Start \<Rightarrow> 0 | Yielded s \<Rightarrow> s | Slept \<Rightarrow> curspl st)"
      using mi_switch_in_spec[OF core none spl Cons q(2,3)] by blast
    have "dispatch st = Some st'"
      using Cons q(1) st'(1) spl queue_empty_iff[OF wf] by (simp add: dispatch_def scheduler_def)
    moreover have "ts_inv st'"
      using st' q(4) inv mset_eq_length[OF st'(7)] by (simp add: ts_inv_def ts_room_def)
    ultimately show ?thesis using Cons q(3,4) st' by auto
  qed
qed

lemma dispatch_inv:
  assumes "ts_inv st" and "curthread st = None" and "curspl st > 0" and "dispatch st = Some st'"
  shows "ts_inv st'"
  using dispatch_spec[OF assms(1-3)] assms(1,4) by (cases "queue_elems (runqueue st)") auto

section \<open>Wakeup\<close>

definition sleeps_on :: "tsys \<Rightarrow> addr \<Rightarrow> tid \<Rightarrow> bool" where
  "sleeps_on st a t \<longleftrightarrow> (\<exists>thr. threads st t = Some thr \<and> t_sleepaddr thr = Some a)"

text \<open>
  The loop of \<^verbatim>\<open>thread_wakeup\<close>, entered behind the sleepers \<open>xs\<close>: those of the rest \<open>ys\<close> that sleep on
  the address move to the run queue in their order, the others stay in theirs.
\<close>

lemma wakeup_from_spec:
  assumes "array_wf (sleepers st)" and "queue_wf (runqueue st)" and "words_of_size km" and "curspl st > 0"
    and "array_elems (sleepers st) = xs @ ys" and "set ys \<subseteq> dom (threads st)"
  shows "case wakeup_from km a (int (length xs)) st of
      None \<Rightarrow> q_size (runqueue st) \<le> queue_count (runqueue st) + int (length (filter (sleeps_on st a) ys))
    | Some st' \<Rightarrow> \<exists>s q. st' = st\<lparr>sleepers := s, runqueue := q\<rparr> \<and> array_wf s \<and> queue_wf q \<and>
        array_elems s = xs @ filter (\<lambda>t. \<not> sleeps_on st a t) ys \<and>
        queue_elems q = queue_elems (runqueue st) @ filter (sleeps_on st a) ys \<and>
        a_max s = a_max (sleepers st) \<and> q_size (runqueue st) \<le> q_size q"
  using assms
proof (induction ys arbitrary: xs st)
  case Nil
  then have "\<not> int (length xs) < array_getnum (sleepers st)" by (simp add: arr.getnum_law)
  moreover have "st = st\<lparr>sleepers := sleepers st, runqueue := runqueue st\<rparr>" by simp
  ultimately show ?case using Nil by (subst wakeup_from.simps) force
next
  case (Cons t ys)
  let ?i = "int (length xs)"
  have i: "?i < array_getnum (sleepers st)" "array_getguy (sleepers st) ?i = Some t"
    using Cons.prems by (simp_all add: arr.getnum_law arr.getguy_law)
  obtain thr where thr: "threads st t = Some thr" using Cons.prems(6) by auto
  show ?case
  proof (cases "t_sleepaddr thr = Some a")
    case False
    then have "wakeup_from km a ?i st = wakeup_from km a (int (length (xs @ [t]))) st"
      using i thr by (simp add: wakeup_from.simps[of km a ?i] add.commute)
    moreover have "\<not> sleeps_on st a t" using False thr by (simp add: sleeps_on_def)
    ultimately show ?thesis using Cons.IH[of st "xs @ [t]"] Cons.prems by (simp split: option.splits)
  next
    case True
    then have on: "sleeps_on st a t" using thr by (simp add: sleeps_on_def)
    obtain s where s: "array_remove (sleepers st) ?i = Some s" "array_wf s" "array_elems s = xs @ ys"
        "a_max s = a_max (sleepers st)"
      using array_remove_spec[OF Cons.prems(1), of ?i] i(1) Cons.prems(5) by (auto simp: array_getnum_def)
    let ?st = "st\<lparr>sleepers := s\<rparr>"
    have wf: "queue_wf (runqueue ?st)" "curspl ?st > 0" using Cons.prems by simp_all
    show ?thesis using wf(1) Cons.prems(3) wf(2)
    proof (cases rule: make_runnable_cases[where t = t])
      case full
      then have "wakeup_from km a ?i st = None"
        using i thr True s(1) by (simp add: wakeup_from.simps[of km a ?i])
      with full on show ?thesis by simp
    next
      case (added q)
      let ?st' = "st\<lparr>sleepers := s, runqueue := q\<rparr>"
      have step: "wakeup_from km a ?i st = wakeup_from km a ?i ?st'"
        using i thr True s(1) added by (simp add: wakeup_from.simps[of km a ?i])
      have on': "sleeps_on ?st' a = sleeps_on st a" by (simp add: sleeps_on_def fun_eq_iff)
      have count: "queue_count q = queue_count (runqueue st) + 1"
        using added length_queue_elems[OF added(2)] length_queue_elems[OF Cons.prems(2)] by simp
      have "case wakeup_from km a ?i ?st' of
          None \<Rightarrow> q_size (runqueue ?st') \<le> queue_count (runqueue ?st') + int (length (filter (sleeps_on ?st' a) ys))
        | Some st' \<Rightarrow> \<exists>s' q'. st' = ?st'\<lparr>sleepers := s', runqueue := q'\<rparr> \<and> array_wf s' \<and> queue_wf q' \<and>
            array_elems s' = xs @ filter (\<lambda>t. \<not> sleeps_on ?st' a t) ys \<and>
            queue_elems q' = queue_elems (runqueue ?st') @ filter (sleeps_on ?st' a) ys \<and>
            a_max s' = a_max (sleepers ?st') \<and> q_size (runqueue ?st') \<le> q_size q'"
        using Cons.prems s added by (intro Cons.IH) auto
      then show ?thesis unfolding on' step using on s added count
        by (cases "wakeup_from km a ?i ?st'") (simp, fastforce)
    qed
  qed
qed

lemma thread_wakeup_cases:
  assumes inv: "ts_inv st" and km: "words_of_size km" and spl: "curspl st > 0"
  obtains (full) "thread_wakeup km a st = None"
      "q_size (runqueue st) \<le> queue_count (runqueue st) +
         int (length (filter (sleeps_on st a) (array_elems (sleepers st))))"
  | (woken) s q where "thread_wakeup km a st = Some (st\<lparr>sleepers := s, runqueue := q\<rparr>)"
      "ts_inv (st\<lparr>sleepers := s, runqueue := q\<rparr>)"
      "array_elems s = filter (\<lambda>t. \<not> sleeps_on st a t) (array_elems (sleepers st))"
      "queue_elems q = queue_elems (runqueue st) @ filter (sleeps_on st a) (array_elems (sleepers st))"
proof -
  have core: "ts_core st" using inv by (simp add: ts_inv_def)
  have dom: "set (array_elems (sleepers st)) \<subseteq> dom (threads st)"
    using core by (auto simp: ts_core_def owned_def live_def)
  have *: "thread_wakeup km a st = wakeup_from km a (int (length ([] :: tid list))) st"
    using spl by (simp add: thread_wakeup_def)
  note w = wakeup_from_spec[OF ts_core_wf(1,3)[OF core] km spl _ dom, of "[]" a, folded *]
  show ?thesis
  proof (cases "thread_wakeup km a st")
    case None
    with w full show ?thesis by simp
  next
    case (Some st')
    with w obtain s q where sq: "st' = st\<lparr>sleepers := s, runqueue := q\<rparr>" "array_wf s" "queue_wf q"
        "array_elems s = filter (\<lambda>t. \<not> sleeps_on st a t) (array_elems (sleepers st))"
        "queue_elems q = queue_elems (runqueue st) @ filter (sleeps_on st a) (array_elems (sleepers st))"
        "a_max s = a_max (sleepers st)" "q_size (runqueue st) \<le> q_size q"
      by auto
    let ?st = "st\<lparr>sleepers := s, runqueue := q\<rparr>"
    have perm: "mset (live ?st) = mset (live st)"
      using sq by (simp add: live_def running_def)
    then have "mset (owned ?st) = mset (owned st)" by (simp add: owned_def)
    then have "ts_core ?st"
      using sq core by (intro ts_core_move[OF core]) (auto simp: ts_core_def ts_wf_def ts_contents_def)
    then have "ts_inv ?st"
      using inv mset_eq_length[OF perm] sq by (simp add: ts_inv_def ts_room_def)
    with woken Some sq show ?thesis by simp
  qed
qed

section \<open>Forking\<close>

text \<open>States that differ only in the capacity of the lists.\<close>

definition same_lists :: "tsys \<Rightarrow> tsys \<Rightarrow> bool" where
  "same_lists st st' \<longleftrightarrow> ts_wf st' \<and> curthread st' = curthread st \<and> numthreads st' = numthreads st \<and>
     array_elems (sleepers st') = array_elems (sleepers st) \<and>
     array_elems (zombies st') = array_elems (zombies st) \<and>
     queue_elems (runqueue st') = queue_elems (runqueue st) \<and>
     a_max (sleepers st) \<le> a_max (sleepers st') \<and> q_size (runqueue st) \<le> q_size (runqueue st')"

lemma same_lists_inv: "ts_inv st \<Longrightarrow> same_lists st st' \<Longrightarrow> threads st' = threads st \<Longrightarrow> ts_inv st'"
  by (auto simp: same_lists_def ts_inv_def ts_core_def ts_contents_def ts_room_def owned_def live_def running_def)

lemma fork_fail_spec:
  assumes "threads st new = Some thr"
  shows "\<exists>st'. fork_fail s new st = Some st' \<and> curthread st' = curthread st \<and> numthreads st' = numthreads st \<and>
    sleepers st' = sleepers st \<and> zombies st' = zombies st \<and> runqueue st' = runqueue st \<and>
    threads st' = (threads st)(new := None) \<and> curspl st' = s \<and>
    vn_refs st' = (case t_cwd thr of None \<Rightarrow> vn_refs st | Some v \<Rightarrow> (vn_refs st)(v := vn_refs st v - 1))"
  using assms by (simp add: fork_fail_def splx_def vop_decref_def split: option.splits)

lemma write_magic_ok: "4 \<le> length s \<Longrightarrow> \<exists>s'. write_magic s = Some s' \<and> stack_magic (Some s')"
  by (auto simp: numeral_eq_Suc Suc_le_length_iff write_magic_def stack_magic_def)

definition fork_memory_ok :: "fork_memory \<Rightarrow> tsys \<Rightarrow> bool" where
  "fork_memory_ok mem st \<longleftrightarrow> (\<forall>t. fm_thread mem = Some t \<longrightarrow> threads st t = None) \<and>
     (\<forall>s. fm_stack mem = Some s \<longrightarrow> length s = 4096) \<and>
     words_of_size (fm_sleepers mem) \<and> words_of_size (fm_zombies mem) \<and>
     words_of_size (fm_prealloc mem) \<and> words_of_size (fm_runnable mem)"

text \<open>The state in which the new thread is set up and interrupts are off.\<close>

definition fork_thread :: "string \<Rightarrow> 8 word list \<Rightarrow> thread \<Rightarrow> thread" where
  "fork_thread name stk me = \<lparr>t_pcb = Start, t_name = name, t_sleepaddr = None, t_stack = Some stk,
     t_vmspace = None, t_cwd = t_cwd me\<rparr>"

definition fork_refs :: "thread \<Rightarrow> (nat \<Rightarrow> int) \<Rightarrow> nat \<Rightarrow> int" where
  "fork_refs me r = (case t_cwd me of None \<Rightarrow> r | Some v \<Rightarrow> r(v := r v + 1))"

lemma thread_fork_lists:
  assumes "fm_thread mem = Some new" and "fm_name mem" and "fm_stack mem = Some s0"
    and "write_magic s0 = Some stk" and "curthread st = Some cur" and "threads st cur = Some me" and "new \<noteq> cur"
  shows "thread_fork mem name st = fork_lists mem new
    (st\<lparr>threads := (threads st)(new \<mapsto> fork_thread name stk me), vn_refs := fork_refs me (vn_refs st)\<rparr>)"
  using assms
  by (cases "t_cwd me"; cases st)
    (simp_all add: thread_fork_def thread_create_def set_thread_def vop_incref_def fork_thread_def
      fork_refs_def)

lemma prealloc_cases:
  assumes "array_wf a" and "words_of_size km" and "n \<le> 536870911"
  obtains (fail) "array_preallocate km a n = Some (ENOMEM, a)"
  | (ok) a' where "array_preallocate km a n = Some (OK, a')" "array_wf a'"
      "array_elems a' = array_elems a" "a_max a \<le> a_max a'" "n \<le> a_max a'"
  using array_preallocate_spec[OF assms] by blast

lemma scheduler_preallocate_cases:
  assumes "queue_wf (runqueue st)" and "words_of_size km" and "n < 536870912" and "curspl st > 0"
  obtains (fail) "scheduler_preallocate km n st = Some (ENOMEM, st)"
  | (ok) q where "scheduler_preallocate km n st = Some (OK, st\<lparr>runqueue := q\<rparr>)" "queue_wf q"
      "queue_elems q = queue_elems (runqueue st)" "n \<le> q_size q" "q_size (runqueue st) \<le> q_size q"
  using q_preallocate_spec[OF assms(1-3)] assms(4) by (auto simp: scheduler_preallocate_def)

text \<open>
  The lists are grown first and the thread is added last, so a failure leaves them with the threads
  they had.
\<close>

lemma fork_lists_spec:
  assumes wf: "ts_wf st" and n: "0 \<le> numthreads st" "numthreads st < 134217728"
    and mem: "fork_memory_ok mem st0" and thr: "threads st new = Some thr"
  shows "(\<exists>st2 st'. fork_lists mem new st = Some (ENOMEM, None, st') \<and> same_lists st st2 \<and>
      threads st2 = threads st \<and> vn_refs st2 = vn_refs st \<and> fork_fail (curspl st) new st2 = Some st') \<or>
    (\<exists>st2 q. fork_lists mem new st = Some (OK, Some new,
        snd (splx (curspl st) (st2\<lparr>runqueue := q, numthreads := numthreads st + 1\<rparr>))) \<and>
      same_lists st st2 \<and> threads st2 = threads st \<and> vn_refs st2 = vn_refs st \<and> queue_wf q \<and>
      queue_elems q = queue_elems (runqueue st) @ [new] \<and>
      numthreads st + 1 \<le> a_max (sleepers st2) \<and> numthreads st + 1 \<le> q_size q)"
    (is "?failed \<or> ?forked")
proof -
  define s4 where "s4 = snd (splhigh st)"
  have s4: "splhigh st = (curspl st, s4)" "curspl s4 > 0" "numthreads s4 = numthreads st"
      "sleepers s4 = sleepers st" "zombies s4 = zombies st" "runqueue s4 = runqueue st"
      "threads s4 = threads st" "vn_refs s4 = vn_refs st" "curthread s4 = curthread st"
    by (simp_all add: s4_def splhigh_def splx_def)
  have le: "numthreads st + 1 \<le> 536870911" "numthreads st + 1 < 536870912" using n by simp_all
  have w: "array_wf (sleepers st)" "array_wf (zombies st)" "queue_wf (runqueue st)"
    using wf by (simp_all add: ts_wf_def)
  have m: "words_of_size (fm_sleepers mem)" "words_of_size (fm_zombies mem)"
      "words_of_size (fm_prealloc mem)" "words_of_size (fm_runnable mem)"
    using mem by (simp_all add: fork_memory_ok_def)
  have failed: ?failed
    if "fork_lists mem new st = do { st' \<leftarrow> fork_fail (curspl st) new s; Some (ENOMEM, None, st') }"
      "same_lists st s" "threads s = threads st" "vn_refs s = vn_refs st" for s
    using that fork_fail_spec[of s new thr "curspl st"] thr by fastforce
  show ?thesis using w(1) m(1) le(1)
  proof (cases rule: prealloc_cases)
    case fail
    then have ?failed using s4 wf by (intro failed[of "s4\<lparr>sleepers := sleepers st\<rparr>"]) (simp_all add: fork_lists_def same_lists_def ts_wf_def)
    then show ?thesis ..
  next
    case sl: (ok sl)
    let ?s5 = "s4\<lparr>sleepers := sl\<rparr>"
    show ?thesis using w(2) m(2) le(1)
    proof (cases rule: prealloc_cases)
      case fail
      then have ?failed using s4 wf sl
        by (intro failed[of "?s5\<lparr>zombies := zombies st\<rparr>"]) (simp_all add: fork_lists_def same_lists_def ts_wf_def)
      then show ?thesis ..
    next
      case zs: (ok zs)
      let ?s6 = "?s5\<lparr>zombies := zs\<rparr>"
      have pre: "queue_wf (runqueue ?s6)" "curspl ?s6 > 0" using w s4 by simp_all
      show ?thesis using pre(1) m(3) le(2) pre(2)
      proof (cases rule: scheduler_preallocate_cases)
        case fail
        then have ?failed using s4 wf sl zs
          by (intro failed[of ?s6]) (simp_all add: fork_lists_def same_lists_def ts_wf_def)
        then show ?thesis ..
      next
        case q: (ok q)
        let ?s7 = "?s6\<lparr>runqueue := q\<rparr>"
        have lists: "same_lists st ?s7" "threads ?s7 = threads st" "vn_refs ?s7 = vn_refs st"
          using s4 wf sl zs q by (simp_all add: same_lists_def ts_wf_def)
        have pre: "queue_wf (runqueue ?s7)" "curspl ?s7 > 0" using s4 q by simp_all
        show ?thesis using pre(1) m(4) pre(2)
        proof (cases rule: make_runnable_cases[where t = new])
          case full
          then have ?failed using s4 lists sl zs q by (intro failed[of ?s7]) (simp_all add: fork_lists_def)
          then show ?thesis ..
        next
          case (added q')
          then have "fork_lists mem new st = Some (OK, Some new,
              snd (splx (curspl st) (?s7\<lparr>runqueue := q', numthreads := numthreads st + 1\<rparr>)))"
            using s4 sl zs q by (simp add: fork_lists_def splx_def)
          then have ?forked using lists added sl q s4 by (intro exI[of _ ?s7] exI[of _ q']) simp
          then show ?thesis ..
        qed
      qed
    qed
  qed
qed

lemma fork_fail_restores:
  assumes inv: "ts_inv st" and fresh: "threads st new = None"
    and st1: "st1 = st\<lparr>threads := (threads st)(new \<mapsto> fork_thread name stk me), vn_refs := fork_refs me (vn_refs st)\<rparr>"
    and st2: "same_lists st1 st2" "threads st2 = threads st1" "vn_refs st2 = vn_refs st1"
      "fork_fail (curspl st1) new st2 = Some st'"
  shows "ts_inv st' \<and> same_lists st st' \<and> threads st' = threads st \<and> vn_refs st' = vn_refs st \<and> curspl st' = curspl st"
proof -
  have th: "threads st2 new = Some (fork_thread name stk me)" using st2(2) st1 by simp
  from fork_fail_spec[OF th, of "curspl st1"] st2(4) have st': "curthread st' = curthread st2"
      "numthreads st' = numthreads st2" "sleepers st' = sleepers st2" "zombies st' = zombies st2"
      "runqueue st' = runqueue st2" "threads st' = (threads st2)(new := None)" "curspl st' = curspl st1"
      "vn_refs st' = (case t_cwd me of None \<Rightarrow> vn_refs st2 | Some v \<Rightarrow> (vn_refs st2)(v := vn_refs st2 v - 1))"
    by (simp_all add: fork_thread_def)
  have "same_lists st st'" using st2(1) st' st1 by (simp add: same_lists_def ts_wf_def)
  moreover have threads: "threads st' = threads st" using st'(6) st2(2) st1 fresh by (simp add: fun_upd_idem)
  moreover have "vn_refs st' = vn_refs st"
    using st'(8) st2(3) st1 by (simp add: fork_refs_def split: option.splits)
  ultimately show ?thesis using same_lists_inv[OF inv] st'(7) st1 by simp
qed

lemma add_thread_inv:
  assumes inv: "ts_inv st" and fresh: "threads st new = None"
    and lists: "ts_wf st'" "curthread st' = curthread st"
      "array_elems (sleepers st') = array_elems (sleepers st)"
      "array_elems (zombies st') = array_elems (zombies st)"
      "queue_elems (runqueue st') = queue_elems (runqueue st) @ [new]"
    and threads: "threads st' = (threads st)(new \<mapsto> thr)" "stack_magic (t_stack thr)"
    and n: "numthreads st' = numthreads st + 1" "numthreads st + 1 \<le> a_max (sleepers st')"
      "numthreads st + 1 \<le> q_size (runqueue st')"
  shows "ts_inv st'"
proof -
  have run: "running st' = running st" using lists(2) by (simp add: running_def)
  have live: "mset (live st') = mset (new # live st)" "mset (owned st') = mset (new # owned st)"
    using lists by (simp_all add: live_def owned_def run)
  have new: "new \<notin> set (owned st)" using inv fresh by (auto simp: ts_inv_def ts_core_def)
  have "distinct (owned st')" using mset_eq_imp_distinct_iff[OF live(2)] new inv
    by (simp add: ts_inv_def ts_core_def)
  moreover have "set (owned st') = dom (threads st')" using mset_eq_setD[OF live(2)] inv threads(1)
    by (simp add: ts_inv_def ts_core_def)
  moreover have "ts_contents st'" unfolding ts_contents_def threads(1) lists
    using inv new threads(2) by (auto simp: ts_inv_def ts_core_def ts_contents_def owned_def live_def)
  moreover have "ts_room st'" using n by (simp add: ts_room_def)
  ultimately show ?thesis
    using mset_eq_length[OF live(1)] lists(1) inv n(1) by (simp add: ts_inv_def ts_core_def)
qed

lemma thread_fork_spec:
  assumes inv: "ts_inv st" and mem: "fork_memory_ok mem st" and cur: "curthread st = Some cur"
    and me: "threads st cur = Some me"
  shows "(\<exists>st'. thread_fork mem name st = Some (ENOMEM, None, st') \<and> ts_inv st' \<and> same_lists st st' \<and>
      threads st' = threads st \<and> vn_refs st' = vn_refs st \<and> curspl st' = curspl st) \<or>
    (\<exists>new stk st'. thread_fork mem name st = Some (OK, Some new, st') \<and> ts_inv st' \<and> threads st new = None \<and>
      threads st' = (threads st)(new \<mapsto> fork_thread name stk me) \<and>
      vn_refs st' = fork_refs me (vn_refs st) \<and> curspl st' = curspl st \<and> curthread st' = Some cur \<and>
      numthreads st' = numthreads st + 1 \<and> array_elems (sleepers st') = array_elems (sleepers st) \<and>
      queue_elems (runqueue st') = queue_elems (runqueue st) @ [new])"
    (is "?failed \<or> ?forked")
proof (cases "fm_thread mem = None \<or> \<not> fm_name mem \<or> fm_stack mem = None")
  case True
  have id: "(threads st)(new := None) = threads st" if "fm_thread mem = Some new" for new
    using mem that by (simp add: fork_memory_ok_def fun_upd_idem)
  have "same_lists st st" using inv by (simp add: same_lists_def ts_inv_def ts_core_def)
  moreover have "thread_fork mem name st = Some (ENOMEM, None, st)"
    using True id by (auto simp: thread_fork_def thread_create_def split: option.splits)
  ultimately show ?thesis using inv by simp
next
  case False
  then obtain new s0 where m: "fm_thread mem = Some new" "fm_name mem" "fm_stack mem = Some s0" by auto
  then have fresh: "threads st new = None" and "length s0 = 4096" using mem by (auto simp: fork_memory_ok_def)
  then obtain stk where stk: "write_magic s0 = Some stk" "stack_magic (Some stk)" using write_magic_ok[of s0] by auto
  have "new \<noteq> cur" using fresh me by auto
  define st1 where "st1 = st\<lparr>threads := (threads st)(new \<mapsto> fork_thread name stk me), vn_refs := fork_refs me (vn_refs st)\<rparr>"
  have fork: "thread_fork mem name st = fork_lists mem new st1"
    unfolding st1_def by (rule thread_fork_lists[OF m stk(1) cur me \<open>new \<noteq> cur\<close>])
  have wf: "ts_wf st1" "0 \<le> numthreads st1" "numthreads st1 < 134217728"
    using inv by (auto simp: st1_def ts_inv_def ts_core_def ts_wf_def ts_room_def queue_wf_def)
  have "threads st1 new = Some (fork_thread name stk me)" by (simp add: st1_def)
  from fork_lists_spec[OF wf mem this] show ?thesis
  proof (elim disjE exE conjE)
    fix st2 st'
    assume run: "fork_lists mem new st1 = Some (ENOMEM, None, st')" and st2: "same_lists st1 st2"
      "threads st2 = threads st1" "vn_refs st2 = vn_refs st1" "fork_fail (curspl st1) new st2 = Some st'"
    from fork_fail_restores[OF inv fresh st1_def st2] have ?failed
      by (intro exI[of _ st']) (simp add: fork run)
    then show ?thesis ..
  next
    fix st2 q
    let ?st = "snd (splx (curspl st1) (st2\<lparr>runqueue := q, numthreads := numthreads st1 + 1\<rparr>))"
    assume run: "fork_lists mem new st1 = Some (OK, Some new, ?st)"
      and st2: "same_lists st1 st2" "threads st2 = threads st1" "vn_refs st2 = vn_refs st1" and q: "queue_wf q"
      "queue_elems q = queue_elems (runqueue st1) @ [new]" "numthreads st1 + 1 \<le> a_max (sleepers st2)"
      "numthreads st1 + 1 \<le> q_size q"
    have lists: "curthread ?st = Some cur" "array_elems (sleepers ?st) = array_elems (sleepers st)"
        "array_elems (zombies ?st) = array_elems (zombies st)" "ts_wf ?st"
      using st2(1) q(1) cur by (simp_all add: same_lists_def st1_def ts_wf_def)
    moreover have more: "queue_elems (runqueue ?st) = queue_elems (runqueue st) @ [new]" "numthreads ?st = numthreads st + 1"
        "threads ?st = (threads st)(new \<mapsto> fork_thread name stk me)"
      using st2(2) q(2) by (simp_all add: st1_def)
    moreover have "ts_inv ?st"
    proof (rule add_thread_inv[OF inv fresh])
      show "curthread ?st = curthread st" using lists cur by simp
      show "numthreads st + 1 \<le> a_max (sleepers ?st)" "numthreads st + 1 \<le> q_size (runqueue ?st)"
        using q(3,4) by (simp_all add: st1_def)
      show "stack_magic (t_stack (fork_thread name stk me))" using stk(2) by (simp add: fork_thread_def)
    qed (use lists more in simp_all)
    moreover have "vn_refs ?st = fork_refs me (vn_refs st)" "curspl ?st = curspl st"
      using st2 by (simp_all add: st1_def)
    ultimately have ?forked using fork run fresh
      by (intro exI[of _ new] exI[of _ stk] exI[of _ ?st]) simp
    then show ?thesis ..
  qed
qed

section \<open>Runs of the thread system\<close>

text \<open>
  The steps of the system, each with whatever memory \<^verbatim>\<open>kmalloc\<close> gives: what the current thread or an
  interrupt handler calls, the scheduler taking the next thread while there is no current one, and
  the current thread's changes of its interrupt level, its address space and its directory.
\<close>

inductive ts_step :: "tsys \<Rightarrow> tsys \<Rightarrow> bool" where
  fork: "fork_memory_ok mem st \<Longrightarrow> curthread st \<noteq> None \<Longrightarrow>
    thread_fork mem name st = Some (r, new, st') \<Longrightarrow> ts_step st st'"
| yield: "words_of_size km \<Longrightarrow> thread_yield km st = Some st' \<Longrightarrow> ts_step st st'"
| sleep: "words_of_size km \<Longrightarrow> thread_sleep km a st = Some st' \<Longrightarrow> ts_step st st'"
| exit: "words_of_size km \<Longrightarrow> thread_exit km st = Some st' \<Longrightarrow> ts_step st st'"
| wakeup: "words_of_size km \<Longrightarrow> thread_wakeup km a st = Some st' \<Longrightarrow> ts_step st st'"
| dispatch: "curthread st = None \<Longrightarrow> dispatch st = Some st' \<Longrightarrow> ts_step st st'"
| spl: "curthread st \<noteq> None \<Longrightarrow> ts_step st (snd (splx s st))"
| interrupt: "ts_step st (st\<lparr>in_interrupt := n\<rparr>)"
| own: "curthread st = Some t \<Longrightarrow>
    ts_step st (set_thread t (\<lambda>thr. thr\<lparr>t_vmspace := a, t_cwd := c\<rparr>) (st\<lparr>vn_refs := refs\<rparr>))"

definition boot :: "tsys \<Rightarrow> tsys \<Rightarrow> bool" where
  "boot st0 st \<longleftrightarrow> threads st0 = Map.empty \<and>
     (\<exists>mem km m1 m2 new dup. words_of_size km \<and>
        Option.bind (scheduler_bootstrap mem km st0) (thread_bootstrap m1 m2 new dup) = Some st)"

inductive reachable :: "tsys \<Rightarrow> bool" where
  boot: "boot st0 st \<Longrightarrow> reachable st"
| step: "reachable st \<Longrightarrow> ts_step st st' \<Longrightarrow> reachable st'"

lemma boot_inv:
  assumes "boot st0 st"
  shows "ts_inv st"
proof -
  obtain mem km m1 m2 new dup where km: "words_of_size km" and th: "threads st0 = Map.empty"
    and run: "Option.bind (scheduler_bootstrap mem km st0) (thread_bootstrap m1 m2 new dup) = Some st"
    using assms unfolding boot_def by blast
  from run obtain d where d: "km 128 = Some d"
    and st1: "thread_bootstrap m1 m2 new dup
      (st0\<lparr>runqueue := \<lparr>q_size = 32, q_nextwrite = 0, q_nextread = 0, q_data = d\<rparr>\<rparr>) = Some st"
    by (auto simp: scheduler_bootstrap_def q_create_def kernel_ops split: if_splits option.splits)
  let ?a = "\<lparr>a_num = 0, a_max = 0, a_v = None\<rparr> :: tid array" and ?q = "\<lparr>q_size = 32, q_nextwrite = 0, q_nextread = 0, q_data = d\<rparr>"
  from st1 obtain t where st: "st = st0\<lparr>runqueue := ?q, sleepers := ?a, zombies := ?a, threads := [t \<mapsto> \<lparr>t_pcb = Start, t_name = ''<boot/menu>'', t_sleepaddr = None,
        t_stack = None, t_vmspace = None, t_cwd = None\<rparr>], curthread := Some t, numthreads := 1\<rparr>"
    using th by (auto simp: thread_bootstrap_def thread_create_def array_create_def kernel_ops
        split: if_splits option.splits)
  have "queue_wf ?q" using words_of_sizeD[OF km d] by (simp add: queue_wf_def)
  moreover have "array_elems ?a = []" "queue_elems ?q = []" "array_wf ?a"
    by (simp_all add: array_elems_def queue_elems_def queue_count_def array_wf_def)
  ultimately show ?thesis unfolding st
    by (simp add: ts_inv_def ts_core_def ts_wf_def ts_contents_def ts_room_def owned_def live_def running_def
        stack_magic_def)
qed

lemma ts_step_inv: "ts_step st st' \<Longrightarrow> ts_inv st \<Longrightarrow> ts_inv st'"
proof (induction rule: ts_step.induct)
  case (fork mem st name r new st')
  then obtain cur where cur: "curthread st = Some cur" by auto
  then obtain me where "threads st cur = Some me"
    using ts_core_dom[OF ts_inv_core[OF fork.prems] current_owned] by blast
  with thread_fork_spec[OF fork.prems fork.hyps(1) cur, of me name] fork.hyps(3) show ?case by auto
next
  case (wakeup km a st st')
  then have "curspl st > 0" by (simp add: thread_wakeup_def kernel_ops)
  with wakeup show ?case by (auto elim: thread_wakeup_cases[where a = a])
next
  case (dispatch st st')
  then have "curspl st > 0" by (auto simp: dispatch_def scheduler_def kernel_ops)
  with dispatch show ?case by (auto intro: dispatch_inv)
next
  case (interrupt st n)
  then show ?case
    by (simp add: ts_inv_def ts_core_def ts_wf_def ts_contents_def ts_room_def owned_def live_def running_def)
next
  case (own st t a c refs)
  have "ts_inv (st\<lparr>vn_refs := refs\<rparr>)" using own.prems
    by (simp add: ts_inv_def ts_core_def ts_wf_def ts_contents_def ts_room_def owned_def live_def running_def)
  then show ?case using own.hyps
    by (auto simp: ts_inv_def ts_room_def intro!: set_current_core)
qed (auto intro: thread_yield_inv thread_sleep_inv thread_exit_inv simp: splx_inv)

lemma reachable_inv: "reachable st \<Longrightarrow> ts_inv st"
  by (induction rule: reachable.induct) (auto intro: boot_inv ts_step_inv)

inductive_cases reachableE: "reachable st"

section \<open>Progress\<close>

lemma thread_sleep_room:
  assumes inv: "ts_inv st" and cur: "curthread st = Some t" and many: "1 < numthreads st"
    and ctx: "in_interrupt st = 0" "0 < curspl st"
  shows "\<exists>s. thread_sleep km a st = Some (set_thread t (\<lambda>t. t\<lparr>t_sleepaddr := Some a, t_pcb := Slept\<rparr>) st
      \<lparr>curthread := None, sleepers := s\<rparr>) \<and> array_wf s \<and> array_elems s = array_elems (sleepers st) @ [t]"
proof -
  let ?f = "\<lambda>t. t\<lparr>t_sleepaddr := Some a, t_pcb := Slept\<rparr>"
  have core: "ts_core st" using inv by (simp add: ts_inv_def)
  obtain thr where thr: "threads st t = Some thr" "stack_magic (t_stack thr)"
    using ts_core_dom[OF core current_owned[OF cur]] core by (auto simp: ts_core_def ts_contents_def)
  have "int (length (array_elems (sleepers st))) < numthreads st" "numthreads st \<le> a_max (sleepers st)"
    using inv cur many by (auto simp: ts_inv_def ts_room_def live_def running_def max_def split: if_splits)
  then have "a_num (sleepers st) < a_max (sleepers st)"
    using length_array_elems[OF ts_core_wf(1)[OF core]] by simp
  from array_add_room[OF ts_core_wf(1)[OF core] this, of km t] obtain s where
      s: "array_add km (sleepers st) t = Some (OK, s)" "array_wf s" "array_elems s = array_elems (sleepers st) @ [t]"
    by blast
  have "mi_switch_out km S_SLEEP (set_thread t ?f st) =
      Some (True, (set_thread t ?f st)\<lparr>curthread := None, sleepers := s\<rparr>)"
    using cur ctx s(1) thr by (simp add: mi_switch_out_def threads_set_thread)
  with cur ctx s show ?thesis by (intro exI[of _ s]) (simp add: thread_sleep_def)
qed

text \<open>One turn: the current thread yields and the scheduler picks the next.\<close>

definition yield_turn :: "tid kmalloc_words \<Rightarrow> tsys \<Rightarrow> tsys option" where
  "yield_turn km st = do { st1 \<leftarrow> thread_yield km st; dispatch st1 }"

primrec yield_turns :: "tid kmalloc_words \<Rightarrow> nat \<Rightarrow> tsys \<Rightarrow> tsys option" where
  "yield_turns km 0 st = Some st"
| "yield_turns km (Suc n) st = do { st1 \<leftarrow> yield_turn km st; yield_turns km n st1 }"

lemma thread_yield_room:
  assumes inv: "ts_inv st" and cur: "curthread st = Some t"
    and room: "queue_count (runqueue st) < q_size (runqueue st) - 1"
  shows "\<exists>st'. thread_yield km st = Some st' \<and> curthread st' = None \<and> curspl st' = 15 \<and>
    queue_elems (runqueue st') = queue_elems (runqueue st) @ [t] \<and> q_size (runqueue st') = q_size (runqueue st) \<and>
    queue_count (runqueue st') = queue_count (runqueue st) + 1"
proof -
  have core: "ts_core st" using inv by (simp add: ts_inv_def)
  obtain thr where thr: "threads st t = Some thr" "stack_magic (t_stack thr)"
    using ts_core_dom[OF core current_owned[OF cur]] core by (auto simp: ts_core_def ts_contents_def)
  let ?st = "set_thread t (\<lambda>t. t\<lparr>t_pcb := Yielded (curspl st)\<rparr>) (snd (splx 15 st))"
  let ?st1 = "?st\<lparr>curthread := None\<rparr>"
  have pre: "queue_wf (runqueue ?st1)" "curspl ?st1 > 0"
      "queue_count (runqueue ?st1) < q_size (runqueue ?st1) - 1"
    using ts_core_wf(3)[OF core] room by simp_all
  obtain q where q: "make_runnable km t ?st1 = Some (OK, ?st1\<lparr>runqueue := q\<rparr>)"
      "queue_elems q = queue_elems (runqueue st) @ [t]" "queue_count q = queue_count (runqueue st) + 1"
      "q_size q = q_size (runqueue st)"
    using make_runnable_room[OF pre, of km t] by auto
  have "mi_switch_out km S_READY ?st = Some (True, ?st1\<lparr>runqueue := q\<rparr>)"
    using cur thr q(1) by (simp add: mi_switch_out_def threads_set_thread)
  moreover have "splhigh st = (curspl st, snd (splx 15 st))" by (simp add: splhigh_def splx_def)
  ultimately have "thread_yield km st = Some (?st1\<lparr>runqueue := q\<rparr>)"
    using cur by (simp add: thread_yield_def)
  then show ?thesis using q by simp
qed

lemma yield_turn_rotates:
  assumes inv: "ts_inv st" and km: "words_of_size km" and cur: "curthread st = Some t"
    and room: "queue_count (runqueue st) < q_size (runqueue st) - 1"
  shows "\<exists>st'. yield_turn km st = Some st' \<and> ts_inv st' \<and> q_size (runqueue st') = q_size (runqueue st) \<and>
    queue_count (runqueue st') = queue_count (runqueue st) \<and>
    running st' @ queue_elems (runqueue st') = rotate1 (running st @ queue_elems (runqueue st))"
proof -
  obtain st1 where st1: "thread_yield km st = Some st1" "curthread st1 = None" "curspl st1 = 15"
      "queue_elems (runqueue st1) = queue_elems (runqueue st) @ [t]"
      "q_size (runqueue st1) = q_size (runqueue st)"
    using thread_yield_room[OF inv cur room] by blast
  have inv1: "ts_inv st1" by (rule thread_yield_inv[OF inv km st1(1)])
  obtain u us where u: "queue_elems (runqueue st) @ [t] = u # us" by (cases "queue_elems (runqueue st)") auto
  obtain st2 where st2: "dispatch st1 = Some st2" "ts_inv st2" "curthread st2 = Some u"
      "queue_elems (runqueue st2) = us" "q_size (runqueue st2) = q_size (runqueue st1)"
    using dispatch_spec[OF inv1 st1(2)] st1(3,4) u by auto
  have "queue_wf (runqueue st2)" "queue_wf (runqueue st)"
    using st2(2) inv by (auto simp: ts_inv_def ts_core_wf)
  moreover have "length us = length (queue_elems (runqueue st))" using arg_cong[OF u, of length] by simp
  ultimately have "queue_count (runqueue st2) = queue_count (runqueue st)"
    using st2(4) by (metis length_queue_elems)
  moreover have "running st2 @ queue_elems (runqueue st2) = rotate1 (running st @ queue_elems (runqueue st))"
    using st2(3,4) cur u by (simp add: running_def)
  ultimately show ?thesis using st1 st2 by (simp add: yield_turn_def)
qed

lemma yield_turns_rotate:
  assumes "ts_inv st" and "words_of_size km" and "curthread st \<noteq> None"
    and "queue_count (runqueue st) < q_size (runqueue st) - 1"
  shows "\<exists>st'. yield_turns km n st = Some st' \<and> ts_inv st' \<and>
    running st' @ queue_elems (runqueue st') = rotate n (running st @ queue_elems (runqueue st))"
  using assms
proof (induction n arbitrary: st)
  case (Suc n)
  then obtain t where cur: "curthread st = Some t" by auto
  obtain st1 where st1: "yield_turn km st = Some st1" "ts_inv st1" "q_size (runqueue st1) = q_size (runqueue st)"
      "queue_count (runqueue st1) = queue_count (runqueue st)"
      "running st1 @ queue_elems (runqueue st1) = rotate1 (running st @ queue_elems (runqueue st))"
    using yield_turn_rotates[OF Suc.prems(1,2) cur Suc.prems(4)] by blast
  have "length (running st1 @ queue_elems (runqueue st1)) = length (running st @ queue_elems (runqueue st))"
    by (simp add: st1(5))
  moreover have "length (queue_elems (runqueue st1)) = length (queue_elems (runqueue st))"
    using st1(2,4) Suc.prems(1) length_queue_elems[of "runqueue st1"] length_queue_elems[of "runqueue st"]
    by (simp add: ts_inv_def ts_core_wf)
  ultimately have "curthread st1 \<noteq> None" using cur by (auto simp: running_def split: option.splits)
  then obtain st2 where "yield_turns km n st1 = Some st2" "ts_inv st2"
      "running st2 @ queue_elems (runqueue st2) = rotate n (running st1 @ queue_elems (runqueue st1))"
    using Suc.IH[OF st1(2) Suc.prems(2)] Suc.prems(4) st1(3,4) by auto
  with st1 show ?case by (simp add: rotate1_rotate_swap)
qed simp

section \<open>Properties\<close>

text \<open>
  C1. In every reachable state each allocated thread structure is in exactly one place (current,
  sleeping, runnable or zombie), \<^verbatim>\<open>numthreads\<close> is the number of those that are not zombies, and no
  stack has lost its magic number: no run of forks, yields, sleeps, wakeups, exits, dispatches and
  interrupts, with or without memory, loses a thread, queues one twice or leaks one.
\<close>

theorem threads_in_one_place:
  assumes "reachable st"
  shows "distinct (owned st) \<and> set (owned st) = dom (threads st) \<and> numthreads st = int (length (live st)) \<and>
    (\<forall>t thr. threads st t = Some thr \<longrightarrow> stack_magic (t_stack thr))"
  using reachable_inv[OF assms] by (simp add: ts_inv_def ts_core_def ts_contents_def)

definition boot_state :: tsys where
  "boot_state = \<lparr>curthread = Some 1, sleepers = \<lparr>a_num = 0, a_max = 0, a_v = None\<rparr>,
     zombies = \<lparr>a_num = 0, a_max = 0, a_v = None\<rparr>, numthreads = 1,
     runqueue = \<lparr>q_size = 32, q_nextwrite = 0, q_nextread = 0, q_data = replicate 32 0\<rparr>,
     curspl = 15, int_enabled = False, in_interrupt = 0,
     threads = [1 \<mapsto> \<lparr>t_pcb = Start, t_name = ''<boot/menu>'', t_sleepaddr = None, t_stack = None,
       t_vmspace = None, t_cwd = None\<rparr>],
     vn_refs = (\<lambda>_. 0)\<rparr>"

lemma boot_state_reachable: "reachable boot_state"
proof -
  let ?km = "\<lambda>n. if n = 128 then Some (replicate 32 (0 :: nat)) else None"
  let ?st0 = "boot_state\<lparr>threads := Map.empty, curthread := None\<rparr>"
  have "words_of_size ?km" by (simp add: words_of_size_def)
  moreover have "Option.bind (scheduler_bootstrap True ?km ?st0) (thread_bootstrap True True (Some 1) True) = Some boot_state"
    by (simp add: scheduler_bootstrap_def thread_bootstrap_def thread_create_def array_create_def q_create_def
        boot_state_def)
  ultimately have "boot ?st0 boot_state" unfolding boot_def by (auto intro!: exI)
  then show ?thesis by (rule reachable.boot)
qed

theorem threads_in_one_place_witness:
  "distinct (owned boot_state) \<and> owned boot_state = [1] \<and> numthreads boot_state = 1"
  using threads_in_one_place[OF boot_state_reachable]
  by (simp add: boot_state_def owned_def live_def running_def array_elems_def queue_elems_def queue_count_def)



text \<open>
  A state for the examples: thread 1 runs, 2 and 3 sleep on the addresses 100 and 200, 4 is runnable.
\<close>

definition demo_thread :: "pcb \<Rightarrow> addr option \<Rightarrow> thread" where
  "demo_thread p a = \<lparr>t_pcb = p, t_name = ''t'', t_sleepaddr = a, t_stack = None, t_vmspace = None, t_cwd = None\<rparr>"

definition demo_state :: tsys where
  "demo_state = \<lparr>curthread = Some 1, sleepers = \<lparr>a_num = 2, a_max = 6, a_v = Some [2, 3, 0, 0, 0, 0]\<rparr>,
     zombies = \<lparr>a_num = 0, a_max = 6, a_v = Some [0, 0, 0, 0, 0, 0]\<rparr>, numthreads = 4,
     runqueue = \<lparr>q_size = 8, q_nextwrite = 1, q_nextread = 0, q_data = [4, 0, 0, 0, 0, 0, 0, 0]\<rparr>,
     curspl = 15, int_enabled = False, in_interrupt = 0,
     threads = [1 \<mapsto> demo_thread Start None, 2 \<mapsto> demo_thread Slept (Some 100),
       3 \<mapsto> demo_thread Slept (Some 200), 4 \<mapsto> demo_thread (Yielded 0) None],
     vn_refs = (\<lambda>_. 0)\<rparr>"

lemma demo_state_lists:
  "array_elems (sleepers demo_state) = [2, 3]" "queue_elems (runqueue demo_state) = [4]"
  "array_elems (zombies demo_state) = []" "queue_count (runqueue demo_state) = 1"
  by (simp_all add: demo_state_def array_elems_def queue_elems_def queue_count_def numeral_2_eq_2)

lemma demo_state_inv: "ts_inv demo_state"
proof -
  have "ts_wf demo_state" by (simp add: ts_wf_def demo_state_def array_wf_def queue_wf_def)
  moreover have "owned demo_state = [1, 2, 3, 4]" "live demo_state = [1, 2, 3, 4]"
    by (simp_all add: owned_def live_def running_def demo_state_lists) (simp_all add: demo_state_def)
  moreover have "dom (threads demo_state) = {1, 2, 3, 4}" by (auto simp: demo_state_def split: if_splits)
  moreover have "ts_contents demo_state" unfolding ts_contents_def demo_state_lists
    by (auto simp: demo_state_def demo_thread_def stack_magic_def)
  moreover have "ts_room demo_state" "numthreads demo_state = 4" by (simp_all add: ts_room_def demo_state_def)
  ultimately show ?thesis by (simp add: ts_inv_def ts_core_def)
qed

text \<open>
  C5. \<^verbatim>\<open>thread_wakeup\<close> wakes exactly the sleepers of its address: they go to the tail of the run queue
  in the order in which they went to sleep, and the other sleepers stay in theirs, although the loop
  removes elements from the array it walks. It stops the kernel only if the ring of the run
  queue is too small for them and there is no memory to grow it.
\<close>

theorem thread_wakeup_correct:
  assumes "ts_inv st" and "words_of_size km" and "0 < curspl st"
  shows "(thread_wakeup km a st = None \<and>
      q_size (runqueue st) \<le> queue_count (runqueue st) + int (length (filter (sleeps_on st a) (array_elems (sleepers st))))) \<or>
    (\<exists>st'. thread_wakeup km a st = Some st' \<and> ts_inv st' \<and> threads st' = threads st \<and>
      curthread st' = curthread st \<and>
      array_elems (sleepers st') = filter (\<lambda>t. \<not> sleeps_on st a t) (array_elems (sleepers st)) \<and>
      queue_elems (runqueue st') = queue_elems (runqueue st) @ filter (sleeps_on st a) (array_elems (sleepers st)))"
  using assms by (cases rule: thread_wakeup_cases[where a = a]) auto

theorem thread_wakeup_correct_witness:
  "\<exists>st'. thread_wakeup (\<lambda>_. None) 100 demo_state = Some st' \<and> array_elems (sleepers st') = [3] \<and>
     queue_elems (runqueue st') = [4, 2]"
proof -
  have km: "words_of_size (\<lambda>_. None :: tid list option)" by (simp add: words_of_size_def)
  have on: "sleeps_on demo_state 100 2" "\<not> sleeps_on demo_state 100 3"
    by (simp_all add: sleeps_on_def demo_state_def demo_thread_def)
  have "0 < curspl demo_state" "q_size (runqueue demo_state) = 8" by (simp_all add: demo_state_def)
  with thread_wakeup_correct[OF demo_state_inv km, of 100] on show ?thesis
    by (auto simp: demo_state_lists)
qed

text \<open>
  C7. Going to sleep never needs memory once a thread has been forked: whatever \<^verbatim>\<open>kmalloc\<close> returns,
  \<^verbatim>\<open>thread_sleep\<close> puts the current thread at the end of the sleepers with its address, and no assertion
  fails. This is what the preallocation of the sleepers in \<^verbatim>\<open>thread_fork\<close> is for.
\<close>

theorem thread_sleep_never_stops:
  assumes "ts_inv st" and "curthread st = Some t" and "1 < numthreads st" and "in_interrupt st = 0" and "0 < curspl st"
  shows "\<exists>st'. thread_sleep km a st = Some st' \<and> array_elems (sleepers st') = array_elems (sleepers st) @ [t] \<and>
    sleeps_on st' a t \<and> curthread st' = None"
proof -
  have "\<exists>thr. threads st t = Some thr"
    using ts_core_dom[OF ts_inv_core[OF assms(1)] current_owned[OF assms(2)]] .
  with thread_sleep_room[OF assms, of km a] show ?thesis
    by (auto simp: sleeps_on_def set_thread_def)
qed

theorem thread_sleep_never_stops_witness:
  "\<exists>st'. thread_sleep (\<lambda>_. None) 300 demo_state = Some st' \<and> array_elems (sleepers st') = [2, 3, 1]"
  using thread_sleep_never_stops[OF demo_state_inv, of 1 "\<lambda>_. None" 300]
  by (simp add: demo_state_lists) (auto simp: demo_state_def)



text \<open>
  C11. The preallocation of the run queue is one short: with as many threads as the ring has cells, all
  of them runnable, \<^verbatim>\<open>thread_yield\<close> has to grow the ring, and without memory the kernel stops at the
  assertion in \<^verbatim>\<open>mi_switch\<close>. \<^verbatim>\<open>thread_fork\<close> allows that number, since \<^verbatim>\<open>q_preallocate(q, n)\<close> makes a
  ring of \<open>n\<close> cells, which holds \<open>n - 1\<close> threads.
\<close>

theorem thread_yield_may_stop:
  assumes "ts_inv st" and "curthread st = Some t" and "numthreads st = q_size (runqueue st)"
    and "array_elems (sleepers st) = []"
  shows "thread_yield (\<lambda>_. None) st = None"
proof -
  let ?q = "runqueue st"
  have wf: "queue_wf ?q" using assms(1) by (simp add: ts_inv_def ts_core_wf)
  have "queue_count ?q = q_size ?q - 1"
    using assms length_queue_elems[OF wf] by (simp add: ts_inv_def live_def running_def)
  then have full: "(q_nextwrite ?q + 1) mod q_size ?q = q_nextread ?q" using queue_full_iff[OF wf] by simp
  have size: "0 < q_size ?q" "s32 (q_size ?q + 1) = q_size ?q + 1" using wf by (simp_all add: queue_wf_def)
  then obtain n where "q_newsize (q_size ?q + 1) (q_size ?q) = Some n"
    using q_newsize_doubles[of "q_size ?q" "q_size ?q + 1"] wf by (auto simp: queue_wf_def)
  then have "q_addtail (\<lambda>_. None) ?q t = Some (ENOMEM, ?q)"
    using full size by (simp add: q_addtail_def numeral_2_eq_2 q_grow_with_def)
  then show ?thesis
    using assms(2) by (auto simp: thread_yield_def splhigh_def splx_def mi_switch_out_def make_runnable_def kassert_def
        split: option.splits)
qed

definition crowded_state :: tsys where
  "crowded_state = \<lparr>curthread = Some 1, sleepers = \<lparr>a_num = 0, a_max = 2, a_v = Some [0, 0]\<rparr>,
     zombies = \<lparr>a_num = 0, a_max = 2, a_v = Some [0, 0]\<rparr>, numthreads = 2,
     runqueue = \<lparr>q_size = 2, q_nextwrite = 1, q_nextread = 0, q_data = [2, 0]\<rparr>,
     curspl = 15, int_enabled = False, in_interrupt = 0,
     threads = [1 \<mapsto> demo_thread Start None, 2 \<mapsto> demo_thread Start None], vn_refs = (\<lambda>_. 0)\<rparr>"

theorem thread_yield_may_stop_witness: "ts_inv crowded_state \<and> thread_yield (\<lambda>_. None) crowded_state = None"
proof -
  have lists: "array_elems (sleepers crowded_state) = []" "queue_elems (runqueue crowded_state) = [2]"
      "array_elems (zombies crowded_state) = []"
    by (simp_all add: crowded_state_def array_elems_def queue_elems_def queue_count_def)
  have "ts_wf crowded_state" by (simp add: ts_wf_def crowded_state_def array_wf_def queue_wf_def)
  moreover have "owned crowded_state = [1, 2]" "live crowded_state = [1, 2]"
    by (simp_all add: owned_def live_def running_def lists) (simp_all add: crowded_state_def)
  moreover have "dom (threads crowded_state) = {1, 2}" by (auto simp: crowded_state_def split: if_splits)
  moreover have "ts_contents crowded_state" unfolding ts_contents_def lists
    by (auto simp: crowded_state_def demo_thread_def stack_magic_def)
  moreover have "ts_room crowded_state" "numthreads crowded_state = 2" by (simp_all add: ts_room_def crowded_state_def)
  ultimately have inv: "ts_inv crowded_state" by (simp add: ts_inv_def ts_core_def)
  with thread_yield_may_stop[OF inv, of 1] lists(1) show ?thesis by (simp add: crowded_state_def)
qed

end
