(* ===== verification/Synch.thy ===== *)
theory Synch
  imports Thread_System
begin

text \<open>
  Semaphores, locks and condition variables (\<^verbatim>\<open>kern/thread/synch.c\<close>), and the clock's use of sleep and
  wakeup (\<^verbatim>\<open>kern/thread/hardclock.c\<close>).

  \<open>sem_count\<close> holds the count of every semaphore that exists, by address. \<^verbatim>\<open>P\<close> may give up the
  processor in the middle of its loop: \<open>in_P\<close> then records, for the thread, the semaphore and the
  interrupt level that \<^verbatim>\<open>P\<close> saved, and the loop continues when the thread is dispatched. Everything
  between two context switches runs with interrupts off. Locks and condition variables are empty
  functions in the code: they neither block nor change anything.
\<close>

section \<open>Model\<close>

record synch =
  ts :: tsys
  sem_count :: "addr \<Rightarrow> int option"
  in_P :: "tid \<Rightarrow> (addr \<times> int) option"
  lbolt_counter :: int

text \<open>\<open>mem\<close> is the address \<^verbatim>\<open>kmalloc\<close> returns, \<open>dup\<close> whether there is memory for the name.\<close>

definition sem_create :: "addr option \<Rightarrow> bool \<Rightarrow> int \<Rightarrow> synch \<Rightarrow> (addr option \<times> synch) option" where
  "sem_create mem dup initial_count ss = do {
     kassert (initial_count \<ge> 0);
     (case mem of
        None \<Rightarrow> Some (None, ss)
      | Some sem \<Rightarrow>
          if \<not> dup then Some (None, ss)
          else Some (Some sem, ss\<lparr>sem_count := (sem_count ss)(sem \<mapsto> initial_count)\<rparr>))
   }"

definition sem_destroy :: "addr \<Rightarrow> synch \<Rightarrow> synch option" where
  "sem_destroy sem ss = do {
     let (spl, ts1) = splhigh (ts ss);
     has \<leftarrow> thread_hassleepers sem ts1;
     kassert (\<not> has);
     let (_, ts2) = splx spl ts1;
     Some (ss\<lparr>ts := ts2, sem_count := (sem_count ss)(sem := None)\<rparr>)
   }"

text \<open>One round of the loop in \<^verbatim>\<open>P\<close>, and what follows it when the count is not 0.\<close>

definition P_loop :: "tid kmalloc_words \<Rightarrow> int \<Rightarrow> addr \<Rightarrow> synch \<Rightarrow> synch option" where
  "P_loop km spl sem ss = do {
     count \<leftarrow> sem_count ss sem;
     cur \<leftarrow> curthread (ts ss);
     (if count = 0 then do {
        ts' \<leftarrow> thread_sleep km sem (ts ss);
        Some (ss\<lparr>ts := ts', in_P := (in_P ss)(cur \<mapsto> (sem, spl))\<rparr>)
      }
      else do {
        kassert (count > 0);
        Some (ss\<lparr>ts := snd (splx spl (ts ss)), sem_count := (sem_count ss)(sem \<mapsto> count - 1),
                 in_P := (in_P ss)(cur := None)\<rparr>)
      })
   }"

definition sem_P :: "tid kmalloc_words \<Rightarrow> addr \<Rightarrow> synch \<Rightarrow> synch option" where
  "sem_P km sem ss = do {
     kassert (in_interrupt (ts ss) = 0);
     let (spl, ts1) = splhigh (ts ss);
     P_loop km spl sem (ss\<lparr>ts := ts1\<rparr>)
   }"

definition sem_V :: "tid kmalloc_words \<Rightarrow> addr \<Rightarrow> synch \<Rightarrow> synch option" where
  "sem_V km sem ss = do {
     let (spl, ts1) = splhigh (ts ss);
     count \<leftarrow> sem_count ss sem;
     kassert (s32 (count + 1) > 0);
     ts2 \<leftarrow> thread_wakeup km sem ts1;
     let (_, ts3) = splx spl ts2;
     Some (ss\<lparr>ts := ts3, sem_count := (sem_count ss)(sem \<mapsto> s32 (count + 1))\<rparr>)
   }"

text \<open>The scheduler takes the next thread, which continues in \<^verbatim>\<open>P\<close> if that is where it slept.\<close>

definition sync_dispatch :: "tid kmalloc_words \<Rightarrow> synch \<Rightarrow> synch option" where
  "sync_dispatch km ss = do {
     ts' \<leftarrow> dispatch (ts ss);
     (case curthread ts' of
        None \<Rightarrow> Some (ss\<lparr>ts := ts'\<rparr>)
      | Some t \<Rightarrow>
         (case in_P ss t of
            None \<Rightarrow> Some (ss\<lparr>ts := ts'\<rparr>)
          | Some (sem, spl) \<Rightarrow> P_loop km spl sem (ss\<lparr>ts := ts'\<rparr>)))
   }"

subsection \<open>Locks and condition variables\<close>

definition lock_create :: "addr option \<Rightarrow> bool \<Rightarrow> addr option" where
  "lock_create mem dup = (case mem of None \<Rightarrow> None | Some l \<Rightarrow> if dup then Some l else None)"

definition lock_acquire :: "addr \<Rightarrow> synch \<Rightarrow> synch" where
  "lock_acquire lock ss = ss"

definition lock_release :: "addr \<Rightarrow> synch \<Rightarrow> synch" where
  "lock_release lock ss = ss"

definition lock_do_i_hold :: "addr \<Rightarrow> synch \<Rightarrow> int" where
  "lock_do_i_hold lock ss = 1"

definition cv_create :: "addr option \<Rightarrow> bool \<Rightarrow> addr option" where
  "cv_create mem dup = (case mem of None \<Rightarrow> None | Some c \<Rightarrow> if dup then Some c else None)"

definition cv_wait :: "addr \<Rightarrow> addr \<Rightarrow> synch \<Rightarrow> synch" where
  "cv_wait cv lock ss = ss"

definition cv_signal :: "addr \<Rightarrow> addr \<Rightarrow> synch \<Rightarrow> synch" where
  "cv_signal cv lock ss = ss"

definition cv_broadcast :: "addr \<Rightarrow> addr \<Rightarrow> synch \<Rightarrow> synch" where
  "cv_broadcast cv lock ss = ss"

subsection \<open>The clock\<close>

text \<open>\<open>lbolt\<close> is the address of the variable; \<^verbatim>\<open>HZ\<close> is 100.\<close>

definition hardclock :: "tid kmalloc_words \<Rightarrow> addr \<Rightarrow> synch \<Rightarrow> synch option" where
  "hardclock km lbolt ss = do {
     let n = s32 (lbolt_counter ss + 1);
     ss1 \<leftarrow> (if n \<ge> 100 then do {
               ts1 \<leftarrow> thread_wakeup km lbolt (ts ss);
               Some (ss\<lparr>lbolt_counter := 0, ts := ts1\<rparr>)
             } else Some (ss\<lparr>lbolt_counter := n\<rparr>));
     ts2 \<leftarrow> thread_yield km (ts ss1);
     Some (ss1\<lparr>ts := ts2\<rparr>)
   }"

section \<open>The contract of sleep and wakeup\<close>

definition waiting :: "tsys \<Rightarrow> addr \<Rightarrow> tid set" where
  "waiting st a = {t \<in> set (array_elems (sleepers st)). sleeps_on st a t}"

text \<open>
  No lost wakeup: a thread waits for a semaphore only while its count is 0. The count is a C
  \<^verbatim>\<open>int\<close> that is not negative.
\<close>

definition no_lost_wakeup :: "(addr \<Rightarrow> int option) \<Rightarrow> (addr \<Rightarrow> tid set) \<Rightarrow> bool" where
  "no_lost_wakeup cnt w \<longleftrightarrow> (\<forall>sem c. cnt sem = Some c \<longrightarrow>
     0 \<le> c \<and> c < 2147483648 \<and> (w sem \<noteq> {} \<longrightarrow> c = 0))"

lemma no_lost_wakeupD:
  assumes "no_lost_wakeup cnt w" and "cnt sem = Some c"
  shows "0 \<le> c" and "c < 2147483648" and "w sem \<noteq> {} \<Longrightarrow> c = 0"
  using assms unfolding no_lost_wakeup_def by blast+

locale sleep_channel =
  fixes ok :: "'s \<Rightarrow> bool"
    and waits :: "'s \<Rightarrow> addr \<Rightarrow> tid set"
    and memok :: "'m \<Rightarrow> bool"
    and sleep :: "'m \<Rightarrow> addr \<Rightarrow> 's \<Rightarrow> 's option"
    and wakeup :: "'m \<Rightarrow> addr \<Rightarrow> 's \<Rightarrow> 's option"
  assumes sleep_law: "ok s \<Longrightarrow> memok m \<Longrightarrow> sleep m a s = Some s' \<Longrightarrow>
      ok s' \<and> (\<forall>b. b \<noteq> a \<longrightarrow> waits s' b = waits s b)"
    and wakeup_law: "ok s \<Longrightarrow> memok m \<Longrightarrow> wakeup m a s = Some s' \<Longrightarrow>
      ok s' \<and> waits s' a = {} \<and> (\<forall>b. b \<noteq> a \<longrightarrow> waits s' b = waits s b)"
begin

text \<open>The way \<^verbatim>\<open>V\<close> uses it: count up, then wake every waiter.\<close>

lemma up_then_wakeup:
  assumes "ok s" and "memok m" and "no_lost_wakeup cnt (waits s)" and "wakeup m sem s = Some s'"
    and "0 \<le> c" and "c < 2147483648"
  shows "ok s' \<and> no_lost_wakeup (cnt(sem \<mapsto> c)) (waits s')"
  using wakeup_law[OF assms(1,2,4)] assms(3,5,6) by (auto simp: no_lost_wakeup_def)

text \<open>The way \<^verbatim>\<open>P\<close> uses it: sleep only while the count is 0.\<close>

lemma sleep_at_zero:
  assumes "ok s" and "memok m" and "no_lost_wakeup cnt (waits s)" and "sleep m sem s = Some s'" and "cnt sem = Some 0"
  shows "ok s' \<and> no_lost_wakeup cnt (waits s')"
  using sleep_law[OF assms(1,2,4)] assms(3,5) unfolding no_lost_wakeup_def by (metis option.inject)

text \<open>Sleeping on anything that is not a semaphore does not matter.\<close>

lemma sleep_elsewhere:
  assumes "ok s" and "memok m" and "no_lost_wakeup cnt (waits s)" and "sleep m a s = Some s'" and "cnt a = None"
  shows "ok s' \<and> no_lost_wakeup cnt (waits s')"
  using sleep_law[OF assms(1,2,4)] assms(3,5) unfolding no_lost_wakeup_def by (metis option.distinct(1))

end

lemma no_lost_wakeup_down:
  assumes "no_lost_wakeup cnt w" and "cnt sem = Some c" and "c \<noteq> 0"
  shows "no_lost_wakeup (cnt(sem \<mapsto> c - 1)) w" and "0 < c"
proof -
  note c = no_lost_wakeupD[OF assms(1,2)]
  then show "0 < c" using assms(3) by simp
  then have "0 \<le> c - 1" "c - 1 < 2147483648" "w sem = {}" using c assms(3) by auto
  with assms(1) show "no_lost_wakeup (cnt(sem \<mapsto> c - 1)) w" by (auto simp: no_lost_wakeup_def)
qed

section \<open>How the thread operations change who waits\<close>

lemma waiting_cong:
  assumes "array_elems (sleepers st') = array_elems (sleepers st)"
    and "\<And>t. t \<in> set (array_elems (sleepers st)) \<Longrightarrow>
      map_option t_sleepaddr (threads st' t) = map_option t_sleepaddr (threads st t)"
  shows "waiting st' = waiting st"
proof -
  have "sleeps_on st' a t \<longleftrightarrow> sleeps_on st a t" if "t \<in> set (array_elems (sleepers st))" for a t
    using assms(2)[OF that] by (auto simp: sleeps_on_def map_option_case split: option.splits)
  then show ?thesis using assms(1) by (auto simp: waiting_def fun_eq_iff)
qed

text \<open>Nobody's waiting changes, and nobody leaves the run queue.\<close>

definition keeps_waiting :: "tsys \<Rightarrow> tsys \<Rightarrow> bool" where
  "keeps_waiting st st' \<longleftrightarrow> waiting st' = waiting st \<and>
     set (queue_elems (runqueue st)) \<subseteq> set (queue_elems (runqueue st'))"

lemma keeps_waiting_splx [simp]: "keeps_waiting st (snd (splx s st))"
  by (auto simp: keeps_waiting_def intro!: waiting_cong)

lemma waiting_splx [simp]: "waiting (snd (splx s st)) = waiting st"
  by (rule waiting_cong) simp_all

lemma keeps_waiting_yield:
  assumes inv: "ts_inv st" and km: "words_of_size km" and run: "thread_yield km st = Some st'"
  shows "keeps_waiting st st'"
proof (cases "curthread st")
  case None
  with run have "st' = snd (splx (curspl st) (snd (splx 15 st)))"
    by (auto simp: thread_yield_def mi_switch_out_def splhigh_def splx_def)
  then show ?thesis by (auto simp: keeps_waiting_def)
next
  case (Some cur)
  let ?st = "set_thread cur (\<lambda>t. t\<lparr>t_pcb := Yielded (curspl st)\<rparr>) (snd (splx 15 st))"
  have core: "ts_core ?st" using inv splx_core[of 15 st] Some
    by (auto simp: ts_inv_def intro!: set_current_core)
  from run Some obtain b x where out: "mi_switch_out km S_READY ?st = Some (b, x)"
    and st': "st' = (if b then x else snd (splx (curspl st) x))"
    unfolding thread_yield_def splhigh_def Let_def by (auto simp: kernel_ops case_prod_beta)
  have w: "waiting ?st = waiting st"
    by (rule waiting_cong) (auto simp: threads_set_thread option.map_comp comp_def)
  from core km out have "keeps_waiting ?st x"
  proof (cases rule: mi_switch_out_cases)
    case (ready c q)
    then show ?thesis by (auto simp: keeps_waiting_def intro!: waiting_cong)
  qed (use Some in auto)
  then show ?thesis using st' w by (auto simp: keeps_waiting_def)
qed

lemma keeps_waiting_exit:
  assumes inv: "ts_inv st" and km: "words_of_size km" and run: "thread_exit km st = Some st'"
  shows "keeps_waiting st st'"
proof -
  from run obtain cur thr where cur: "curthread st = Some cur" and thr: "threads st cur = Some thr"
    by (auto simp: thread_exit_def kernel_ops)
  define st1 where "st1 = set_thread cur (\<lambda>t. t\<lparr>t_vmspace := None\<rparr>) (snd (splhigh st))"
  define st2 where "st2 = (case t_cwd thr of None \<Rightarrow> st1
    | Some v \<Rightarrow> set_thread cur (\<lambda>t. t\<lparr>t_cwd := None\<rparr>) (vop_decref v st1))"
  let ?st = "st2\<lparr>numthreads := numthreads st2 - 1\<rparr>"
  from run cur thr obtain b where out: "mi_switch_out km S_ZOMB ?st = Some (b, st')"
    unfolding thread_exit_def Let_def st2_def st1_def by (auto simp: kernel_ops)
  have cur1: "curthread st1 = Some cur" using cur by (simp add: st1_def splhigh_def)
  have "ts_core st1"
    using inv cur splx_core[of 15 st] by (auto simp: st1_def splhigh_def ts_inv_def intro!: set_current_core)
  then have core: "ts_core ?st" using cur1 by (auto simp: st2_def split: option.splits intro!: set_current_core)
  have lists: "sleepers ?st = sleepers st" "runqueue ?st = runqueue st" "curthread ?st = Some cur"
    using cur1 by (simp_all add: st2_def st1_def splhigh_def split: option.splits)
  have "waiting ?st = waiting st"
    by (rule waiting_cong)
      (auto simp: lists st2_def st1_def splhigh_def threads_set_thread option.map_comp comp_def split: option.splits)
  moreover from core km out have "waiting st' = waiting ?st \<and> runqueue st' = runqueue ?st"
  proof (cases rule: mi_switch_out_cases)
    case (zombie c z)
    then show ?thesis by (auto intro!: waiting_cong)
  qed (use lists in auto)
  ultimately show ?thesis using lists by (simp add: keeps_waiting_def)
qed

lemma keeps_waiting_fork:
  assumes inv: "ts_inv st" and mem: "fork_memory_ok mem st" and cur: "curthread st \<noteq> None"
    and run: "thread_fork mem name st = Some (r, new, st')"
  shows "keeps_waiting st st'"
proof -
  obtain t where t: "curthread st = Some t" using cur by auto
  then obtain me where me: "threads st t = Some me"
    using ts_core_dom[OF ts_inv_core[OF inv] current_owned] by blast
  have dom: "\<And>u. u \<in> set (array_elems (sleepers st)) \<Longrightarrow> threads st u \<noteq> None"
    using inv by (auto simp: ts_inv_def ts_core_def owned_def live_def)
  from thread_fork_spec[OF inv mem t me, of name] run show ?thesis
  proof (elim disjE exE conjE)
    fix n stk s
    assume "thread_fork mem name st = Some (OK, Some n, s)" "threads st n = None"
      "threads s = (threads st)(n \<mapsto> fork_thread name stk me)"
      "array_elems (sleepers s) = array_elems (sleepers st)"
      "queue_elems (runqueue s) = queue_elems (runqueue st) @ [n]"
    with run dom show ?thesis by (fastforce simp: keeps_waiting_def intro!: waiting_cong)
  qed (auto simp: keeps_waiting_def same_lists_def intro!: waiting_cong)
qed

lemma waiting_sleep:
  assumes inv: "ts_inv st" and km: "words_of_size km" and run: "thread_sleep km a st = Some st'"
  shows "\<exists>cur. curthread st = Some cur \<and> runqueue st' = runqueue st \<and>
    waiting st' = (waiting st)(a := insert cur (waiting st a))"
proof -
  from run obtain cur b where cur: "curthread st = Some cur"
    and out: "mi_switch_out km S_SLEEP (set_thread cur (\<lambda>t. t\<lparr>t_sleepaddr := Some a, t_pcb := Slept\<rparr>) st) = Some (b, st')"
    by (auto simp: thread_sleep_def kernel_ops)
  let ?st = "set_thread cur (\<lambda>t. t\<lparr>t_sleepaddr := Some a, t_pcb := Slept\<rparr>) st"
  have core: "ts_core ?st" using cur inv by (auto simp: ts_inv_def intro!: set_current_core)
  obtain thr where thr: "threads st cur = Some thr"
    using ts_core_dom[OF ts_inv_core[OF inv] current_owned[OF cur]] by blast
  have apart: "cur \<notin> set (array_elems (sleepers st))" using current_apart[OF ts_inv_core[OF inv] cur] by simp
  from core km out show ?thesis
  proof (cases rule: mi_switch_out_cases)
    case (sleep c s)
    then have "waiting st' = (waiting st)(a := insert cur (waiting st a))"
      using cur thr apart by (auto simp: waiting_def sleeps_on_def threads_set_thread fun_eq_iff)
    with sleep cur show ?thesis by simp
  qed (use cur in auto)
qed

lemma waiting_wakeup:
  assumes inv: "ts_inv st" and km: "words_of_size km" and run: "thread_wakeup km a st = Some st'"
  shows "ts_inv st' \<and> waiting st' = (waiting st)(a := {}) \<and> curspl st' = curspl st \<and>
    set (queue_elems (runqueue st')) = set (queue_elems (runqueue st)) \<union> waiting st a"
proof -
  have spl: "0 < curspl st" using run by (simp add: thread_wakeup_def kernel_ops)
  from inv km spl show ?thesis
  proof (cases rule: thread_wakeup_cases[where a = a])
    case (woken s q)
    have eq: "st' = st\<lparr>sleepers := s, runqueue := q\<rparr>" using woken(1) run by simp
    have "sleeps_on st' = sleeps_on st" by (simp add: eq sleeps_on_def fun_eq_iff)
    then have "waiting st' = (waiting st)(a := {})"
      using woken(3) by (auto simp: eq waiting_def fun_eq_iff) (auto simp: sleeps_on_def)
    with woken eq show ?thesis by (auto simp: waiting_def)
  qed (use run in simp)
qed

interpretation sq: sleep_channel ts_inv waiting words_of_size thread_sleep thread_wakeup
proof
  fix s s' a and m :: "tid kmalloc_words"
  assume *: "ts_inv s" "words_of_size m"
  show "ts_inv s' \<and> (\<forall>b. b \<noteq> a \<longrightarrow> waiting s' b = waiting s b)" if "thread_sleep m a s = Some s'"
    using thread_sleep_inv[OF * that] waiting_sleep[OF * that] by auto
  show "ts_inv s' \<and> waiting s' a = {} \<and> (\<forall>b. b \<noteq> a \<longrightarrow> waiting s' b = waiting s b)"
    if "thread_wakeup m a s = Some s'"
    using waiting_wakeup[OF * that] by simp
qed

section \<open>Runs with semaphores\<close>

text \<open>
  An event tells what a step did to a semaphore: \<open>Down\<close> is a \<^verbatim>\<open>P\<close> that went through, at once or after
  having slept, \<open>Block\<close> a \<^verbatim>\<open>P\<close> that goes to sleep (again), \<open>Up\<close> a \<^verbatim>\<open>V\<close>.
\<close>

datatype sem_event = Create addr int | Destroy addr | Down addr | Block addr | Up addr | Tau

definition P_event :: "synch \<Rightarrow> addr \<Rightarrow> sem_event" where
  "P_event ss sem = (if sem_count ss sem = Some 0 then Block sem else Down sem)"

definition dispatch_event :: "synch \<Rightarrow> sem_event" where
  "dispatch_event ss =
     (case queue_elems (runqueue (ts ss)) of
        [] \<Rightarrow> Tau
      | t # _ \<Rightarrow> (case in_P ss t of None \<Rightarrow> Tau | Some (sem, _) \<Rightarrow> P_event ss sem))"

text \<open>
  A new semaphore is at an address nobody uses. Threads may also sleep and wake each other on
  addresses that are not semaphores.
\<close>

inductive sync_step :: "synch \<Rightarrow> sem_event \<Rightarrow> synch \<Rightarrow> bool" where
  create: "sem_count ss sem = None \<Longrightarrow> waiting (ts ss) sem = {} \<Longrightarrow> n < 2147483648 \<Longrightarrow>
    sem_create (Some sem) True n ss = Some (r, ss') \<Longrightarrow> sync_step ss (Create sem n) ss'"
| destroy: "sem_destroy sem ss = Some ss' \<Longrightarrow> sync_step ss (Destroy sem) ss'"
| P: "words_of_size km \<Longrightarrow> sem_P km sem ss = Some ss' \<Longrightarrow> sync_step ss (P_event ss sem) ss'"
| V: "words_of_size km \<Longrightarrow> sem_V km sem ss = Some ss' \<Longrightarrow> sync_step ss (Up sem) ss'"
| dispatch: "words_of_size km \<Longrightarrow> curthread (ts ss) = None \<Longrightarrow> sync_dispatch km ss = Some ss' \<Longrightarrow>
    sync_step ss (dispatch_event ss) ss'"
| clock: "words_of_size km \<Longrightarrow> sem_count ss lbolt = None \<Longrightarrow> hardclock km lbolt ss = Some ss' \<Longrightarrow>
    sync_step ss Tau ss'"
| yield: "words_of_size km \<Longrightarrow> thread_yield km (ts ss) = Some st \<Longrightarrow> sync_step ss Tau (ss\<lparr>ts := st\<rparr>)"
| exit: "words_of_size km \<Longrightarrow> thread_exit km (ts ss) = Some st \<Longrightarrow> sync_step ss Tau (ss\<lparr>ts := st\<rparr>)"
| fork: "fork_memory_ok mem (ts ss) \<Longrightarrow> curthread (ts ss) \<noteq> None \<Longrightarrow>
    thread_fork mem name (ts ss) = Some (r, new, st) \<Longrightarrow> sync_step ss Tau (ss\<lparr>ts := st\<rparr>)"
| sleep: "words_of_size km \<Longrightarrow> sem_count ss a = None \<Longrightarrow> thread_sleep km a (ts ss) = Some st \<Longrightarrow>
    sync_step ss Tau (ss\<lparr>ts := st\<rparr>)"
| wakeup: "words_of_size km \<Longrightarrow> sem_count ss a = None \<Longrightarrow> thread_wakeup km a (ts ss) = Some st \<Longrightarrow>
    sync_step ss Tau (ss\<lparr>ts := st\<rparr>)"
| spl: "curthread (ts ss) \<noteq> None \<Longrightarrow> sync_step ss Tau (ss\<lparr>ts := snd (splx s (ts ss))\<rparr>)"

inductive sync_run :: "synch \<Rightarrow> sem_event list \<Rightarrow> synch \<Rightarrow> bool" where
  refl: "sync_run ss [] ss"
| step: "sync_run ss evs ss' \<Longrightarrow> sync_step ss' ev ss'' \<Longrightarrow> sync_run ss (evs @ [ev]) ss''"

text \<open>
  The invariant: the one of the thread system, no lost wakeup, and a thread that is inside \<^verbatim>\<open>P\<close> either
  waits for that very semaphore or is runnable.
\<close>

definition P_threads_queued :: "synch \<Rightarrow> bool" where
  "P_threads_queued ss \<longleftrightarrow> (\<forall>t sem spl. in_P ss t = Some (sem, spl) \<longrightarrow>
     t \<in> waiting (ts ss) sem \<or> t \<in> set (queue_elems (runqueue (ts ss))))"

definition sync_inv :: "synch \<Rightarrow> bool" where
  "sync_inv ss \<longleftrightarrow> ts_inv (ts ss) \<and> no_lost_wakeup (sem_count ss) (waiting (ts ss)) \<and> P_threads_queued ss"

lemma sync_inv_keeps:
  assumes "sync_inv ss" and "keeps_waiting (ts ss) st" and "ts_inv st"
  shows "sync_inv (ss\<lparr>ts := st\<rparr>)"
  using assms by (auto simp: sync_inv_def keeps_waiting_def P_threads_queued_def)

lemma sync_inv_sleep:
  assumes inv: "sync_inv ss" and km: "words_of_size km" and run: "thread_sleep km a (ts ss) = Some st"
    and a: "sem_count ss a = None \<or> sem_count ss a = Some 0" and cur: "curthread (ts ss) = Some t"
  shows "sync_inv (ss\<lparr>ts := st\<rparr>)" and "t \<in> waiting st a"
proof -
  have inv': "ts_inv (ts ss)" "no_lost_wakeup (sem_count ss) (waiting (ts ss))" using inv by (auto simp: sync_inv_def)
  have w: "runqueue st = runqueue (ts ss)" "waiting st = (waiting (ts ss))(a := insert t (waiting (ts ss) a))"
    using waiting_sleep[OF inv'(1) km run] cur by auto
  have "ts_inv st \<and> no_lost_wakeup (sem_count ss) (waiting st)"
    using a sq.sleep_at_zero[OF inv'(1) km inv'(2) run] sq.sleep_elsewhere[OF inv'(1) km inv'(2) run] by blast
  with inv w show "sync_inv (ss\<lparr>ts := st\<rparr>)" "t \<in> waiting st a" by (auto simp: sync_inv_def P_threads_queued_def)
qed

lemma sync_inv_wakeup:
  assumes inv: "sync_inv ss" and km: "words_of_size km" and run: "thread_wakeup km a (ts ss) = Some st"
    and c: "0 \<le> c" "c < 2147483648"
  shows "sync_inv (ss\<lparr>ts := st, sem_count := (sem_count ss)(a \<mapsto> c)\<rparr>)"
    and "sync_inv (ss\<lparr>ts := st\<rparr>)"
proof -
  have inv': "ts_inv (ts ss)" "no_lost_wakeup (sem_count ss) (waiting (ts ss))" using inv by (auto simp: sync_inv_def)
  note w = waiting_wakeup[OF inv'(1) km run]
  have "no_lost_wakeup ((sem_count ss)(a \<mapsto> c)) (waiting st)" using sq.up_then_wakeup[OF inv'(1) km inv'(2) run c] by simp
  moreover have "no_lost_wakeup (sem_count ss) (waiting st)" using inv'(2) w by (auto simp: no_lost_wakeup_def)
  moreover have "P_threads_queued (ss\<lparr>ts := st\<rparr>)" using inv w by (auto simp: sync_inv_def P_threads_queued_def)
  ultimately show "sync_inv (ss\<lparr>ts := st, sem_count := (sem_count ss)(a \<mapsto> c)\<rparr>)" "sync_inv (ss\<lparr>ts := st\<rparr>)"
    using w by (auto simp: sync_inv_def P_threads_queued_def)
qed

lemma sync_inv_splx: "sync_inv (ss\<lparr>ts := snd (splx s (ts ss))\<rparr>) = sync_inv ss"
  by (simp add: sync_inv_def splx_inv P_threads_queued_def)

definition sem_down :: "addr \<Rightarrow> (addr \<Rightarrow> int option) \<Rightarrow> addr \<Rightarrow> int option" where
  "sem_down sem cnt = (case cnt sem of None \<Rightarrow> cnt | Some c \<Rightarrow> if c = 0 then cnt else cnt(sem \<mapsto> c - 1))"

lemma P_loop_inv:
  assumes inv: "sync_inv (ss\<lparr>in_P := (in_P ss)(t := None)\<rparr>)" and cur: "curthread (ts ss) = Some t"
    and km: "words_of_size km" and run: "P_loop km spl sem ss = Some ss'"
  shows "sync_inv ss'" and "sem_count ss' = sem_down sem (sem_count ss)" and "sem_count ss sem \<noteq> None"
proof -
  let ?ss = "ss\<lparr>in_P := (in_P ss)(t := None)\<rparr>"
  obtain c where c: "sem_count ss sem = Some c" using run by (auto simp: P_loop_def kernel_ops)
  then show "sem_count ss sem \<noteq> None" by simp
  have "sync_inv ss' \<and> sem_count ss' = sem_down sem (sem_count ss)"
  proof (cases "c = 0")
    case True
    obtain st where st: "thread_sleep km sem (ts ss) = Some st"
        and ss': "ss' = ss\<lparr>ts := st, in_P := (in_P ss)(t \<mapsto> (sem, spl))\<rparr>"
      using run c cur True by (auto simp: P_loop_def kernel_ops)
    have "sync_inv (?ss\<lparr>ts := st\<rparr>)" "t \<in> waiting st sem"
      using sync_inv_sleep[OF inv km, of sem st t] st cur c True by simp_all
    then have "sync_inv ss'" unfolding ss' by (auto simp: sync_inv_def P_threads_queued_def)
    then show ?thesis using ss' c True by (simp add: sem_down_def)
  next
    case False
    then have ss': "ss' = ss\<lparr>ts := snd (splx spl (ts ss)), sem_count := (sem_count ss)(sem \<mapsto> c - 1),
        in_P := (in_P ss)(t := None)\<rparr>"
      using run c cur by (auto simp: P_loop_def kernel_ops)
    have "sync_inv (?ss\<lparr>ts := snd (splx spl (ts ?ss))\<rparr>)" using inv by (simp only: sync_inv_splx)
    then have "sync_inv ss'" using no_lost_wakeup_down(1)[of "sem_count ss" _ sem c] c False
      by (auto simp: ss' sync_inv_def P_threads_queued_def)
    then show ?thesis using ss' c False by (simp add: sem_down_def)
  qed
  then show "sync_inv ss'" "sem_count ss' = sem_down sem (sem_count ss)" by simp_all
qed

lemma current_not_in_P: "sync_inv ss \<Longrightarrow> curthread (ts ss) = Some t \<Longrightarrow> in_P ss t = None"
  using current_apart[of "ts ss" t]
  by (cases "in_P ss t") (auto simp: sync_inv_def ts_inv_def P_threads_queued_def waiting_def)

lemma sem_P_inv:
  assumes inv: "sync_inv ss" and km: "words_of_size km" and run: "sem_P km sem ss = Some ss'"
  shows "sync_inv ss' \<and> sem_count ss' = sem_down sem (sem_count ss)"
proof -
  let ?ss = "ss\<lparr>ts := snd (splx 15 (ts ss))\<rparr>"
  have loop: "P_loop km (curspl (ts ss)) sem ?ss = Some ss'"
    using run by (auto simp: sem_P_def splhigh_def kernel_ops splx_def)
  then obtain t where t: "curthread (ts ?ss) = Some t" by (auto simp: P_loop_def kernel_ops)
  have "sync_inv ?ss" using inv by (simp only: sync_inv_splx)
  moreover from this have "?ss\<lparr>in_P := (in_P ?ss)(t := None)\<rparr> = ?ss"
    using current_not_in_P[OF _ t] by (simp add: fun_upd_idem)
  ultimately show ?thesis using P_loop_inv[OF _ t km loop] by simp
qed

lemma sync_dispatch_inv:
  assumes inv: "sync_inv ss" and km: "words_of_size km" and none: "curthread (ts ss) = None"
    and run: "sync_dispatch km ss = Some ss'"
  shows "sync_inv ss' \<and> sem_count ss' = (case dispatch_event ss of Down sem \<Rightarrow> sem_down sem (sem_count ss) | _ \<Rightarrow> sem_count ss)"
proof -
  have spl: "0 < curspl (ts ss)" using run by (auto simp: sync_dispatch_def dispatch_def scheduler_def kernel_ops)
  have inv': "ts_inv (ts ss)" using inv by (simp add: sync_inv_def)
  note d = dispatch_spec[OF inv' none spl]
  show ?thesis
  proof (cases "queue_elems (runqueue (ts ss))")
    case Nil
    then have "dispatch (ts ss) = Some (ts ss)" using d by simp
    then show ?thesis using inv run none Nil by (simp add: sync_dispatch_def dispatch_event_def)
  next
    case (Cons t us)
    then obtain st where st: "dispatch (ts ss) = Some st" "ts_inv st" "curthread st = Some t"
        "queue_elems (runqueue st) = us" "sleepers st = sleepers (ts ss)"
        "\<forall>u \<in> set (array_elems (sleepers (ts ss))). threads st u = threads (ts ss) u"
      using d by auto
    have w: "waiting st = waiting (ts ss)" using st(5,6) by (intro waiting_cong) auto
    let ?ss = "ss\<lparr>ts := st\<rparr>"
    have inv1: "sync_inv (?ss\<lparr>in_P := (in_P ?ss)(t := None)\<rparr>)"
      using inv st(2,4) w Cons by (auto simp: sync_inv_def P_threads_queued_def)
    show ?thesis
    proof (cases "in_P ss t")
      case None
      then have "(in_P ss)(t := None) = in_P ss" by (simp add: fun_upd_idem)
      then have "sync_inv ?ss" using inv1 by (simp add: sync_inv_def P_threads_queued_def)
      with None run st(1,3) Cons show ?thesis by (auto simp: sync_dispatch_def dispatch_event_def)
    next
      case (Some x)
      then obtain sem spl where x: "in_P ss t = Some (sem, spl)" by (cases x) auto
      then have "P_loop km spl sem ?ss = Some ss'" using run st(1,3) by (simp add: sync_dispatch_def)
      from P_loop_inv[OF inv1 _ km this] st(3) show ?thesis
        using x Cons by (auto simp: dispatch_event_def P_event_def sem_down_def)
    qed
  qed
qed

lemma sem_V_inv:
  assumes inv: "sync_inv ss" and km: "words_of_size km" and run: "sem_V km sem ss = Some ss'"
  shows "sync_inv ss'" and "\<exists>c. sem_count ss sem = Some c \<and> sem_count ss' = (sem_count ss)(sem \<mapsto> s32 (c + 1)) \<and> 0 < s32 (c + 1)"
proof -
  let ?ss = "ss\<lparr>ts := snd (splx 15 (ts ss))\<rparr>"
  obtain c st where c: "sem_count ss sem = Some c" "0 < s32 (c + 1)" and st: "thread_wakeup km sem (ts ?ss) = Some st"
    and ss': "ss' = ss\<lparr>ts := snd (splx (curspl (ts ss)) st), sem_count := (sem_count ss)(sem \<mapsto> s32 (c + 1))\<rparr>"
    using run by (auto simp: sem_V_def splhigh_def kernel_ops splx_def)
  have "sync_inv ?ss" using inv by (simp only: sync_inv_splx)
  from sync_inv_wakeup(1)[OF this km st, of "s32 (c + 1)"] c s32_upper[of "c + 1"]
  have "sync_inv (ss\<lparr>ts := st, sem_count := (sem_count ss)(sem \<mapsto> s32 (c + 1))\<rparr>)" by simp
  then show "sync_inv ss'" by (simp add: ss' sync_inv_def splx_inv P_threads_queued_def)
  show "\<exists>c. sem_count ss sem = Some c \<and> sem_count ss' = (sem_count ss)(sem \<mapsto> s32 (c + 1)) \<and> 0 < s32 (c + 1)"
    using c ss' by simp
qed

lemma sync_inv_yield:
  assumes "sync_inv ss" and "words_of_size km" and "thread_yield km (ts ss) = Some st"
  shows "sync_inv (ss\<lparr>ts := st\<rparr>)"
  using assms sync_inv_keeps[OF assms(1)] keeps_waiting_yield[of "ts ss" km st] thread_yield_inv[of "ts ss" km st]
  by (simp add: sync_inv_def)

lemma lbolt_sync_inv [simp]: "sync_inv (ss\<lparr>lbolt_counter := n\<rparr>) = sync_inv ss"
  by (simp add: sync_inv_def P_threads_queued_def)

lemma hardclock_inv:
  assumes inv: "sync_inv ss" and km: "words_of_size km" and run: "hardclock km lbolt ss = Some ss'"
  shows "sync_inv ss' \<and> sem_count ss' = sem_count ss"
proof (cases "s32 (lbolt_counter ss + 1) \<ge> 100")
  case True
  then obtain s st where s: "thread_wakeup km lbolt (ts ss) = Some s" and st: "thread_yield km s = Some st"
      and ss': "ss' = ss\<lparr>lbolt_counter := 0, ts := st\<rparr>"
    using run by (auto simp: hardclock_def kernel_ops)
  have "sync_inv (ss\<lparr>ts := s\<rparr>)" by (rule sync_inv_wakeup(2)[OF inv km s, of 0]) simp_all
  then have "sync_inv (ss\<lparr>lbolt_counter := 0, ts := s\<rparr>)" by (simp add: sync_inv_def P_threads_queued_def)
  from sync_inv_yield[OF this km, of st] st ss' show ?thesis by simp
next
  case False
  then obtain st where st: "thread_yield km (ts ss) = Some st"
      and ss': "ss' = ss\<lparr>lbolt_counter := s32 (lbolt_counter ss + 1), ts := st\<rparr>"
    using run by (auto simp: hardclock_def kernel_ops)
  have "sync_inv (ss\<lparr>lbolt_counter := s32 (lbolt_counter ss + 1)\<rparr>)" using inv by simp
  from sync_inv_yield[OF this km, of st] st ss' show ?thesis by simp
qed

lemma sem_create_inv:
  assumes inv: "sync_inv ss" and new: "waiting (ts ss) sem = {}" and n: "n < 2147483648"
    and run: "sem_create (Some sem) True n ss = Some (r, ss')"
  shows "sync_inv ss' \<and> sem_count ss' = (sem_count ss)(sem \<mapsto> n)"
proof -
  have "0 \<le> n" and ss': "ss' = ss\<lparr>sem_count := (sem_count ss)(sem \<mapsto> n)\<rparr>"
    using run by (auto simp: sem_create_def kernel_ops)
  moreover have "no_lost_wakeup ((sem_count ss)(sem \<mapsto> n)) (waiting (ts ss))"
    using inv new n \<open>0 \<le> n\<close> by (auto simp: sync_inv_def no_lost_wakeup_def)
  ultimately show ?thesis using inv by (simp add: sync_inv_def P_threads_queued_def)
qed

lemma sem_destroy_inv:
  assumes inv: "sync_inv ss" and run: "sem_destroy sem ss = Some ss'"
  shows "sync_inv ss' \<and> sem_count ss' = (sem_count ss)(sem := None)"
proof -
  have ss': "ss' = ss\<lparr>ts := snd (splx (curspl (ts ss)) (snd (splx 15 (ts ss)))), sem_count := (sem_count ss)(sem := None)\<rparr>"
    using run by (auto simp: sem_destroy_def splhigh_def kernel_ops splx_def)
  show ?thesis using inv
    by (auto simp: ss' sync_inv_def splx_inv no_lost_wakeup_def P_threads_queued_def)
qed

text \<open>What an event does to the counts.\<close>

definition event_count :: "sem_event \<Rightarrow> (addr \<Rightarrow> int option) \<Rightarrow> (addr \<Rightarrow> int option) \<Rightarrow> bool" where
  "event_count ev cnt cnt' \<longleftrightarrow> (case ev of
      Create sem n \<Rightarrow> cnt' = cnt(sem \<mapsto> n)
    | Destroy sem \<Rightarrow> cnt' = cnt(sem := None)
    | Down sem \<Rightarrow> (\<exists>c > 0. cnt sem = Some c \<and> cnt' = cnt(sem \<mapsto> c - 1))
    | Block sem \<Rightarrow> cnt sem = Some 0 \<and> cnt' = cnt
    | Up sem \<Rightarrow> (\<exists>c. cnt sem = Some c \<and> 0 \<le> c \<and> c < 2147483647 \<and> cnt' = cnt(sem \<mapsto> c + 1))
    | Tau \<Rightarrow> cnt' = cnt)"

lemma event_count_down:
  assumes "no_lost_wakeup (sem_count ss) w" and "sem_count ss sem \<noteq> None"
  shows "event_count (P_event ss sem) (sem_count ss) (sem_down sem (sem_count ss))"
proof -
  obtain c where c: "sem_count ss sem = Some c" using assms(2) by auto
  moreover have "0 \<le> c" using c assms(1) by (auto simp: no_lost_wakeup_def)
  ultimately show ?thesis by (auto simp: event_count_def P_event_def sem_down_def)
qed

lemma dispatch_event_count:
  assumes inv: "sync_inv ss" and none: "curthread (ts ss) = None" and run: "sync_dispatch km ss = Some ss'"
  shows "event_count (dispatch_event ss) (sem_count ss)
    (case dispatch_event ss of Down sem \<Rightarrow> sem_down sem (sem_count ss) | _ \<Rightarrow> sem_count ss)"
proof (cases "queue_elems (runqueue (ts ss))")
  case Nil
  then show ?thesis by (simp add: dispatch_event_def event_count_def)
next
  case (Cons t us)
  have spl: "0 < curspl (ts ss)" using run by (auto simp: sync_dispatch_def dispatch_def scheduler_def kernel_ops)
  obtain st where st: "dispatch (ts ss) = Some st" "curthread st = Some t"
    using dispatch_spec[of "ts ss"] inv none spl Cons by (auto simp: sync_inv_def)
  show ?thesis
  proof (cases "in_P ss t")
    case None
    then show ?thesis using Cons by (simp add: dispatch_event_def event_count_def)
  next
    case (Some x)
    then obtain sem s where x: "in_P ss t = Some (sem, s)" by (cases x) auto
    then have "sem_count ss sem \<noteq> None"
      using run st by (auto simp: sync_dispatch_def P_loop_def kernel_ops)
    with inv have "event_count (P_event ss sem) (sem_count ss) (sem_down sem (sem_count ss))"
      by (auto simp: sync_inv_def intro!: event_count_down)
    then show ?thesis using x Cons by (auto simp: dispatch_event_def P_event_def event_count_def)
  qed
qed

lemma sync_step_inv:
  assumes "sync_step ss ev ss'" and "sync_inv ss"
  shows "sync_inv ss' \<and> event_count ev (sem_count ss) (sem_count ss')"
  using assms
proof (induction rule: sync_step.induct)
  case (create ss sem n r ss')
  show ?case using sem_create_inv[OF create.prems create.hyps(2-4)] by (auto simp: event_count_def)
next
  case (destroy sem ss ss')
  show ?case using sem_destroy_inv[OF destroy.prems destroy.hyps] by (auto simp: event_count_def)
next
  case (P km sem ss ss')
  have "sem_count ss sem \<noteq> None" using P.hyps(2) by (auto simp: sem_P_def P_loop_def splhigh_def splx_def kernel_ops)
  with sem_P_inv[OF P.prems P.hyps] P.prems show ?case by (auto simp: sync_inv_def intro!: event_count_down)
next
  case (V km sem ss ss')
  obtain c where c: "sem_count ss sem = Some c" "sem_count ss' = (sem_count ss)(sem \<mapsto> s32 (c + 1))" "0 < s32 (c + 1)"
    using sem_V_inv(2)[OF V.prems V.hyps] by blast
  moreover have "0 \<le> c" "c < 2147483648" using V.prems c(1) by (auto simp: sync_inv_def no_lost_wakeup_def)
  moreover from this c(3) have "c < 2147483647" by (cases "c = 2147483647") (auto simp: s32_def)
  ultimately show ?case using sem_V_inv(1)[OF V.prems V.hyps] by (auto simp: event_count_def)
next
  case (dispatch km ss ss')
  then have "sync_inv ss'" "sem_count ss' = (case dispatch_event ss of Down sem \<Rightarrow> sem_down sem (sem_count ss) | _ \<Rightarrow> sem_count ss)"
    using sync_dispatch_inv[OF dispatch.prems dispatch.hyps] by auto
  moreover have "event_count (dispatch_event ss) (sem_count ss)
      (case dispatch_event ss of Down sem \<Rightarrow> sem_down sem (sem_count ss) | _ \<Rightarrow> sem_count ss)"
    using dispatch_event_count[OF dispatch.prems dispatch.hyps(2,3)] .
  ultimately show ?case by simp
next
  case (clock km ss lbolt ss')
  with hardclock_inv[OF clock.prems clock.hyps(1,3)] show ?case by (simp add: event_count_def)
next
  case (yield km ss st)
  then show ?case using sync_inv_yield[OF yield.prems yield.hyps] by (simp add: event_count_def)
next
  case (exit km ss st)
  have inv: "ts_inv (ts ss)" using exit.prems by (simp add: sync_inv_def)
  from sync_inv_keeps[OF exit.prems keeps_waiting_exit[OF inv exit.hyps] thread_exit_inv[OF inv exit.hyps]]
  show ?case by (simp add: event_count_def)
next
  case (fork mem ss name r new st)
  have inv: "ts_inv (ts ss)" using fork.prems by (simp add: sync_inv_def)
  have "ts_inv st" by (rule ts_step_inv[OF ts_step.fork[OF fork.hyps] inv])
  with sync_inv_keeps[OF fork.prems keeps_waiting_fork[OF inv fork.hyps]] show ?case by (simp add: event_count_def)
next
  case (sleep km ss a st)
  then obtain t where "curthread (ts ss) = Some t" by (auto simp: thread_sleep_def kernel_ops)
  with sync_inv_sleep(1)[OF sleep.prems sleep.hyps(1,3)] sleep.hyps show ?case by (simp add: event_count_def)
next
  case (wakeup km ss a st)
  with sync_inv_wakeup(2)[OF wakeup.prems wakeup.hyps(1,3), of 0] show ?case by (simp add: event_count_def)
next
  case (spl ss s)
  then show ?case using sync_inv_splx[of s ss] by (simp add: event_count_def)
qed

lemma sync_run_inv: "sync_run ss evs ss' \<Longrightarrow> sync_inv ss \<Longrightarrow> sync_inv ss'"
  by (induction rule: sync_run.induct) (auto dest: sync_step_inv)

definition ups :: "addr \<Rightarrow> sem_event list \<Rightarrow> int" where
  "ups sem evs = int (length (filter (\<lambda>e. e = Up sem) evs))"

definition downs :: "addr \<Rightarrow> sem_event list \<Rightarrow> int" where
  "downs sem evs = int (length (filter (\<lambda>e. e = Down sem) evs))"

definition keeps_sem :: "addr \<Rightarrow> sem_event \<Rightarrow> bool" where
  "keeps_sem sem ev \<longleftrightarrow> (case ev of Create s _ \<Rightarrow> s \<noteq> sem | Destroy s \<Rightarrow> s \<noteq> sem | _ \<Rightarrow> True)"

lemma event_count_at:
  assumes "event_count ev cnt cnt'" and "cnt sem = Some c" and "keeps_sem sem ev"
  shows "cnt' sem = Some (c + ups sem [ev] - downs sem [ev])"
  using assms by (cases ev) (auto simp: event_count_def keeps_sem_def ups_def downs_def)

lemma ups_downs_snoc:
  "ups sem (evs @ [ev]) = ups sem evs + ups sem [ev]" "downs sem (evs @ [ev]) = downs sem evs + downs sem [ev]"
  by (simp_all add: ups_def downs_def)

lemma sync_run_count:
  assumes "sync_run ss evs ss'" and "sync_inv ss" and "sem_count ss sem = Some c"
    and "\<forall>ev \<in> set evs. keeps_sem sem ev"
  shows "sem_count ss' sem = Some (c + ups sem evs - downs sem evs)"
  using assms
proof (induction rule: sync_run.induct)
  case (step ss evs ss' ev ss'')
  have "sync_inv ss'" by (rule sync_run_inv[OF step.hyps(1) step.prems(1)])
  then have ev: "event_count ev (sem_count ss') (sem_count ss'')" using sync_step_inv[OF step.hyps(2)] by blast
  have "sem_count ss' sem = Some (c + ups sem evs - downs sem evs)" using step by simp
  from event_count_at[OF ev this] step.prems(3) show ?case by (simp add: ups_downs_snoc algebra_simps)
qed (simp add: ups_def downs_def)

text \<open>Semaphores start with none, while nobody is inside \<^verbatim>\<open>P\<close>.\<close>

definition sync_start :: "synch \<Rightarrow> bool" where
  "sync_start ss \<longleftrightarrow> ts_inv (ts ss) \<and> sem_count ss = Map.empty \<and> in_P ss = Map.empty"

lemma sync_start_inv: "sync_start ss \<Longrightarrow> sync_inv ss"
  by (simp add: sync_start_def sync_inv_def no_lost_wakeup_def P_threads_queued_def)

section \<open>Properties\<close>

text \<open>
  C2. No lost wakeup: in every run, when the count of a semaphore is positive then no thread sleeps on
  it, and every thread that has been blocked inside \<^verbatim>\<open>P\<close> of it is in the run queue, so that it will
  look at the count again. This holds although \<^verbatim>\<open>V\<close> wakes all sleepers and only some of them get
  through.
\<close>

theorem semaphore_no_lost_wakeup:
  assumes "sync_start ss" and "sync_run ss evs ss'" and "sem_count ss' sem = Some c" and "0 < c"
  shows "waiting (ts ss') sem = {} \<and>
    (\<forall>t spl. in_P ss' t = Some (sem, spl) \<longrightarrow> t \<in> set (queue_elems (runqueue (ts ss'))))"
proof -
  have inv: "sync_inv ss'" by (rule sync_run_inv[OF assms(2) sync_start_inv[OF assms(1)]])
  then have "waiting (ts ss') sem = {}"
    using no_lost_wakeupD(3)[of "sem_count ss'" "waiting (ts ss')" sem c] assms(3,4) by (auto simp: sync_inv_def)
  with inv show ?thesis by (auto simp: sync_inv_def P_threads_queued_def)
qed

definition demo_synch :: synch where
  "demo_synch = \<lparr>ts = demo_state, sem_count = Map.empty, in_P = Map.empty, lbolt_counter = 0\<rparr>"

lemma demo_synch_start: "sync_start demo_synch"
  by (simp add: sync_start_def demo_synch_def demo_state_inv)

lemma demo_synch_created:
  "sync_run demo_synch [Create 500 1] (demo_synch\<lparr>sem_count := [500 \<mapsto> 1]\<rparr>)"
proof -
  have "waiting (ts demo_synch) 500 = {}"
    by (auto simp: waiting_def demo_synch_def demo_state_lists) (auto simp: sleeps_on_def demo_state_def demo_thread_def)
  then have "sync_step demo_synch (Create 500 1) (demo_synch\<lparr>sem_count := [500 \<mapsto> 1]\<rparr>)"
    by (intro sync_step.create[where r = "Some 500"]) (simp_all add: sem_create_def demo_synch_def)
  from sync_run.step[OF sync_run.refl this] show ?thesis by simp
qed

theorem semaphore_no_lost_wakeup_witness:
  "waiting (ts (demo_synch\<lparr>sem_count := [500 \<mapsto> 1]\<rparr>)) 500 = {}"
  using semaphore_no_lost_wakeup[OF demo_synch_start demo_synch_created, of 500 1] by simp




end
