(* ===== verification/Vm_Tlb.thy ===== *)
theory Vm_Tlb
  imports Kernel_Prelude
begin

text \<open>
  The translation lookaside buffer and its list of free entries (\<^verbatim>\<open>kern/vm/vm_tlb.c\<close>).

  \<open>tlb_hw\<close> is the hardware: 64 entries of a high word (the virtual page) and a low word (the frame
  and the flags); \<open>TLB_Write\<close> and \<open>TLB_Probe\<close> do what \<^verbatim>\<open>kern/arch/mips/include/tlb.h\<close> says of them. A
  pointer to a node of the free list is its index in \<open>tlbfreenodes\<close>, and an access to a node outside
  that array stops the kernel.
\<close>

section \<open>Model\<close>

record tlbfreenode =
  tn_id :: int
  tn_next :: "nat option"

record tlbsys =
  tlbfreenodes :: "tlbfreenode list"
  tlbnextfree :: "nat option"
  next_victim :: int
  tlb_hw :: "(int \<times> int) list"

definition TLB_Write :: "int \<Rightarrow> int \<Rightarrow> int \<Rightarrow> tlbsys \<Rightarrow> tlbsys option" where
  "TLB_Write hi lo index s =
     (if 0 \<le> index \<and> index < 64 then Some (s\<lparr>tlb_hw := (tlb_hw s)[nat index := (hi, lo)]\<rparr>) else None)"

fun tlb_find :: "int \<Rightarrow> (int \<times> int) list \<Rightarrow> int \<Rightarrow> int" where
  "tlb_find v [] i = -1"
| "tlb_find v ((hi, lo) # es) i = (if hi = v then i else tlb_find v es (i + 1))"

definition TLB_Probe :: "int \<Rightarrow> tlbsys \<Rightarrow> int" where
  "TLB_Probe v s = tlb_find v (tlb_hw s) 0"

definition TLBHI_INVALID :: "int \<Rightarrow> int" where
  "TLBHI_INVALID entryno = (524288 + entryno) * 4096"

definition page_aligned :: "int \<Rightarrow> bool" where
  "page_aligned v \<longleftrightarrow> v mod 4096 = 0"

function tlb_init_loop :: "int \<Rightarrow> tlbsys \<Rightarrow> tlbsys option" where
  "tlb_init_loop i s =
     (if i < 64 - 1 then do {
        nodes \<leftarrow> store (Some (tlbfreenodes s)) i \<lparr>tn_id = i, tn_next = Some (nat (i + 1))\<rparr>;
        tlb_init_loop (i + 1) (s\<lparr>tlbfreenodes := nodes\<rparr>)
      } else Some s)"
  by pat_completeness auto
termination
  by (relation "measure (\<lambda>(i, s). nat (63 - i))") auto

declare tlb_init_loop.simps [simp del]

definition tlb_init_free_list :: "tlbsys \<Rightarrow> tlbsys option" where
  "tlb_init_free_list s0 = do {
     s \<leftarrow> tlb_init_loop 0 (s0\<lparr>tlbnextfree := Some 0\<rparr>);
     nodes \<leftarrow> store (Some (tlbfreenodes s)) (64 - 1) \<lparr>tn_id = 64, tn_next = None\<rparr>;
     Some (s\<lparr>tlbfreenodes := nodes\<rparr>)
   }"

text \<open>\<open>nodes\<close> is the block \<^verbatim>\<open>kmalloc\<close> returns.\<close>

definition tlb_bootstrap :: "tlbfreenode list \<Rightarrow> tlbsys \<Rightarrow> tlbsys option" where
  "tlb_bootstrap nodes s = tlb_init_free_list (s\<lparr>tlbfreenodes := nodes\<rparr>)"

definition tlb_get_rr_victim :: "tlbsys \<Rightarrow> int \<times> tlbsys" where
  "tlb_get_rr_victim s = (next_victim s, s\<lparr>next_victim := (next_victim s + 1) mod 64\<rparr>)"

definition tlb_get_free_entry :: "tlbsys \<Rightarrow> (int \<times> tlbsys) option" where
  "tlb_get_free_entry s =
     (case tlbnextfree s of
        None \<Rightarrow> Some (-1, s)
      | Some n \<Rightarrow> do {
          node \<leftarrow> load (Some (tlbfreenodes s)) (int n);
          vnode \<leftarrow> load (Some (tlbfreenodes s)) (tn_id node);
          nodes \<leftarrow> store (Some (tlbfreenodes s)) (tn_id node) (vnode\<lparr>tn_next := None\<rparr>);
          Some (tn_id node, s\<lparr>tlbnextfree := tn_next node, tlbfreenodes := nodes\<rparr>)
        })"

definition tlb_add_entry :: "int \<Rightarrow> int \<Rightarrow> bool \<Rightarrow> tlbsys \<Rightarrow> tlbsys option" where
  "tlb_add_entry v p dirty s0 = do {
     kassert (page_aligned v);
     kassert (page_aligned p);
     (entry, s1) \<leftarrow> tlb_get_free_entry s0;
     let (entry', s2) = (if entry = -1 then tlb_get_rr_victim s1 else (entry, s1));
     TLB_Write v (if dirty then or (or p 512) 1024 else or p 512) entry' s2
   }"

definition tlb_invalidate_vaddr :: "int \<Rightarrow> tlbsys \<Rightarrow> tlbsys option" where
  "tlb_invalidate_vaddr v s = do {
     kassert (page_aligned v);
     let victim = TLB_Probe v s;
     if victim \<noteq> -1 then do {
       s1 \<leftarrow> TLB_Write (TLBHI_INVALID victim) 0 victim s;
       node \<leftarrow> load (Some (tlbfreenodes s1)) victim;
       nodes \<leftarrow> store (Some (tlbfreenodes s1)) victim (node\<lparr>tn_next := tlbnextfree s1\<rparr>);
       Some (s1\<lparr>tlbfreenodes := nodes, tlbnextfree := Some (nat victim)\<rparr>)
     }
     else Some s
   }"

function tlb_clear_from :: "int \<Rightarrow> tlbsys \<Rightarrow> tlbsys option" where
  "tlb_clear_from i s =
     (if i < 64 then do { s' \<leftarrow> TLB_Write (TLBHI_INVALID i) 0 i s; tlb_clear_from (i + 1) s' } else Some s)"
  by pat_completeness auto
termination
  by (relation "measure (\<lambda>(i, s). nat (64 - i))") auto

declare tlb_clear_from.simps [simp del]

definition tlb_context_switch :: "tlbsys \<Rightarrow> tlbsys option" where
  "tlb_context_switch s = do { s' \<leftarrow> tlb_init_free_list s; tlb_clear_from 0 s' }"

section \<open>Invariant\<close>

definition tlb_wf :: "tlbsys \<Rightarrow> bool" where
  "tlb_wf s \<longleftrightarrow> length (tlbfreenodes s) = 64 \<and> length (tlb_hw s) = 64 \<and> 0 \<le> next_victim s \<and> next_victim s < 64 \<and>
     (\<forall>n. tlbnextfree s = Some n \<longrightarrow> n < 64)"

text \<open>The list as it is after initialisation, from entry \<open>k\<close> on.\<close>

definition tlb_fresh :: "nat \<Rightarrow> tlbsys \<Rightarrow> bool" where
  "tlb_fresh k s \<longleftrightarrow> tlb_wf s \<and> k < 64 \<and> tlbnextfree s = Some k \<and>
     (\<forall>i. k \<le> i \<and> i < 63 \<longrightarrow> tlbfreenodes s ! i = \<lparr>tn_id = int i, tn_next = Some (Suc i)\<rparr>) \<and>
     tlbfreenodes s ! 63 = \<lparr>tn_id = 64, tn_next = None\<rparr>"

lemma tlb_init_loop_spec:
  assumes "length (tlbfreenodes s) = 64" and "0 \<le> i" and "i \<le> 63"
    and "\<forall>j < nat i. tlbfreenodes s ! j = \<lparr>tn_id = int j, tn_next = Some (Suc j)\<rparr>"
  shows "\<exists>nodes. tlb_init_loop i s = Some (s\<lparr>tlbfreenodes := nodes\<rparr>) \<and> length nodes = 64 \<and>
    (\<forall>j < 63. nodes ! j = \<lparr>tn_id = int j, tn_next = Some (Suc j)\<rparr>)"
  using assms
proof (induction "nat (63 - i)" arbitrary: i s)
  case 0
  then have "i = 63" by simp
  with 0 show ?case by (intro exI[of _ "tlbfreenodes s"]) (simp add: tlb_init_loop.simps[of 63])
next
  case (Suc n)
  then have i: "i < 63" by simp
  let ?s = "s\<lparr>tlbfreenodes := (tlbfreenodes s)[nat i := \<lparr>tn_id = i, tn_next = Some (nat (i + 1))\<rparr>]\<rparr>"
  have nodes: "tlbfreenodes ?s ! j = \<lparr>tn_id = int j, tn_next = Some (Suc j)\<rparr>" if "j < nat (i + 1)" for j
    using that Suc.prems by (cases "j = nat i") (auto simp: nat_add_distrib nth_list_update)
  have "\<exists>nodes. tlb_init_loop (i + 1) ?s = Some (?s\<lparr>tlbfreenodes := nodes\<rparr>) \<and> length nodes = 64 \<and>
      (\<forall>j < 63. nodes ! j = \<lparr>tn_id = int j, tn_next = Some (Suc j)\<rparr>)"
    using Suc i nodes by (intro Suc.hyps(1)) auto
  then show ?case using i Suc.prems by (auto simp: tlb_init_loop.simps[of i])
qed

lemma tlb_init_fresh:
  assumes "length (tlbfreenodes s) = 64" and "length (tlb_hw s) = 64" and "0 \<le> next_victim s" "next_victim s < 64"
  shows "\<exists>s'. tlb_init_free_list s = Some s' \<and> tlb_fresh 0 s' \<and> tlb_hw s' = tlb_hw s \<and> next_victim s' = next_victim s"
proof -
  obtain nodes where n: "tlb_init_loop 0 (s\<lparr>tlbnextfree := Some 0\<rparr>) = Some (s\<lparr>tlbnextfree := Some 0, tlbfreenodes := nodes\<rparr>)"
      "length nodes = 64" "\<forall>j < 63. nodes ! j = \<lparr>tn_id = int j, tn_next = Some (Suc j)\<rparr>"
    using tlb_init_loop_spec[of "s\<lparr>tlbnextfree := Some 0\<rparr>" 0] assms(1) by auto
  then show ?thesis using assms
    by (simp add: tlb_init_free_list_def tlb_fresh_def tlb_wf_def)
qed

lemma tlb_get_free_entry_fresh:
  assumes "tlb_fresh k s" and "k < 63"
  shows "\<exists>s'. tlb_get_free_entry s = Some (int k, s') \<and> tlb_fresh (Suc k) s' \<and> tlb_hw s' = tlb_hw s"
proof -
  let ?nodes = "(tlbfreenodes s)[k := \<lparr>tn_id = int k, tn_next = None\<rparr>]"
  have "length (tlbfreenodes s) = 64" "tlbnextfree s = Some k"
      "tlbfreenodes s ! k = \<lparr>tn_id = int k, tn_next = Some (Suc k)\<rparr>"
    using assms by (auto simp: tlb_fresh_def tlb_wf_def)
  then have "tlb_get_free_entry s = Some (int k, s\<lparr>tlbnextfree := Some (Suc k), tlbfreenodes := ?nodes\<rparr>)"
    using assms(2) by (simp add: tlb_get_free_entry_def)
  moreover have "tlb_fresh (Suc k) (s\<lparr>tlbnextfree := Some (Suc k), tlbfreenodes := ?nodes\<rparr>)"
    using assms by (auto simp: tlb_fresh_def tlb_wf_def nth_list_update)
  ultimately show ?thesis by simp
qed

lemma tlb_add_entry_fresh:
  assumes "tlb_fresh k s" and "k < 63" and "page_aligned v" and "page_aligned p"
  shows "\<exists>s'. tlb_add_entry v p d s = Some s' \<and> tlb_fresh (Suc k) s' \<and>
    tlb_hw s' = (tlb_hw s)[k := (v, if d then or (or p 512) 1024 else or p 512)]"
proof -
  obtain s1 where s1: "tlb_get_free_entry s = Some (int k, s1)" "tlb_fresh (Suc k) s1" "tlb_hw s1 = tlb_hw s"
    using tlb_get_free_entry_fresh[OF assms(1,2)] by blast
  then show ?thesis using assms by (simp add: tlb_add_entry_def TLB_Write_def tlb_fresh_def tlb_wf_def)
qed

lemma tlb_add_entry_last:
  assumes "tlb_fresh 63 s"
  shows "tlb_add_entry v p d s = None"
proof -
  have "load (Some (tlbfreenodes s)) 63 = Some \<lparr>tn_id = 64, tn_next = None\<rparr>"
      "load (Some (tlbfreenodes s)) 64 = None"
    using assms by (auto simp: tlb_fresh_def tlb_wf_def load_def)
  then have "tlb_get_free_entry s = None" using assms by (simp add: tlb_get_free_entry_def tlb_fresh_def)
  then show ?thesis by (auto simp: tlb_add_entry_def kassert_def)
qed

fun tlb_adds :: "(int \<times> int \<times> bool) list \<Rightarrow> tlbsys \<Rightarrow> tlbsys option" where
  "tlb_adds [] s = Some s"
| "tlb_adds ((v, p, d) # es) s = Option.bind (tlb_add_entry v p d s) (tlb_adds es)"

definition entries_aligned :: "(int \<times> int \<times> bool) list \<Rightarrow> bool" where
  "entries_aligned es \<longleftrightarrow> (\<forall>(v, p, d) \<in> set es. page_aligned v \<and> page_aligned p)"

lemma tlb_adds_fresh:
  assumes "tlb_fresh k s" and "k + length es \<le> 63" and "entries_aligned es"
  shows "\<exists>s'. tlb_adds es s = Some s' \<and> tlb_fresh (k + length es) s' \<and>
    map fst (take (k + length es) (tlb_hw s')) = map fst (take k (tlb_hw s)) @ map fst es"
  using assms
proof (induction es arbitrary: k s)
  case (Cons e es)
  obtain v p d where e: "e = (v, p, d)" by (cases e) auto
  obtain s1 where s1: "tlb_add_entry v p d s = Some s1" "tlb_fresh (Suc k) s1"
      "tlb_hw s1 = (tlb_hw s)[k := (v, if d then or (or p 512) 1024 else or p 512)]"
    using tlb_add_entry_fresh[of k s v p d] Cons.prems e by (auto simp: entries_aligned_def)
  have "length (tlb_hw s) = 64" using Cons.prems(1) by (simp add: tlb_fresh_def tlb_wf_def)
  then have "map fst (take (Suc k) (tlb_hw s1)) = map fst (take k (tlb_hw s)) @ [v]"
    using Cons.prems(2) by (simp add: s1(3) take_Suc_update)
  with Cons.IH[OF s1(2)] Cons.prems s1(1) e show ?case by (auto simp: entries_aligned_def)
qed simp

lemma tlb_adds_append: "tlb_adds (es @ fs) s = Option.bind (tlb_adds es s) (tlb_adds fs)"
  by (induction es s rule: tlb_adds.induct) (auto split: option.splits bind_splits)

lemma tlb_find_bounds: "tlb_find v es i = -1 \<or> i \<le> tlb_find v es i \<and> tlb_find v es i < i + int (length es)"
  by (induction v es i rule: tlb_find.induct) auto

lemma tlb_find_hit:
  "0 \<le> i \<Longrightarrow> tlb_find v es i \<noteq> -1 \<Longrightarrow> fst (es ! nat (tlb_find v es i - i)) = v"
proof (induction v es i rule: tlb_find.induct)
  case (2 v hi lo es i)
  show ?case
  proof (cases "hi = v")
    case False
    then have "tlb_find v es (i + 1) \<noteq> -1" using 2 by simp
    moreover from this have "i + 1 \<le> tlb_find v es (i + 1)" using tlb_find_bounds[of v es "i + 1"] by auto
    then have "nat (tlb_find v es (i + 1) - i) = Suc (nat (tlb_find v es (i + 1) - (i + 1)))" by simp
    ultimately show ?thesis using False 2 by simp
  qed simp
qed simp

lemma tlb_find_none: "0 \<le> i \<Longrightarrow> tlb_find v es i = -1 \<longleftrightarrow> v \<notin> fst ` set es"
proof (induction v es i rule: tlb_find.induct)
  case (2 v hi lo es i)
  then show ?case by (cases "hi = v") auto
qed simp

lemma tlb_invalidate_spec:
  assumes wf: "tlb_wf s" and v: "page_aligned v" "v < 2147483648" and once: "distinct (map fst (tlb_hw s))"
  shows "\<exists>s'. tlb_invalidate_vaddr v s = Some s' \<and> tlb_wf s' \<and> TLB_Probe v s' = -1 \<and>
    (\<forall>e \<in> set (tlb_hw s). fst e \<noteq> v \<longrightarrow> e \<in> set (tlb_hw s'))"
proof (cases "TLB_Probe v s = -1")
  case True
  with wf v show ?thesis by (simp add: tlb_invalidate_vaddr_def)
next
  case False
  define k where "k = TLB_Probe v s"
  have len: "length (tlb_hw s) = 64" "length (tlbfreenodes s) = 64" using wf by (simp_all add: tlb_wf_def)
  have k: "0 \<le> k" "k < 64" using tlb_find_bounds[of v "tlb_hw s" 0] False len by (auto simp: k_def TLB_Probe_def)
  have at: "fst (tlb_hw s ! nat k) = v" using tlb_find_hit[of 0 v "tlb_hw s"] False by (auto simp: k_def TLB_Probe_def)
  let ?hw = "(tlb_hw s)[nat k := (TLBHI_INVALID k, 0)]"
  have other: "fst (tlb_hw s ! j) \<noteq> v" if "j < 64" "j \<noteq> nat k" for j
    using once at that len k nth_eq_iff_index_eq[OF once, of j "nat k"] by auto
  have "v \<notin> fst ` set ?hw"
  proof
    assume "v \<in> fst ` set ?hw"
    then obtain j where "j < 64" "fst (?hw ! j) = v" using len by (auto simp: in_set_conv_nth image_iff)
    then show False using other[of j] len k v by (cases "j = nat k") (auto simp: TLBHI_INVALID_def)
  qed
  then have "tlb_find v ?hw 0 = -1" by (simp add: tlb_find_none)
  moreover have "e \<in> set ?hw" if e: "e \<in> set (tlb_hw s)" "fst e \<noteq> v" for e
  proof -
    obtain j where "j < 64" "tlb_hw s ! j = e" using e(1) len by (auto simp: in_set_conv_nth)
    moreover from this have "j \<noteq> nat k" using at e(2) by auto
    ultimately have "?hw ! j = e" "j < length ?hw" using len by simp_all
    then show ?thesis using nth_mem by metis
  qed
  moreover have "tlb_invalidate_vaddr v s = Some (s\<lparr>tlb_hw := ?hw, tlbnextfree := Some (nat k),
      tlbfreenodes := (tlbfreenodes s)[nat k := (tlbfreenodes s ! nat k)\<lparr>tn_next := tlbnextfree s\<rparr>]\<rparr>)"
    using k v(1) len by (simp add: tlb_invalidate_vaddr_def TLB_Write_def k_def[symmetric])
  ultimately show ?thesis using wf k by (auto simp: TLB_Probe_def tlb_wf_def)
qed

section \<open>The free entries\<close>

text \<open>
  \<open>tlb_free s xs\<close>: the free list is \<open>xs\<close> followed by the node with the wrong number, the free entries
  translate no user page. \<open>tlb_ok k s\<close>: there are at least \<open>k\<close> entries to hand out before that node.
\<close>

fun tlb_chain :: "tlbfreenode list \<Rightarrow> nat option \<Rightarrow> nat list \<Rightarrow> bool" where
  "tlb_chain nodes p [] \<longleftrightarrow> p = None"
| "tlb_chain nodes p (x # xs) \<longleftrightarrow> p = Some x \<and> tlb_chain nodes (tn_next (nodes ! x)) xs"

definition tlb_free :: "tlbsys \<Rightarrow> nat list \<Rightarrow> bool" where
  "tlb_free s xs \<longleftrightarrow> tlb_wf s \<and> distinct xs \<and> set xs \<subseteq> {..<63} \<and> tlb_chain (tlbfreenodes s) (tlbnextfree s) (xs @ [63]) \<and>
     (\<forall>j < 63. tn_id (tlbfreenodes s ! j) = int j) \<and> (\<forall>j \<in> set (xs @ [63]). fst (tlb_hw s ! j) \<ge> 2147483648)"

definition tlb_ok :: "nat \<Rightarrow> tlbsys \<Rightarrow> bool" where
  "tlb_ok k s \<longleftrightarrow> (\<exists>xs. tlb_free s xs \<and> k \<le> length xs)"

lemma tlb_chain_update [simp]: "x \<notin> set xs \<Longrightarrow> tlb_chain (nodes[x := n]) p xs = tlb_chain nodes p xs"
  by (induction xs arbitrary: p) auto

lemma tlb_ok_wf: "tlb_ok k s \<Longrightarrow> tlb_wf s"
  by (auto simp: tlb_ok_def tlb_free_def)

lemma tlb_ok_mono: "tlb_ok k s \<Longrightarrow> j \<le> k \<Longrightarrow> tlb_ok j s"
  by (auto simp: tlb_ok_def intro: le_trans)

lemma tlb_fresh_free:
  assumes "tlb_fresh k s" and "\<forall>j < 63. tn_id (tlbfreenodes s ! j) = int j" and "\<forall>j. k \<le> j \<and> j < 64 \<longrightarrow> fst (tlb_hw s ! j) \<ge> 2147483648"
  shows "tlb_free s [k..<63]"
proof -
  have k: "k \<le> 63" "tlbnextfree s = Some k" and wf: "tlb_wf s" using assms(1) by (auto simp: tlb_fresh_def)
  have next_node: "tn_next (tlbfreenodes s ! i) = (if i < 63 then Some (Suc i) else None)" if "k \<le> i" "i \<le> 63" for i
    using assms(1) that by (cases "i = 63") (auto simp: tlb_fresh_def)
  have "tlb_chain (tlbfreenodes s) (Some j) ([j..<63] @ [63])" if "k \<le> j" "j \<le> 63" for j
    using that
  proof (induction "63 - j" arbitrary: j)
    case 0
    then show ?case using next_node[of 63] by simp
  next
    case (Suc n)
    then show ?case using next_node[of j] by (simp add: upt_conv_Cons)
  qed
  with k wf assms(2,3) show ?thesis by (auto simp: tlb_free_def)
qed

lemma tlb_add_entry_free:
  assumes "tlb_ok (Suc k) s" and "page_aligned v" and "page_aligned p"
  shows "\<exists>s'. tlb_add_entry v p d s = Some s' \<and> tlb_ok k s'"
proof -
  obtain x xs where f: "tlb_free s (x # xs)" "k \<le> length xs"
    using assms(1) by (auto simp: tlb_ok_def Suc_le_length_iff)
  have wf: "tlb_wf s" and x: "x < 63" "x \<notin> set xs" "tlbnextfree s = Some x" "tn_id (tlbfreenodes s ! x) = int x"
    and c: "tlb_chain (tlbfreenodes s) (tn_next (tlbfreenodes s ! x)) (xs @ [63])"
    using f by (auto simp: tlb_free_def)
  have len: "length (tlbfreenodes s) = 64" "length (tlb_hw s) = 64" using wf by (simp_all add: tlb_wf_def)
  let ?nodes = "(tlbfreenodes s)[x := (tlbfreenodes s ! x)\<lparr>tn_next := None\<rparr>]"
  let ?hw = "(tlb_hw s)[x := (v, if d then or (or p 512) 1024 else or p 512)]"
  let ?s = "s\<lparr>tlbnextfree := tn_next (tlbfreenodes s ! x), tlbfreenodes := ?nodes, tlb_hw := ?hw\<rparr>"
  have run: "tlb_add_entry v p d s = Some ?s"
    using assms(2,3) x len by (simp add: tlb_add_entry_def tlb_get_free_entry_def TLB_Write_def)
  have "tlb_chain ?nodes (tn_next (tlbfreenodes s ! x)) (xs @ [63])" using c x by simp
  moreover have "n < 64" if "tn_next (tlbfreenodes s ! x) = Some n" for n
    using c that f by (cases xs) (auto simp: tlb_free_def)
  ultimately have "tlb_free ?s xs" using f x len wf by (auto simp: tlb_free_def tlb_wf_def nth_list_update)
  with run f(2) show ?thesis by (auto simp: tlb_ok_def)
qed

lemma tlb_invalidate_ok:
  assumes ok: "tlb_ok k s" and v: "page_aligned v" "v < 2147483648"
  shows "\<exists>s'. tlb_invalidate_vaddr v s = Some s' \<and> tlb_ok k s'"
proof (cases "TLB_Probe v s = -1")
  case False
  obtain xs where f: "tlb_free s xs" "k \<le> length xs" using ok by (auto simp: tlb_ok_def)
  have len: "length (tlb_hw s) = 64" "length (tlbfreenodes s) = 64" using f by (simp_all add: tlb_free_def tlb_wf_def)
  define j where "j = nat (TLB_Probe v s)"
  have b: "0 \<le> TLB_Probe v s" "TLB_Probe v s < 64"
    using tlb_find_bounds[of v "tlb_hw s" 0] False len by (auto simp: TLB_Probe_def)
  then have j: "TLB_Probe v s = int j" "j < 64" by (simp_all add: j_def)
  have "fst (tlb_hw s ! j) = v" using tlb_find_hit[of 0 v "tlb_hw s"] False by (auto simp: j_def TLB_Probe_def)
  then have "j \<notin> set (xs @ [63])" using f v by (force simp: tlb_free_def)
  then have jx: "j \<notin> set xs" "j < 63" using j by auto
  let ?nodes = "(tlbfreenodes s)[j := (tlbfreenodes s ! j)\<lparr>tn_next := tlbnextfree s\<rparr>]"
  let ?hw = "(tlb_hw s)[j := (TLBHI_INVALID (int j), 0)]"
  let ?s = "s\<lparr>tlb_hw := ?hw, tlbfreenodes := ?nodes, tlbnextfree := Some j\<rparr>"
  have run: "tlb_invalidate_vaddr v s = Some ?s"
    using j v len by (simp add: tlb_invalidate_vaddr_def TLB_Write_def)
  have "tlb_chain ?nodes (Some j) ((j # xs) @ [63])" using f jx len by (simp add: tlb_free_def)
  then have "tlb_free ?s (j # xs)"
    using f jx len by (auto simp: tlb_free_def tlb_wf_def nth_list_update TLBHI_INVALID_def)
  with run f(2) show ?thesis by (auto simp: tlb_ok_def intro!: exI[of _ "j # xs"])
qed (use assms in \<open>simp add: tlb_invalidate_vaddr_def\<close>)

section \<open>Properties\<close>

text \<open>
  C24. After the free list is set up, 63 translations can be added, and they are in the buffer in order;
  but adding one more stops the kernel: the last node carries the number 64 instead of 63, and
  \<^verbatim>\<open>tlb_get_free_entry\<close> then writes behind the array of nodes.
\<close>

theorem tlb_last_entry_overruns:
  assumes "length (tlbfreenodes s) = 64" and "length (tlb_hw s) = 64" and "0 \<le> next_victim s" and "next_victim s < 64"
    and "entries_aligned es" and "length es = 63"
  shows "\<exists>s' s''. tlb_init_free_list s = Some s' \<and> tlb_adds es s' = Some s'' \<and>
    map fst (take 63 (tlb_hw s'')) = map fst es \<and> tlb_add_entry v p d s'' = None"
proof -
  obtain s' where s': "tlb_init_free_list s = Some s'" "tlb_fresh 0 s'" using tlb_init_fresh[OF assms(1-4)] by blast
  obtain s'' where "tlb_adds es s' = Some s''" "tlb_fresh 63 s''" "map fst (take 63 (tlb_hw s'')) = map fst es"
    using tlb_adds_fresh[OF s'(2), of es] assms(5,6) by auto
  with s' tlb_add_entry_last show ?thesis by blast
qed

theorem tlb_last_entry_overruns_witness:
  "\<exists>s es s' s''. length es = 63 \<and> tlb_init_free_list s = Some s' \<and> tlb_adds es s' = Some s'' \<and>
     tlb_add_entry 4096 8192 True s'' = None"
proof -
  let ?s = "\<lparr>tlbfreenodes = replicate 64 \<lparr>tn_id = 0, tn_next = None\<rparr>, tlbnextfree = None, next_victim = 0,
    tlb_hw = replicate 64 (0, 0)\<rparr>"
  let ?es = "replicate 63 (4096 :: int, 8192 :: int, True)"
  have "length (tlbfreenodes ?s) = 64" "length (tlb_hw ?s) = 64" "0 \<le> next_victim ?s" "next_victim ?s < 64"
      "entries_aligned ?es" "length ?es = 63"
    by (simp_all add: entries_aligned_def page_aligned_def)
  from tlb_last_entry_overruns[OF this, of 4096 8192 True] \<open>length ?es = 63\<close> show ?thesis by blast
qed

text \<open>
  C23. \<^verbatim>\<open>tlb_invalidate_vaddr\<close> leaves no translation of the page in the buffer, keeps the translations of
  all other pages, and stays inside its arrays.
\<close>

theorem tlb_invalidate_correct:
  assumes "tlb_wf s" and "page_aligned v" and "v < 2147483648" and "distinct (map fst (tlb_hw s))"
  shows "\<exists>s'. tlb_invalidate_vaddr v s = Some s' \<and> tlb_wf s' \<and> TLB_Probe v s' = -1 \<and>
    (\<forall>e \<in> set (tlb_hw s). fst e \<noteq> v \<longrightarrow> e \<in> set (tlb_hw s'))"
  by (rule tlb_invalidate_spec[OF assms])

theorem tlb_invalidate_correct_witness:
  "\<exists>s s'. tlb_invalidate_vaddr 4096 s = Some s' \<and> TLB_Probe 4096 s = 1 \<and> TLB_Probe 4096 s' = -1"
proof -
  let ?s = "\<lparr>tlbfreenodes = replicate 64 \<lparr>tn_id = 0, tn_next = None\<rparr>, tlbnextfree = None, next_victim = 0,
    tlb_hw = map (\<lambda>i. (4096 * int i, 0)) [0..<64]\<rparr>"
  have "tlb_wf ?s" by (simp add: tlb_wf_def)
  moreover have "page_aligned 4096" by (simp add: page_aligned_def)
  moreover have "distinct (map fst (tlb_hw ?s))" by (simp add: distinct_map inj_on_def comp_def)
  ultimately obtain s' where "tlb_invalidate_vaddr 4096 ?s = Some s'" "TLB_Probe 4096 s' = -1"
    using tlb_invalidate_correct[of ?s 4096] by auto
  moreover have "TLB_Probe 4096 ?s = 1" by (simp add: TLB_Probe_def upt_rec[of 0] upt_rec[of "Suc 0"])
  ultimately show ?thesis by blast
qed

end
