(* ===== verification/Free_Pool.thy ===== *)
theory Free_Pool
  imports Kernel_Prelude
begin

text \<open>
  The contract of the lists of free numbers that the virtual memory system keeps: free swap pages
  and free physical frames. \<open>alloc\<close> takes the first number of the list, \<open>release\<close> puts one back
  in front.
\<close>

primrec alloc_n :: "('s \<Rightarrow> (nat \<times> 's) option) \<Rightarrow> nat \<Rightarrow> 's \<Rightarrow> (nat list \<times> 's) option" where
  "alloc_n alloc 0 s = Some ([], s)"
| "alloc_n alloc (Suc n) s = do { (x, s1) \<leftarrow> alloc s; (xs, s2) \<leftarrow> alloc_n alloc n s1; Some (x # xs, s2) }"

locale free_pool =
  fixes free :: "'s \<Rightarrow> nat list \<Rightarrow> bool"
    and valid :: "'s \<Rightarrow> nat \<Rightarrow> bool"
    and alloc :: "'s \<Rightarrow> (nat \<times> 's) option"
    and release :: "nat \<Rightarrow> 's \<Rightarrow> 's option"
  assumes free_law: "free s xs \<Longrightarrow> distinct xs \<and> (\<forall>x \<in> set xs. valid s x)"
    and alloc_law: "free s (x # xs) \<Longrightarrow> \<exists>s'. alloc s = Some (x, s') \<and> free s' xs \<and> valid s' = valid s"
    and empty_law: "free s [] \<Longrightarrow> alloc s = None"
    and release_law: "free s xs \<Longrightarrow> valid s x \<Longrightarrow> x \<notin> set xs \<Longrightarrow>
      \<exists>s'. release x s = Some s' \<and> free s' (x # xs) \<and> valid s' = valid s"
begin

lemma alloc_n_free:
  "free s (xs @ ys) \<Longrightarrow> \<exists>s'. alloc_n alloc (length xs) s = Some (xs, s') \<and> free s' ys \<and> valid s' = valid s"
proof (induction xs arbitrary: s)
  case (Cons x xs)
  then obtain s1 where s1: "alloc s = Some (x, s1)" "free s1 (xs @ ys)" "valid s1 = valid s"
    using alloc_law[of s x "xs @ ys"] by auto
  with Cons.IH[OF s1(2)] show ?case by auto
qed simp

text \<open>As many allocations as there are free numbers succeed, with different results; one more does not.\<close>

lemma alloc_all_distinct:
  assumes "free s xs"
  shows "\<exists>s'. alloc_n alloc (length xs) s = Some (xs, s') \<and> distinct xs \<and> alloc s' = None"
  using alloc_n_free[of s xs "[]"] free_law[OF assms] empty_law assms by auto

lemma release_after_alloc:
  assumes "free s (x # xs)"
  shows "\<exists>s1 s2. alloc s = Some (x, s1) \<and> release x s1 = Some s2 \<and> free s2 (x # xs)"
proof -
  obtain s1 where s1: "alloc s = Some (x, s1)" "free s1 xs" "valid s1 = valid s" using alloc_law[OF assms] by blast
  have "x \<notin> set xs" "valid s1 x" using free_law[OF assms] s1(3) by auto
  with release_law[OF s1(2)] s1(1) show ?thesis by blast
qed

end

end
