(* ===== verification/Vm_Swap.thy ===== *)
theory Vm_Swap
  imports Free_Pool
begin

text \<open>
  The swap file (\<^verbatim>\<open>kern/vm/swapfile.c\<close>): 1024 pages, whose free ones are in a singly linked list
  through the array \<^verbatim>\<open>pageList\<close>. \<open>swapdisk\<close> is what the file holds, by page number; the code ignores
  the results of \<^verbatim>\<open>VOP_READ\<close> and \<^verbatim>\<open>VOP_WRITE\<close>, and the model has them succeed. A pointer to a node is
  its index, and running out of swap space is the panic \<open>None\<close>.
\<close>

section \<open>Model\<close>

type_synonym page = "8 word list"

record swapnode =
  sn_index :: int
  sn_next :: "nat option"

record swapsys =
  freePages :: "nat option"
  pageList :: "swapnode list"
  swapdisk :: "int \<Rightarrow> page"

function swap_init_loop :: "int \<Rightarrow> swapsys \<Rightarrow> swapsys option" where
  "swap_init_loop i s =
     (if i < 1024 - 1 then do {
        nodes \<leftarrow> store (Some (pageList s)) i \<lparr>sn_index = i, sn_next = Some (nat (i + 1))\<rparr>;
        swap_init_loop (i + 1) (s\<lparr>pageList := nodes\<rparr>)
      } else Some s)"
  by pat_completeness auto
termination
  by (relation "measure (\<lambda>(i, s). nat (1023 - i))") auto

declare swap_init_loop.simps [simp del]

text \<open>\<open>mem\<close> is the block \<^verbatim>\<open>kmalloc\<close> returns; opening the file is not part of the model.\<close>

definition swap_bootstrap :: "swapnode list option \<Rightarrow> swapsys \<Rightarrow> swapsys option" where
  "swap_bootstrap mem s0 = do {
     nodes0 \<leftarrow> mem;
     s \<leftarrow> swap_init_loop 0 (s0\<lparr>pageList := nodes0, freePages := Some 0\<rparr>);
     nodes \<leftarrow> store (Some (pageList s)) (1024 - 1) \<lparr>sn_index = 1024 - 1, sn_next = None\<rparr>;
     Some (s\<lparr>pageList := nodes\<rparr>)
   }"

definition swap_full :: "swapsys \<Rightarrow> bool" where
  "swap_full s \<longleftrightarrow> freePages s = None"

definition swap_free_page :: "int \<Rightarrow> swapsys \<Rightarrow> swapsys option" where
  "swap_free_page n s = do {
     node \<leftarrow> load (Some (pageList s)) n;
     nodes \<leftarrow> store (Some (pageList s)) n (node\<lparr>sn_next := freePages s\<rparr>);
     Some (s\<lparr>pageList := nodes, freePages := Some (nat n)\<rparr>)
   }"

definition swap_write_page :: "page \<Rightarrow> int \<Rightarrow> swapsys \<Rightarrow> swapsys" where
  "swap_write_page data n s = s\<lparr>swapdisk := (swapdisk s)(n := data)\<rparr>"

text \<open>\<open>data\<close> is the contents of the frame the C function is given the number of.\<close>

definition swap_write :: "page \<Rightarrow> swapsys \<Rightarrow> (int \<times> swapsys) option" where
  "swap_write data s =
     (case freePages s of
        None \<Rightarrow> None
      | Some f \<Rightarrow> do {
          node \<leftarrow> load (Some (pageList s)) (int f);
          Some (sn_index node, swap_write_page data (sn_index node) (s\<lparr>freePages := sn_next node\<rparr>))
        })"

definition swap_read :: "int \<Rightarrow> swapsys \<Rightarrow> (page \<times> swapsys) option" where
  "swap_read n s = do {
     node \<leftarrow> load (Some (pageList s)) n;
     nodes \<leftarrow> store (Some (pageList s)) n (node\<lparr>sn_next := freePages s\<rparr>);
     Some (swapdisk s n, s\<lparr>pageList := nodes, freePages := Some (nat n)\<rparr>)
   }"

section \<open>The free list\<close>

fun swap_chain :: "swapnode list \<Rightarrow> nat option \<Rightarrow> nat list \<Rightarrow> bool" where
  "swap_chain nodes p [] \<longleftrightarrow> p = None"
| "swap_chain nodes p (x # xs) \<longleftrightarrow> p = Some x \<and> x < length nodes \<and> swap_chain nodes (sn_next (nodes ! x)) xs"

definition swap_list :: "swapsys \<Rightarrow> nat list \<Rightarrow> bool" where
  "swap_list s xs \<longleftrightarrow> swap_chain (pageList s) (freePages s) xs \<and> distinct xs \<and>
     (\<forall>i < length (pageList s). sn_index (pageList s ! i) = int i)"

definition swap_valid :: "swapsys \<Rightarrow> nat \<Rightarrow> bool" where
  "swap_valid s x \<longleftrightarrow> x < length (pageList s)"

lemma swap_chain_update [simp]:
  "x \<notin> set xs \<Longrightarrow> swap_chain (nodes[x := n]) p xs = swap_chain nodes p xs"
  by (induction xs arbitrary: p) auto

lemma swap_chain_valid: "swap_chain nodes p xs \<Longrightarrow> x \<in> set xs \<Longrightarrow> x < length nodes"
  by (induction xs arbitrary: p) auto

lemma swap_write_spec:
  assumes "swap_list s (x # xs)"
  shows "\<exists>s'. swap_write d s = Some (int x, s') \<and> swap_list s' xs \<and> pageList s' = pageList s \<and>
    swapdisk s' = (swapdisk s)(int x := d)"
  using assms by (auto simp: swap_list_def swap_write_def swap_write_page_def)

lemma swap_release_spec:
  assumes "swap_list s xs" and "x < length (pageList s)" and "x \<notin> set xs"
  shows "\<exists>s'. swap_free_page (int x) s = Some s' \<and> swap_list s' (x # xs) \<and>
      length (pageList s') = length (pageList s) \<and> swapdisk s' = swapdisk s \<and>
      swap_read (int x) s = Some (swapdisk s (int x), s')"
  using assms by (auto simp: swap_list_def swap_free_page_def swap_read_def nth_list_update)

lemma swap_init_loop_spec:
  assumes "length (pageList s) = 1024" and "0 \<le> i" and "i \<le> 1023"
    and "\<forall>j < nat i. pageList s ! j = \<lparr>sn_index = int j, sn_next = Some (Suc j)\<rparr>"
  shows "\<exists>nodes. swap_init_loop i s = Some (s\<lparr>pageList := nodes\<rparr>) \<and> length nodes = 1024 \<and>
    (\<forall>j < 1023. nodes ! j = \<lparr>sn_index = int j, sn_next = Some (Suc j)\<rparr>)"
  using assms
proof (induction "nat (1023 - i)" arbitrary: i s)
  case 0
  then have "i = 1023" by simp
  with 0 show ?case by (intro exI[of _ "pageList s"]) (simp add: swap_init_loop.simps[of 1023])
next
  case (Suc n)
  then have i: "i < 1023" by simp
  let ?s = "s\<lparr>pageList := (pageList s)[nat i := \<lparr>sn_index = i, sn_next = Some (nat (i + 1))\<rparr>]\<rparr>"
  have nodes: "pageList ?s ! j = \<lparr>sn_index = int j, sn_next = Some (Suc j)\<rparr>" if "j < nat (i + 1)" for j
    using that Suc.prems by (cases "j = nat i") (auto simp: nat_add_distrib nth_list_update)
  have "\<exists>nodes. swap_init_loop (i + 1) ?s = Some (?s\<lparr>pageList := nodes\<rparr>) \<and> length nodes = 1024 \<and>
      (\<forall>j < 1023. nodes ! j = \<lparr>sn_index = int j, sn_next = Some (Suc j)\<rparr>)"
    using Suc i nodes by (intro Suc.hyps(1)) auto
  then show ?case using i Suc.prems by (auto simp: swap_init_loop.simps[of i])
qed

lemma swap_chain_upt:
  assumes "n \<le> length nodes" and "\<forall>j < n. sn_next (nodes ! j) = (if Suc j < n then Some (Suc j) else None)" and "k < n"
  shows "swap_chain nodes (Some k) [k..<n]"
  using assms(3)
proof (induction "n - k" arbitrary: k)
  case (Suc m)
  show ?case
  proof (cases "Suc k < n")
    case True
    then show ?thesis using Suc assms by (simp add: upt_conv_Cons)
  next
    case False
    then have "[k..<n] = [k]" using Suc.prems by (simp add: upt_conv_Cons)
    then show ?thesis using False Suc.prems assms by simp
  qed
qed simp

lemma swap_bootstrap_spec:
  assumes "length nodes = 1024"
  shows "\<exists>s'. swap_bootstrap (Some nodes) s = Some s' \<and> swap_list s' [0..<1024] \<and> length (pageList s') = 1024"
proof -
  obtain ns where ns: "swap_init_loop 0 (s\<lparr>pageList := nodes, freePages := Some 0\<rparr>) =
        Some (s\<lparr>freePages := Some 0, pageList := ns\<rparr>)" "length ns = 1024"
      "\<forall>j < 1023. ns ! j = \<lparr>sn_index = int j, sn_next = Some (Suc j)\<rparr>"
    using swap_init_loop_spec[of "s\<lparr>pageList := nodes, freePages := Some 0\<rparr>" 0] assms by auto
  let ?ns = "ns[1023 := \<lparr>sn_index = 1023, sn_next = None\<rparr>]"
  have at: "?ns ! j = \<lparr>sn_index = int j, sn_next = (if Suc j < 1024 then Some (Suc j) else None)\<rparr>" if "j < 1024" for j
    using that ns by (cases "j = 1023") (auto simp: nth_list_update)
  have "swap_chain ?ns (Some 0) [0..<1024]" by (rule swap_chain_upt) (use ns at in auto)
  with ns at show ?thesis by (simp add: swap_bootstrap_def swap_list_def)
qed

text \<open>The free list is a pool of numbers; the page written is any.\<close>

definition swap_alloc :: "swapsys \<Rightarrow> (nat \<times> swapsys) option" where
  "swap_alloc s = do { (n, s') \<leftarrow> swap_write [] s; Some (nat n, s') }"

interpretation swap_pool: free_pool swap_list swap_valid swap_alloc "\<lambda>x. swap_free_page (int x)"
proof
  fix s xs x
  show "distinct xs \<and> (\<forall>x \<in> set xs. swap_valid s x)" if "swap_list s xs"
    using that by (auto simp: swap_list_def swap_valid_def dest: swap_chain_valid)
  show "\<exists>s'. swap_alloc s = Some (x, s') \<and> swap_list s' xs \<and> swap_valid s' = swap_valid s" if "swap_list s (x # xs)"
    using swap_write_spec[OF that, of "[]"] by (auto simp: swap_alloc_def swap_valid_def fun_eq_iff)
  show "swap_alloc s = None" if "swap_list s []"
    using that by (simp add: swap_list_def swap_alloc_def swap_write_def)
  show "\<exists>s'. swap_free_page (int x) s = Some s' \<and> swap_list s' (x # xs) \<and> swap_valid s' = swap_valid s"
    if "swap_list s xs" "swap_valid s x" "x \<notin> set xs"
    using swap_release_spec[of s xs x] that by (auto simp: swap_valid_def fun_eq_iff)
qed

section \<open>Properties\<close>

text \<open>
  C20. After the swap file is set up, 1024 pages can be written, each to a different place; the next one is
  the panic "Out of swap space".
\<close>

theorem swap_capacity:
  assumes "length nodes = 1024"
  shows "\<exists>s0 s1 ns. swap_bootstrap (Some nodes) s = Some s0 \<and> alloc_n swap_alloc 1024 s0 = Some (ns, s1) \<and>
    distinct ns \<and> set ns = {..<1024} \<and> swap_alloc s1 = None"
proof -
  obtain s0 where s0: "swap_bootstrap (Some nodes) s = Some s0" "swap_list s0 [0..<1024]"
    using swap_bootstrap_spec[OF assms] by blast
  from swap_pool.alloc_all_distinct[OF s0(2)] s0(1) show ?thesis by (auto simp: atLeast0LessThan)
qed

theorem swap_capacity_witness:
  "\<exists>nodes s s0 s1 ns. length nodes = 1024 \<and> swap_bootstrap (Some nodes) s = Some s0 \<and>
     alloc_n swap_alloc 1024 s0 = Some (ns, s1) \<and> swap_alloc s1 = None"
proof -
  let ?nodes = "replicate 1024 \<lparr>sn_index = 0, sn_next = None\<rparr>"
  have len: "length ?nodes = 1024" by simp
  from swap_capacity[OF len, of "\<lparr>freePages = None, pageList = [], swapdisk = (\<lambda>_. [])\<rparr>"] len show ?thesis by blast
qed



end
