(* ===== verification/Vm_Coremap.thy ===== *)
theory Vm_Coremap
  imports Free_Pool
begin

text \<open>
  The core map (\<^verbatim>\<open>kern/vm/coremap.c\<close>): one \<open>cm_detail\<close> per physical frame, with the free frames in a
  doubly linked list. This theory holds the state, its initialisation, the list operations and the release
  of frames; what involves the pages in the frames, the clock algorithm, eviction and the allocation of
  kernel frames, is in \<^verbatim>\<open>Vm_Paging\<close>.

  A pointer to a \<open>cm_detail\<close> is its index in \<open>core_details\<close>. \<open>cd_pd\<close> refers to the page detail that
  lives in the frame by page table and index. The operations run with interrupts off, so that each is one
  step.
\<close>

section \<open>Model\<close>

datatype pdref = Pdref (pd_table: nat) (pd_index: nat)

record cm_detail =
  cd_id :: int
  cd_kern :: int
  cd_pd :: "pdref option"
  cd_next :: "nat option"
  cd_prev :: "nat option"
  cd_free :: bool

record coremap =
  cm_init :: bool
  cm_size :: int
  clock_pointer :: int
  lowest_frame :: int
  core_details :: "cm_detail list"
  free_frame_list :: "nat option"
  last_free :: "nat option"

definition upd_cd :: "nat \<Rightarrow> (cm_detail \<Rightarrow> cm_detail) \<Rightarrow> coremap \<Rightarrow> coremap option" where
  "upd_cd i f cm = (if i < length (core_details cm)
     then Some (cm\<lparr>core_details := (core_details cm)[i := f (core_details cm ! i)]\<rparr>) else None)"

definition get_cd :: "nat \<Rightarrow> coremap \<Rightarrow> cm_detail option" where
  "get_cd i cm = (if i < length (core_details cm) then Some (core_details cm ! i) else None)"

function cm_init_loop :: "int \<Rightarrow> coremap \<Rightarrow> coremap option" where
  "cm_init_loop i cm =
     (if i \<ge> lowest_frame cm then do {
        kassert (i \<ge> 0);
        cm' \<leftarrow> upd_cd (nat i) (\<lambda>_. \<lparr>cd_id = i, cd_kern = 0, cd_pd = None, cd_next = Some (nat (i - 1)),
                 cd_prev = Some (nat (i + 1)), cd_free = True\<rparr>) cm;
        cm_init_loop (i - 1) cm'
      } else Some cm)"
  by pat_completeness auto
termination
  by (relation "measure (\<lambda>(i, cm). nat (i - lowest_frame cm + 1))")
    (auto simp: upd_cd_def split: if_splits)

declare cm_init_loop.simps [simp del]

text \<open>
  \<open>ramsize\<close> is what \<^verbatim>\<open>mips_ramsize\<close> returns, \<open>low\<close> and \<open>high\<close> what \<^verbatim>\<open>ram_getsize\<close> sets, \<open>details\<close> the block
  \<^verbatim>\<open>kmalloc\<close> returns for the array. Interrupts are off, as the first \<^verbatim>\<open>assert\<close> of the code demands.
\<close>

definition cm_bootstrap :: "int \<Rightarrow> int \<Rightarrow> int \<Rightarrow> cm_detail list option \<Rightarrow> coremap \<Rightarrow> coremap option" where
  "cm_bootstrap ramsize low high details cm0 = do {
     kassert (\<not> cm_init cm0);
     kassert (high \<noteq> 0);
     block \<leftarrow> details;
     let cm1 = cm0\<lparr>cm_init := True, cm_size := ramsize div 4096, core_details := block,
                  lowest_frame := low div 4096, free_frame_list := Some (nat (ramsize div 4096 - 1))\<rparr>;
     cm2 \<leftarrow> cm_init_loop (cm_size cm1 - 1) cm1;
     cm3 \<leftarrow> upd_cd (nat (lowest_frame cm2)) (\<lambda>d. d\<lparr>cd_next := None\<rparr>) cm2;
     cm4 \<leftarrow> upd_cd (nat (cm_size cm3 - 1)) (\<lambda>d. d\<lparr>cd_prev := None\<rparr>) cm3;
     Some (cm4\<lparr>last_free := Some (nat (lowest_frame cm4))\<rparr>)
   }"

definition free_frame_list_add :: "nat \<Rightarrow> coremap \<Rightarrow> coremap option" where
  "free_frame_list_add new cm = do {
     cm1 \<leftarrow> (case free_frame_list cm of
        None \<Rightarrow> upd_cd new (\<lambda>d. d\<lparr>cd_next := None, cd_prev := None\<rparr>)
                  (cm\<lparr>free_frame_list := Some new, last_free := Some new\<rparr>)
      | Some f \<Rightarrow> do {
          c1 \<leftarrow> upd_cd new (\<lambda>d. d\<lparr>cd_next := Some f, cd_prev := None\<rparr>) cm;
          c2 \<leftarrow> upd_cd f (\<lambda>d. d\<lparr>cd_prev := Some new\<rparr>) c1;
          Some (c2\<lparr>free_frame_list := Some new\<rparr>)
        });
     upd_cd new (\<lambda>d. d\<lparr>cd_free := True, cd_kern := 0\<rparr>) cm1
   }"

definition free_frame_list_add_back :: "nat \<Rightarrow> coremap \<Rightarrow> coremap option" where
  "free_frame_list_add_back new cm = do {
     cm1 \<leftarrow> (case last_free cm of
        None \<Rightarrow> upd_cd new (\<lambda>d. d\<lparr>cd_next := None, cd_prev := None\<rparr>)
                  (cm\<lparr>free_frame_list := Some new, last_free := Some new\<rparr>)
      | Some l \<Rightarrow> do {
          c1 \<leftarrow> upd_cd new (\<lambda>d. d\<lparr>cd_prev := Some l, cd_next := None\<rparr>) cm;
          c2 \<leftarrow> upd_cd l (\<lambda>d. d\<lparr>cd_next := Some new\<rparr>) c1;
          Some (c2\<lparr>last_free := Some new\<rparr>)
        });
     upd_cd new (\<lambda>d. d\<lparr>cd_free := True, cd_kern := 0\<rparr>) cm1
   }"

definition free_frame_list_pop :: "coremap \<Rightarrow> (nat option \<times> coremap) option" where
  "free_frame_list_pop cm =
     (case free_frame_list cm of
        None \<Rightarrow> Some (None, cm)
      | Some retval \<Rightarrow> do {
          d \<leftarrow> get_cd retval cm;
          let c1 = cm\<lparr>free_frame_list := cd_next d\<rparr>;
          c2 \<leftarrow> (case free_frame_list c1 of
             None \<Rightarrow> Some (c1\<lparr>last_free := None\<rparr>)
           | Some f \<Rightarrow> upd_cd f (\<lambda>d. d\<lparr>cd_prev := None\<rparr>) c1);
          c3 \<leftarrow> upd_cd retval (\<lambda>d. d\<lparr>cd_kern := 1, cd_free := False\<rparr>) c2;
          Some (Some retval, c3)
        })"

definition free_frame_list_remove :: "nat \<Rightarrow> coremap \<Rightarrow> coremap option" where
  "free_frame_list_remove i cm = do {
     kassert (free_frame_list cm \<noteq> None \<and> last_free cm \<noteq> None);
     d \<leftarrow> get_cd i cm;
     cm1 \<leftarrow>
       (if free_frame_list cm = last_free cm then do {
          kassert (free_frame_list cm = Some i);
          Some (cm\<lparr>free_frame_list := None, last_free := None\<rparr>)
        }
        else if free_frame_list cm = Some i then do {
          f \<leftarrow> cd_next d;
          upd_cd f (\<lambda>d. d\<lparr>cd_prev := None\<rparr>) (cm\<lparr>free_frame_list := Some f\<rparr>)
        }
        else if last_free cm = Some i then do {
          l \<leftarrow> cd_prev d;
          upd_cd l (\<lambda>d. d\<lparr>cd_next := None\<rparr>) (cm\<lparr>last_free := Some l\<rparr>)
        }
        else do {
          p \<leftarrow> cd_prev d;
          c1 \<leftarrow> upd_cd p (\<lambda>e. e\<lparr>cd_next := cd_next d\<rparr>) cm;
          n \<leftarrow> cd_next d;
          upd_cd n (\<lambda>e. e\<lparr>cd_prev := cd_prev d\<rparr>) c1
        });
     upd_cd i (\<lambda>d. d\<lparr>cd_free := False, cd_kern := 1\<rparr>) cm1
   }"

definition clock_to_index :: "int \<Rightarrow> coremap \<Rightarrow> int" where
  "clock_to_index c cm = c + lowest_frame cm"

definition cm_release_frame :: "int \<Rightarrow> coremap \<Rightarrow> coremap option" where
  "cm_release_frame frame_number cm = do {
     kassert (frame_number \<ge> lowest_frame cm);
     kassert (frame_number \<ge> 0);
     free_frame_list_add (nat frame_number) cm
   }"

primrec release_kframes_loop :: "nat \<Rightarrow> int \<Rightarrow> int \<Rightarrow> coremap \<Rightarrow> coremap option" where
  "release_kframes_loop 0 i frame_number cm = Some cm"
| "release_kframes_loop (Suc n) i frame_number cm = do {
     kassert (i \<ge> 0);
     d \<leftarrow> get_cd (nat i) cm;
     kassert (cd_kern d \<noteq> 0);
     kassert (frame_number \<ge> lowest_frame cm);
     cm' \<leftarrow> free_frame_list_add_back (nat i) cm;
     release_kframes_loop n (i + 1) frame_number cm'
   }"

definition cm_release_kframes :: "int \<Rightarrow> coremap \<Rightarrow> coremap option" where
  "cm_release_kframes frame_number cm = do {
     kassert (frame_number \<ge> 0);
     d \<leftarrow> get_cd (nat frame_number) cm;
     kassert (cd_kern d \<noteq> 0);
     kassert (cd_kern d > 0);
     release_kframes_loop (nat (cd_kern d)) frame_number frame_number cm
   }"

section \<open>The doubly linked list\<close>

text \<open>
  \<open>seg c p xs n\<close>: the details \<open>c\<close> link the frames \<open>xs\<close> both ways, with \<open>p\<close> before the first
  and \<open>n\<close> behind the last.
\<close>

definition first_of :: "nat list \<Rightarrow> nat option \<Rightarrow> nat option" where
  "first_of xs n = (case xs of [] \<Rightarrow> n | x # _ \<Rightarrow> Some x)"

definition last_of :: "nat option \<Rightarrow> nat list \<Rightarrow> nat option" where
  "last_of p xs = (if xs = [] then p else Some (last xs))"

fun seg :: "cm_detail list \<Rightarrow> nat option \<Rightarrow> nat list \<Rightarrow> nat option \<Rightarrow> bool" where
  "seg c p [] n \<longleftrightarrow> True"
| "seg c p (x # xs) n \<longleftrightarrow> x < length c \<and> cd_prev (c ! x) = p \<and> cd_next (c ! x) = first_of xs n \<and> seg c (Some x) xs n"

lemma first_of_simps [simp]: "first_of [] n = n" "first_of (x # xs) n = Some x"
  by (simp_all add: first_of_def)

lemma last_of_simps [simp]: "last_of p [] = p" "last_of p (xs @ [x]) = Some x" "last_of p (x # xs) = last_of (Some x) xs"
  by (simp_all add: last_of_def)

lemma seg_append: "seg c p (xs @ ys) n \<longleftrightarrow> seg c p xs (first_of ys n) \<and> seg c (last_of p xs) ys n"
  by (induction xs arbitrary: p) (auto simp: first_of_def split: list.splits)

lemma seg_bound: "seg c p xs n \<Longrightarrow> x \<in> set xs \<Longrightarrow> x < length c"
  by (induction xs arbitrary: p) auto

text \<open>Changing a frame outside the list, or other fields of one inside, does not matter.\<close>

lemma seg_update:
  assumes "x \<notin> set xs \<or> (cd_next d = cd_next (c ! x) \<and> cd_prev d = cd_prev (c ! x))"
  shows "seg (c[x := d]) p xs n = seg c p xs n"
proof -
  have "cd_next (c[x := d] ! a) = cd_next (c ! a) \<and> cd_prev (c[x := d] ! a) = cd_prev (c ! a)" if "a \<in> set xs" for a
    using assms that by (cases "x < length c") (auto simp: nth_list_update list_update_beyond)
  then show ?thesis by (induction xs arbitrary: p) auto
qed

lemma seg_set_prev:
  assumes "seg c p (x # xs) n" and "x \<notin> set xs"
  shows "seg (c[x := (c ! x)\<lparr>cd_prev := q\<rparr>]) q (x # xs) n"
  using assms by (auto simp: seg_update)

lemma seg_set_next:
  assumes "seg c p (xs @ [x]) n" and "x \<notin> set xs"
  shows "seg (c[x := (c ! x)\<lparr>cd_next := m\<rparr>]) p (xs @ [x]) m"
  using assms by (auto simp: seg_append seg_update)

definition frame_list :: "coremap \<Rightarrow> nat list \<Rightarrow> bool" where
  "frame_list cm xs \<longleftrightarrow> distinct xs \<and> seg (core_details cm) None xs None \<and>
     free_frame_list cm = first_of xs None \<and> last_free cm = last_of None xs"

text \<open>The flags agree with the list.\<close>

definition free_flags :: "coremap \<Rightarrow> nat list \<Rightarrow> bool" where
  "free_flags cm xs \<longleftrightarrow> (\<forall>i < length (core_details cm). cd_free (core_details cm ! i) \<longleftrightarrow> i \<in> set xs)"

lemma first_last_None [simp]: "first_of xs None = None \<longleftrightarrow> xs = []" "last_of None xs = None \<longleftrightarrow> xs = []"
  by (auto simp: first_of_def last_of_def split: list.splits)

lemma first_of_Some: "first_of xs None = Some x \<longleftrightarrow> (\<exists>ys. xs = x # ys)"
  by (auto simp: first_of_def split: list.splits)

lemma last_of_Some_ex [simp]: "\<exists>y. last_of (Some x) xs = Some y"
  by (simp add: last_of_def)

lemma last_of_Some: "last_of None xs = Some x \<longleftrightarrow> (\<exists>ys. xs = ys @ [x])"
  by (auto simp: last_of_def) (metis append_butlast_last_id)

lemma frame_list_bound: "frame_list cm xs \<Longrightarrow> x \<in> set xs \<Longrightarrow> x < length (core_details cm)"
  by (auto simp: frame_list_def dest: seg_bound)

text \<open>What a list operation leaves alone.\<close>

definition same_frames :: "nat \<Rightarrow> coremap \<Rightarrow> coremap \<Rightarrow> bool" where
  "same_frames x cm cm' \<longleftrightarrow> length (core_details cm') = length (core_details cm) \<and> cm_init cm' = cm_init cm \<and>
     cm_size cm' = cm_size cm \<and> clock_pointer cm' = clock_pointer cm \<and> lowest_frame cm' = lowest_frame cm \<and>
     (\<forall>i < length (core_details cm). cd_id (core_details cm' ! i) = cd_id (core_details cm ! i) \<and>
        cd_pd (core_details cm' ! i) = cd_pd (core_details cm ! i) \<and>
        (i \<noteq> x \<longrightarrow> cd_kern (core_details cm' ! i) = cd_kern (core_details cm ! i) \<and>
                 cd_free (core_details cm' ! i) = cd_free (core_details cm ! i)))"

lemma free_frame_list_add_spec:
  assumes fl: "frame_list cm xs" and x: "x < length (core_details cm)" "x \<notin> set xs"
  shows "\<exists>cm'. free_frame_list_add x cm = Some cm' \<and> frame_list cm' (x # xs) \<and> same_frames x cm cm' \<and>
    cd_kern (core_details cm' ! x) = 0 \<and> cd_free (core_details cm' ! x)"
proof (cases xs)
  case Nil
  with fl x show ?thesis
    by (auto simp: free_frame_list_add_def frame_list_def upd_cd_def same_frames_def nth_list_update)
next
  case (Cons f ys)
  let ?c = "core_details cm"
  have f: "f < length ?c" "f \<noteq> x" "f \<notin> set ys" "free_frame_list cm = Some f" "last_free cm = last_of None xs"
    and s: "seg ?c None (f # ys) None" and d: "distinct xs"
    using fl x Cons by (auto simp: frame_list_def)
  let ?c1 = "?c[x := (?c ! x)\<lparr>cd_next := Some f, cd_prev := None\<rparr>]"
  let ?c2 = "?c1[f := (?c1 ! f)\<lparr>cd_prev := Some x\<rparr>]"
  let ?c3 = "?c2[x := (?c2 ! x)\<lparr>cd_free := True, cd_kern := 0\<rparr>]"
  have "seg ?c1 None (f # ys) None" using s x(2) Cons by (subst seg_update) auto
  then have "seg ?c2 (Some x) (f # ys) None" using seg_set_prev f(3) by blast
  then have "seg ?c3 (Some x) (f # ys) None" by (subst seg_update) auto
  moreover have "cd_next (?c3 ! x) = Some f" "cd_prev (?c3 ! x) = None" "x < length ?c3"
    using x f by (simp_all add: nth_list_update)
  ultimately have "seg ?c3 None (x # xs) None" unfolding Cons seg.simps(2)[of ?c3 None x] by simp
  moreover have "free_frame_list_add x cm = Some (cm\<lparr>core_details := ?c3, free_frame_list := Some x\<rparr>)"
    using f x by (simp add: free_frame_list_add_def upd_cd_def)
  ultimately show ?thesis using d f x Cons
    by (auto simp: frame_list_def same_frames_def nth_list_update)
qed

lemma free_frame_list_add_back_spec:
  assumes fl: "frame_list cm xs" and x: "x < length (core_details cm)" "x \<notin> set xs"
  shows "\<exists>cm'. free_frame_list_add_back x cm = Some cm' \<and> frame_list cm' (xs @ [x]) \<and> same_frames x cm cm' \<and>
    cd_kern (core_details cm' ! x) = 0 \<and> cd_free (core_details cm' ! x)"
proof (cases xs rule: rev_cases)
  case Nil
  with fl x show ?thesis
    by (auto simp: free_frame_list_add_back_def frame_list_def upd_cd_def same_frames_def nth_list_update)
next
  case (snoc ys l)
  let ?c = "core_details cm"
  have l: "l < length ?c" "l \<noteq> x" "l \<notin> set ys" "last_free cm = Some l" "free_frame_list cm = first_of xs None"
    and s: "seg ?c None (ys @ [l]) None" and d: "distinct xs"
    using fl x snoc by (auto simp: frame_list_def seg_append)
  let ?c1 = "?c[x := (?c ! x)\<lparr>cd_prev := Some l, cd_next := None\<rparr>]"
  let ?c2 = "?c1[l := (?c1 ! l)\<lparr>cd_next := Some x\<rparr>]"
  let ?c3 = "?c2[x := (?c2 ! x)\<lparr>cd_free := True, cd_kern := 0\<rparr>]"
  have "seg ?c1 None (ys @ [l]) None" using s x(2) snoc by (subst seg_update) auto
  then have "seg ?c2 None (ys @ [l]) (Some x)" using seg_set_next l(3) by blast
  then have "seg ?c3 None (ys @ [l]) (Some x)" by (subst seg_update) auto
  moreover have "seg ?c3 (Some l) [x] None" using x l by (simp add: nth_list_update)
  ultimately have "seg ?c3 None (xs @ [x]) None"
    unfolding snoc seg_append[of ?c3 None "ys @ [l]" "[x]"] first_of_simps last_of_simps by blast
  moreover have "free_frame_list_add_back x cm = Some (cm\<lparr>core_details := ?c3, last_free := Some x\<rparr>)"
    using l x by (simp add: free_frame_list_add_back_def upd_cd_def)
  moreover have "first_of (xs @ [x]) None = first_of xs None" using snoc by (cases ys) auto
  ultimately show ?thesis using d l x snoc
    by (auto simp: frame_list_def same_frames_def nth_list_update last_of_def)
qed

lemma free_frame_list_pop_spec:
  assumes fl: "frame_list cm (x # xs)"
  shows "\<exists>cm'. free_frame_list_pop cm = Some (Some x, cm') \<and> frame_list cm' xs \<and> same_frames x cm cm' \<and>
    cd_kern (core_details cm' ! x) = 1 \<and> \<not> cd_free (core_details cm' ! x)"
proof -
  let ?c = "core_details cm"
  have x: "x < length ?c" "x \<notin> set xs" "cd_next (?c ! x) = first_of xs None" "free_frame_list cm = Some x"
      "last_free cm = last_of (Some x) xs" and s: "seg ?c (Some x) xs None" and d: "distinct xs"
    using fl by (auto simp: frame_list_def)
  show ?thesis
  proof (cases xs)
    case Nil
    with x show ?thesis
      by (auto simp: free_frame_list_pop_def get_cd_def upd_cd_def frame_list_def same_frames_def nth_list_update)
  next
    case (Cons f ys)
    then have f: "f < length ?c" "f \<noteq> x" "f \<notin> set ys" using x s d by auto
    let ?c1 = "?c[f := (?c ! f)\<lparr>cd_prev := None\<rparr>]"
    let ?c2 = "?c1[x := (?c1 ! x)\<lparr>cd_kern := 1, cd_free := False\<rparr>]"
    have "seg ?c1 None xs None" using seg_set_prev[of ?c "Some x" f ys None None] s f Cons by simp
    then have "seg ?c2 None xs None" using x(2) by (subst seg_update) auto
    moreover have "free_frame_list_pop cm = Some (Some x, cm\<lparr>free_frame_list := Some f, core_details := ?c2\<rparr>)"
      using x f Cons by (simp add: free_frame_list_pop_def get_cd_def upd_cd_def)
    ultimately show ?thesis using d x f Cons
      by (auto simp: frame_list_def same_frames_def nth_list_update last_of_def)
  qed
qed

lemma free_frame_list_pop_empty: "frame_list cm [] \<Longrightarrow> free_frame_list_pop cm = Some (None, cm)"
  by (simp add: frame_list_def free_frame_list_pop_def)

text \<open>
  Removing a frame from anywhere in the list: the four branches of the code are the frame being alone,
  first, last, or in between.
\<close>

lemma seg_unlink:
  assumes s: "seg c None (us @ [p, x, n] @ vs) None" and d: "distinct (us @ [p, x, n] @ vs)"
  shows "seg (c[p := (c ! p)\<lparr>cd_next := Some n\<rparr>, n := (c ! n)\<lparr>cd_prev := Some p\<rparr>]) None (us @ [p, n] @ vs) None"
proof -
  let ?c1 = "c[p := (c ! p)\<lparr>cd_next := Some n\<rparr>]"
  let ?c2 = "?c1[n := (?c1 ! n)\<lparr>cd_prev := Some p\<rparr>]"
  have "seg c None (us @ [p]) (Some x)" "seg c (Some x) (n # vs) None"
    using s unfolding seg_append by auto
  then have "seg ?c1 None (us @ [p]) (Some n)" "seg ?c1 (Some x) (n # vs) None"
    using d by (auto intro!: seg_set_next simp: seg_update)
  then have "seg ?c2 None (us @ [p]) (Some n)" "seg ?c2 (Some p) (n # vs) None"
    using d seg_set_prev[of ?c1 "Some x" n vs None "Some p"] by (auto simp: seg_update)
  then have "seg ?c2 None ((us @ [p]) @ (n # vs)) None"
    unfolding seg_append[of ?c2 None "us @ [p]"] first_of_simps last_of_simps by blast
  moreover have "?c1 ! n = c ! n" using d by auto
  ultimately show ?thesis by simp
qed

lemma free_frame_list_remove_spec:
  assumes fl: "frame_list cm (xs @ x # ys)"
  shows "\<exists>cm'. free_frame_list_remove x cm = Some cm' \<and> frame_list cm' (xs @ ys) \<and> same_frames x cm cm' \<and>
    cd_kern (core_details cm' ! x) = 1 \<and> \<not> cd_free (core_details cm' ! x)"
proof -
  let ?c = "core_details cm"
  have s: "seg ?c None (xs @ x # ys) None" and d: "distinct (xs @ x # ys)"
    and ends: "free_frame_list cm = first_of (xs @ x # ys) None" "last_free cm = last_of None (xs @ x # ys)"
    using fl by (simp_all add: frame_list_def)
  have x: "x < length ?c" "cd_prev (?c ! x) = last_of None xs" "cd_next (?c ! x) = first_of ys None"
    using s by (simp_all add: seg_append)
  let ?flag = "\<lambda>c. c[x := (c ! x)\<lparr>cd_free := False, cd_kern := 1\<rparr>]"
  have flag: "seg (?flag c) p zs n = seg c p zs n" for c p zs n by (rule seg_update) simp
  show ?thesis
  proof (cases xs rule: rev_cases)
    case first: Nil
    show ?thesis
    proof (cases ys)
      case Nil
      with first x ends show ?thesis
        by (auto simp: free_frame_list_remove_def get_cd_def upd_cd_def frame_list_def same_frames_def
            nth_list_update last_of_def)
    next
      case (Cons f zs)
      let ?c1 = "?c[f := (?c ! f)\<lparr>cd_prev := None\<rparr>]"
      have f: "f \<noteq> x" "f \<notin> set zs" "x \<notin> set zs" "f < length ?c" "distinct zs" using d s first Cons by auto
      have ne: "last_of None (x # f # zs) \<noteq> Some x" using f by (auto simp: last_of_def)
      have "seg ?c1 None (f # zs) None" using seg_set_prev[of ?c "Some x" f zs None None] s f first Cons by simp
      then have "seg (?flag ?c1) None ys None" by (simp only: flag Cons)
      moreover have "free_frame_list_remove x cm = Some (cm\<lparr>free_frame_list := Some f, core_details := ?flag ?c1\<rparr>)"
        using x ends first Cons ne f by (auto simp: free_frame_list_remove_def get_cd_def upd_cd_def)
      ultimately show ?thesis using first Cons x ends f
        by (auto simp: frame_list_def same_frames_def nth_list_update)
    qed
  next
    case (snoc us p)
    have p: "p \<noteq> x" "p < length ?c" "p \<notin> set us" "distinct us" using d s snoc by (auto simp: seg_append)
    have nf: "first_of (xs @ x # ys) None \<noteq> Some x" using d snoc by (cases us) auto
    show ?thesis
    proof (cases ys)
      case Nil
      let ?c1 = "?c[p := (?c ! p)\<lparr>cd_next := None\<rparr>]"
      have "seg ?c None (us @ [p]) (Some x)" using s snoc Nil by (simp add: seg_append)
      then have "seg ?c1 None xs None" using seg_set_next[of ?c None us p "Some x" None] p snoc by simp
      then have "seg (?flag ?c1) None xs None" by (simp only: flag)
      moreover have ne: "free_frame_list cm \<noteq> last_free cm" "last_free cm = Some x" "free_frame_list cm \<noteq> None"
        using ends nf Nil by (auto simp: last_of_def)
      moreover have "free_frame_list_remove x cm = Some (cm\<lparr>last_free := Some p, core_details := ?flag ?c1\<rparr>)"
        using x ends nf ne snoc p by (auto simp: free_frame_list_remove_def get_cd_def upd_cd_def)
      moreover have "first_of (xs @ x # ys) None = first_of xs None" using snoc by (cases us) auto
      ultimately show ?thesis using snoc Nil x ends p d
        by (auto simp: frame_list_def same_frames_def nth_list_update)
    next
      case (Cons n zs)
      let ?c2 = "?c[p := (?c ! p)\<lparr>cd_next := Some n\<rparr>, n := (?c ! n)\<lparr>cd_prev := Some p\<rparr>]"
      have n: "n \<noteq> x" "n \<noteq> p" "n < length ?c" using d s snoc Cons by (auto simp: seg_append)
      have lst: "last_of None (xs @ x # ys) = last_of None ys" "last_of None ys \<noteq> Some x" "last_of None ys \<noteq> None"
        using d Cons by (auto simp: last_of_def)
      have fst: "first_of (xs @ x # ys) None = first_of xs None" "first_of (xs @ ys) None = first_of xs None"
        using snoc by (cases us; simp)+
      have ff: "first_of xs None \<noteq> last_of None ys"
      proof
        assume "first_of xs None = last_of None ys"
        moreover have "first_of xs None = Some (hd xs)" "hd xs \<in> set xs" using snoc by (cases us; simp)+
        moreover have "last_of None ys = Some (last ys)" "last ys \<in> set ys" using Cons by (simp_all add: last_of_def)
        ultimately show False using d by auto
      qed
      have "seg ?c2 None (xs @ ys) None"
        using seg_unlink[of ?c us p x n zs] s d snoc Cons by simp
      then have "seg (?flag ?c2) None (xs @ ys) None" by (simp only: flag)
      moreover have "free_frame_list_remove x cm = Some (cm\<lparr>core_details := ?flag ?c2\<rparr>)"
        using x ends fst lst ff nf snoc Cons p n
        by (auto simp: free_frame_list_remove_def get_cd_def upd_cd_def)
      moreover have "last_of None (xs @ ys) = last_of None ys" using Cons by (simp add: last_of_def)
      ultimately show ?thesis using x ends fst lst p n d snoc
        by (auto simp: frame_list_def same_frames_def nth_list_update)
    qed
  qed
qed

section \<open>Start and capacity\<close>

definition fresh_detail :: "int \<Rightarrow> cm_detail" where
  "fresh_detail i = \<lparr>cd_id = i, cd_kern = 0, cd_pd = None, cd_next = Some (nat (i - 1)), cd_prev = Some (nat (i + 1)),
     cd_free = True\<rparr>"

lemma cm_init_loop_spec:
  assumes "i < int (length (core_details cm))" and "0 \<le> lowest_frame cm"
  shows "\<exists>c. cm_init_loop i cm = Some (cm\<lparr>core_details := c\<rparr>) \<and> length c = length (core_details cm) \<and>
    (\<forall>j < length c. c ! j = (if lowest_frame cm \<le> int j \<and> int j \<le> i then fresh_detail (int j) else core_details cm ! j))"
  using assms
proof (induction "nat (i - lowest_frame cm + 1)" arbitrary: i cm)
  case 0
  then have "i < lowest_frame cm" by simp
  then show ?case by (intro exI[of _ "core_details cm"]) (auto simp: cm_init_loop.simps[of i])
next
  case (Suc n)
  then have i: "lowest_frame cm \<le> i" by simp
  let ?cm = "cm\<lparr>core_details := (core_details cm)[nat i := fresh_detail i]\<rparr>"
  have "n = nat ((i - 1) - lowest_frame ?cm + 1)" "i - 1 < int (length (core_details ?cm))" "0 \<le> lowest_frame ?cm"
    using Suc i by simp_all
  from Suc.hyps(1)[OF this] obtain c where c: "cm_init_loop (i - 1) ?cm = Some (cm\<lparr>core_details := c\<rparr>)"
      "length c = length (core_details cm)"
      "\<forall>j < length c. c ! j = (if lowest_frame cm \<le> int j \<and> int j \<le> i - 1 then fresh_detail (int j) else core_details ?cm ! j)"
    by auto
  have "nat i < length (core_details cm)" using i Suc.prems by linarith
  then have "cm_init_loop i cm = cm_init_loop (i - 1) ?cm"
    using i Suc.prems by (simp add: cm_init_loop.simps[of i] upd_cd_def fresh_detail_def)
  moreover have "\<forall>j < length c. c ! j = (if lowest_frame cm \<le> int j \<and> int j \<le> i then fresh_detail (int j) else core_details cm ! j)"
  proof (intro allI impI)
    fix j assume j: "j < length c"
    show "c ! j = (if lowest_frame cm \<le> int j \<and> int j \<le> i then fresh_detail (int j) else core_details cm ! j)"
      using c(2,3) j i Suc.prems by (cases "int j = i") auto
  qed
  ultimately show ?case using c(1,2) by auto
qed

lemma seg_downwards:
  assumes "lo \<le> hi" and "hi \<le> n" and "n \<le> length c"
    and "\<forall>j. lo \<le> j \<and> j < n \<longrightarrow> cd_next (c ! j) = (if j = lo then None else Some (j - 1)) \<and>
           cd_prev (c ! j) = (if Suc j = n then None else Some (Suc j))"
  shows "seg c (if hi = n then None else Some hi) (rev [lo..<hi]) None"
  using assms(1,2)
proof (induction hi)
  case (Suc hi)
  show ?case
  proof (cases "lo = Suc hi")
    case False
    then have lo: "lo \<le> hi" "hi < n" using Suc.prems by simp_all
    then have IH: "seg c (Some hi) (rev [lo..<hi]) None" using Suc.IH by simp
    have "first_of (rev [lo..<hi]) None = (if hi = lo then None else Some (hi - 1))"
      using lo by (cases hi) (auto simp: upt_Suc)
    with lo IH assms(3,4) show ?thesis by auto
  qed simp
qed simp

text \<open>The memory from \<open>low\<close> up to \<open>ramsize\<close>: every whole frame of it is in the list, the highest first.\<close>

lemma cm_bootstrap_spec:
  assumes "\<not> cm_init cm0" and "high \<noteq> 0" and "0 \<le> low" and "low div 4096 < ramsize div 4096"
    and "length block = nat (ramsize div 4096)"
  shows "\<exists>cm. cm_bootstrap ramsize low high (Some block) cm0 = Some cm \<and>
    frame_list cm (rev [nat (low div 4096)..<nat (ramsize div 4096)]) \<and>
    length (core_details cm) = nat (ramsize div 4096) \<and> lowest_frame cm = low div 4096 \<and> cm_size cm = ramsize div 4096 \<and>
    clock_pointer cm = clock_pointer cm0 \<and>
    (\<forall>i. nat (low div 4096) \<le> i \<and> i < nat (ramsize div 4096) \<longrightarrow> cd_id (core_details cm ! i) = int i \<and>
       cd_kern (core_details cm ! i) = 0 \<and> cd_free (core_details cm ! i))"
proof -
  define n where "n = nat (ramsize div 4096)"
  define lo where "lo = nat (low div 4096)"
  have n: "ramsize div 4096 = int n" "low div 4096 = int lo" "lo < n" "length block = n"
    using assms(3-5) by (auto simp: n_def lo_def)
  define cm1 where "cm1 = cm0\<lparr>cm_init := True, cm_size := int n, core_details := block, lowest_frame := int lo,
    free_frame_list := Some (n - 1)\<rparr>"
  obtain c where c: "cm_init_loop (int n - 1) cm1 = Some (cm1\<lparr>core_details := c\<rparr>)" "length c = n"
      "\<forall>j < n. c ! j = (if int lo \<le> int j \<and> int j \<le> int n - 1 then fresh_detail (int j) else core_details cm1 ! j)"
    using cm_init_loop_spec[of "int n - 1" cm1] n by (auto simp: cm1_def)
  let ?c1 = "c[lo := (c ! lo)\<lparr>cd_next := None\<rparr>]"
  let ?c2 = "?c1[n - 1 := (?c1 ! (n - 1))\<lparr>cd_prev := None\<rparr>]"
  have num: "nat (int n - 1) = n - 1" using n by simp
  have run: "cm_bootstrap ramsize low high (Some block) cm0 = Some (cm1\<lparr>core_details := ?c2, last_free := Some lo\<rparr>)"
    using assms(1,2) n c unfolding cm_bootstrap_def by (simp add: cm1_def num upd_cd_def)
  have at: "?c2 ! j = \<lparr>cd_id = int j, cd_kern = 0, cd_pd = None, cd_next = (if j = lo then None else Some (j - 1)),
      cd_prev = (if Suc j = n then None else Some (Suc j)), cd_free = True\<rparr>" if "lo \<le> j" "j < n" for j
    using that c n by (auto simp: nth_list_update fresh_detail_def nat_diff_distrib nat_add_distrib)
  have "seg ?c2 None (rev [lo..<n]) None"
    using seg_downwards[of lo n n ?c2] n c(2) at by simp
  moreover have "first_of (rev [lo..<n]) None = Some (n - 1)" using n(3) by (cases n) auto
  moreover have "last_of None (rev [lo..<n]) = Some lo" using n(3) by (simp add: last_of_def last_rev)
  ultimately have "frame_list (cm1\<lparr>core_details := ?c2, last_free := Some lo\<rparr>) (rev [lo..<n])"
    by (simp add: frame_list_def cm1_def)
  then show ?thesis unfolding run n_def[symmetric] lo_def[symmetric]
    using at c(2) n by (simp add: cm1_def)
qed

text \<open>The free frames are a pool of numbers.\<close>

definition frame_alloc :: "coremap \<Rightarrow> (nat \<times> coremap) option" where
  "frame_alloc cm = do { (r, cm') \<leftarrow> free_frame_list_pop cm; x \<leftarrow> r; Some (x, cm') }"

definition frame_valid :: "coremap \<Rightarrow> nat \<Rightarrow> bool" where
  "frame_valid cm x \<longleftrightarrow> x < length (core_details cm)"

lemma same_frames_valid: "same_frames x cm cm' \<Longrightarrow> frame_valid cm' = frame_valid cm"
  by (simp add: same_frames_def frame_valid_def fun_eq_iff)

interpretation frame_pool: free_pool frame_list frame_valid frame_alloc free_frame_list_add
proof
  fix s xs x
  show "distinct xs \<and> (\<forall>x \<in> set xs. frame_valid s x)" if "frame_list s xs"
    using that by (auto simp: frame_valid_def dest: frame_list_bound) (simp add: frame_list_def)
  show "\<exists>s'. frame_alloc s = Some (x, s') \<and> frame_list s' xs \<and> frame_valid s' = frame_valid s" if "frame_list s (x # xs)"
    using free_frame_list_pop_spec[OF that] same_frames_valid by (auto simp: frame_alloc_def)
  show "frame_alloc s = None" if "frame_list s []"
    using that by (simp add: frame_alloc_def free_frame_list_pop_empty)
  show "\<exists>s'. free_frame_list_add x s = Some s' \<and> frame_list s' (x # xs) \<and> frame_valid s' = frame_valid s"
    if "frame_list s xs" "frame_valid s x" "x \<notin> set xs"
    using free_frame_list_add_spec[of s xs x] that same_frames_valid by (auto simp: frame_valid_def)
qed

section \<open>Properties\<close>

text \<open>
  C21. After \<^verbatim>\<open>cm_bootstrap\<close> the free list holds each frame between the end of the kernel and the end of
  the memory exactly once: that many allocations return all of them, and the next one finds no frame.
\<close>

theorem frames_after_bootstrap:
  assumes "\<not> cm_init cm0" and "high \<noteq> 0" and "0 \<le> low" and "low div 4096 < ramsize div 4096"
    and "length block = nat (ramsize div 4096)"
  shows "\<exists>cm cm' fs. cm_bootstrap ramsize low high (Some block) cm0 = Some cm \<and>
    alloc_n frame_alloc (nat (ramsize div 4096) - nat (low div 4096)) cm = Some (fs, cm') \<and> distinct fs \<and>
    set fs = {nat (low div 4096)..<nat (ramsize div 4096)} \<and> free_frame_list_pop cm' = Some (None, cm')"
proof -
  obtain cm where cm: "cm_bootstrap ramsize low high (Some block) cm0 = Some cm"
      "frame_list cm (rev [nat (low div 4096)..<nat (ramsize div 4096)] @ [])"
    using cm_bootstrap_spec[OF assms] by auto
  then obtain cm' where "alloc_n frame_alloc (length (rev [nat (low div 4096)..<nat (ramsize div 4096)])) cm =
      Some (rev [nat (low div 4096)..<nat (ramsize div 4096)], cm')" "frame_list cm' []"
    using frame_pool.alloc_n_free by blast
  with cm(1) show ?thesis by (simp add: free_frame_list_pop_empty)
qed

theorem frames_after_bootstrap_witness:
  "\<exists>block cm0 cm cm' fs. cm_bootstrap 32768 12288 32768 (Some block) cm0 = Some cm \<and>
     alloc_n frame_alloc 5 cm = Some (fs, cm') \<and> set fs = {3..<8} \<and> free_frame_list_pop cm' = Some (None, cm')"
proof -
  let ?cm0 = "\<lparr>cm_init = False, cm_size = 0, clock_pointer = 0, lowest_frame = 0, core_details = [],
    free_frame_list = None, last_free = None\<rparr>"
  let ?block = "replicate 8 (fresh_detail 0)"
  have "\<exists>cm cm' fs. cm_bootstrap 32768 12288 32768 (Some ?block) ?cm0 = Some cm \<and>
      alloc_n frame_alloc 5 cm = Some (fs, cm') \<and> set fs = {3..<8} \<and> free_frame_list_pop cm' = Some (None, cm')"
    using frames_after_bootstrap[of ?cm0 32768 12288 32768 ?block] by auto
  then show ?thesis by blast
qed

text \<open>
  C22. \<^verbatim>\<open>free_frame_list_remove\<close> takes exactly the one frame out of the list, wherever it is, leaves the order of
  the others, marks it as a kernel frame and changes no other frame's marks.
\<close>

theorem free_frame_list_remove_correct:
  assumes "frame_list cm (xs @ x # ys)"
  shows "\<exists>cm'. free_frame_list_remove x cm = Some cm' \<and> frame_list cm' (xs @ ys) \<and> same_frames x cm cm' \<and>
    cd_kern (core_details cm' ! x) = 1 \<and> \<not> cd_free (core_details cm' ! x)"
  by (rule free_frame_list_remove_spec[OF assms])

theorem free_frame_list_remove_correct_witness:
  "\<exists>cm cm'. frame_list cm [0, 1, 2] \<and> free_frame_list_remove 1 cm = Some cm' \<and> frame_list cm' [0, 2]"
proof -
  let ?cm = "\<lparr>cm_init = True, cm_size = 3, clock_pointer = 0, lowest_frame = 0, core_details =
      [(fresh_detail 0)\<lparr>cd_next := Some 1, cd_prev := None\<rparr>, (fresh_detail 1)\<lparr>cd_next := Some 2, cd_prev := Some 0\<rparr>,
       (fresh_detail 2)\<lparr>cd_next := None, cd_prev := Some 1\<rparr>],
    free_frame_list = Some 0, last_free = Some 2\<rparr>"
  have "frame_list ?cm ([0] @ 1 # [2])" by (simp add: frame_list_def last_of_def)
  from free_frame_list_remove_correct[OF this] this show ?thesis by auto
qed

end
