(* ===== verification/Uio.thy ===== *)
theory Uio
  imports Libc_Memory
begin

text \<open>
  Copying between kernel buffers and the memory an I/O request names: \<^verbatim>\<open>kern/userprog/uio.c\<close> and
  \<^verbatim>\<open>kern/lib/copyinout.c\<close>.

  \<open>um_bytes\<close> is the memory by address, \<open>um_ok\<close> says which addresses can be accessed: an access to another
  one is a fault, which \<^verbatim>\<open>copyfail\<close> turns into \<open>EFAULT\<close> for user addresses and which stops the kernel for its
  own. \<open>um_space\<close> is the address space of the current thread. The kernel's own buffer is a separate
  block, a list. The enumerations have no other values than their constructors, so the panics about
  invalid ones are not reachable and not in the model.
\<close>

section \<open>Model\<close>

record umem =
  um_bytes :: "int \<Rightarrow> 8 word"
  um_ok :: "int \<Rightarrow> bool"
  um_space :: "nat option"

definition read_bytes :: "int \<Rightarrow> nat \<Rightarrow> (int \<Rightarrow> 8 word) \<Rightarrow> 8 word list" where
  "read_bytes a n m = map (\<lambda>k. m (a + int k)) [0..<n]"

definition write_bytes :: "int \<Rightarrow> 8 word list \<Rightarrow> (int \<Rightarrow> 8 word) \<Rightarrow> (int \<Rightarrow> 8 word)" where
  "write_bytes a xs m = (\<lambda>i. if a \<le> i \<and> i < a + int (length xs) then xs ! nat (i - a) else m i)"

text \<open>How many of the \<open>n\<close> bytes from \<open>a\<close> on are accessed before the first fault.\<close>

primrec ok_prefix :: "(int \<Rightarrow> bool) \<Rightarrow> int \<Rightarrow> nat \<Rightarrow> nat" where
  "ok_prefix ok a 0 = 0"
| "ok_prefix ok a (Suc n) = (if ok a then Suc (ok_prefix ok (a + 1) n) else 0)"

definition USERTOP :: int where
  "USERTOP = 2147483648"

definition copycheck :: "int \<Rightarrow> int \<Rightarrow> errno \<times> int" where
  "copycheck userptr len =
     (let bot = userptr; top = u32 (bot + len - 1) in
      if top < bot then (EFAULT, len)
      else if bot \<ge> USERTOP then (EFAULT, len)
      else if top \<ge> USERTOP then (OK, USERTOP - bot)
      else (OK, len))"

text \<open>\<open>copyin\<close> returns the bytes it has stored at the start of its destination, also when it fails.\<close>

definition copyin :: "int \<Rightarrow> int \<Rightarrow> umem \<Rightarrow> errno \<times> 8 word list" where
  "copyin usersrc len mem =
     (case copycheck usersrc len of (result, stoplen) \<Rightarrow>
        if result \<noteq> OK then (result, [])
        else if stoplen \<noteq> len then (EFAULT, [])
        else (let k = ok_prefix (um_ok mem) usersrc (nat len) in
              (if k < nat len then EFAULT else OK, read_bytes usersrc k (um_bytes mem))))"

definition copyout :: "8 word list \<Rightarrow> int \<Rightarrow> umem \<Rightarrow> errno \<times> umem" where
  "copyout src userdest mem =
     (case copycheck userdest (int (length src)) of (result, stoplen) \<Rightarrow>
        if result \<noteq> OK then (result, mem)
        else if stoplen \<noteq> int (length src) then (EFAULT, mem)
        else (let k = ok_prefix (um_ok mem) userdest (length src) in
              (if k < length src then EFAULT else OK,
               mem\<lparr>um_bytes := write_bytes userdest (take k src) (um_bytes mem)\<rparr>)))"

text \<open>
  \<open>src i\<close> is what the load of \<open>src[i]\<close> gives, \<open>None\<close> if it faults; the result is the error, the bytes
  stored from \<^verbatim>\<open>dest\<close> on, and the length found.
\<close>

function copystr_from :: "(int \<Rightarrow> 8 word option) \<Rightarrow> int \<Rightarrow> int \<Rightarrow> int \<Rightarrow> 8 word list \<Rightarrow> errno \<times> 8 word list \<times> int option" where
  "copystr_from src i maxlen stoplen dest =
     (if i < maxlen \<and> i < stoplen
      then (case src i of
              None \<Rightarrow> (EFAULT, dest, None)
            | Some c \<Rightarrow> (if c = 0 then (OK, dest @ [c], Some (i + 1))
                        else copystr_from src (i + 1) maxlen stoplen (dest @ [c])))
      else if stoplen < maxlen then (EFAULT, dest, None)
      else (ENAMETOOLONG, dest, None))"
  by pat_completeness auto
termination
  by (relation "measure (\<lambda>(src, i, maxlen, stoplen, dest). nat (maxlen - i))") auto

declare copystr_from.simps [simp del]

definition copystr :: "(int \<Rightarrow> 8 word option) \<Rightarrow> int \<Rightarrow> int \<Rightarrow> errno \<times> 8 word list \<times> int option" where
  "copystr src maxlen stoplen = copystr_from src 0 maxlen stoplen []"

definition copyinstr :: "int \<Rightarrow> int \<Rightarrow> umem \<Rightarrow> errno \<times> 8 word list \<times> int option" where
  "copyinstr usersrc len mem =
     (case copycheck usersrc len of (result, stoplen) \<Rightarrow>
        if result \<noteq> OK then (result, [], None)
        else copystr (\<lambda>i. if um_ok mem (usersrc + i) then Some (um_bytes mem (usersrc + i)) else None) len stoplen)"

text \<open>
  Going out, the faults are those of the stores: the string is copied up to the first address that
  cannot be written.
\<close>

definition copyoutstr :: "8 word list \<Rightarrow> int \<Rightarrow> int \<Rightarrow> umem \<Rightarrow> (errno \<times> umem \<times> int option) option" where
  "copyoutstr src userdest len mem =
     (case copycheck userdest len of (result, stoplen) \<Rightarrow>
        if result \<noteq> OK then Some (result, mem, None)
        else if 0 \<notin> set src then None
        else (case copystr (\<lambda>i. if um_ok mem (userdest + i) then Some (src ! nat i) else None) len stoplen of
                (r, stored, got) \<Rightarrow> Some (r, mem\<lparr>um_bytes := write_bytes userdest stored (um_bytes mem)\<rparr>, got)))"

datatype uio_rw = UIO_READ | UIO_WRITE

datatype uio_seg = UIO_USERSPACE | UIO_SYSSPACE | UIO_USERISPACE

record uio =
  iov_base :: int
  iov_len :: int
  uio_offset :: int
  uio_resid :: int
  uio_segflg :: uio_seg
  uio_rw :: uio_rw
  uio_space :: "nat option"

text \<open>One transfer of \<open>sz\<close> bytes, in the direction and to the kind of memory the request names.\<close>

definition uio_transfer :: "8 word list \<Rightarrow> nat \<Rightarrow> int \<Rightarrow> uio \<Rightarrow> umem \<Rightarrow> (errno \<times> 8 word list \<times> umem) option" where
  "uio_transfer buf pos sz u mem = do {
     kassert (int pos + sz \<le> int (length buf));
     (case uio_segflg u of
        UIO_SYSSPACE \<Rightarrow> do {
          kassert (ok_prefix (um_ok mem) (iov_base u) (nat sz) = nat sz);
          if uio_rw u = UIO_READ
          then Some (OK, buf, mem\<lparr>um_bytes := write_bytes (iov_base u) (take (nat sz) (drop pos buf)) (um_bytes mem)\<rparr>)
          else Some (OK, put buf pos (read_bytes (iov_base u) (nat sz) (um_bytes mem)), mem)
        }
      | _ \<Rightarrow>
          if uio_rw u = UIO_READ
          then (case copyout (take (nat sz) (drop pos buf)) (iov_base u) mem of (r, mem') \<Rightarrow> Some (r, buf, mem'))
          else (case copyin (iov_base u) sz mem of (r, bytes) \<Rightarrow> Some (r, put buf pos bytes, mem)))
   }"

definition uio_advance :: "int \<Rightarrow> uio \<Rightarrow> uio" where
  "uio_advance sz u = u\<lparr>iov_base := iov_base u + sz, iov_len := u32 (iov_len u - sz),
     uio_resid := u32 (uio_resid u - sz), uio_offset := s32 (uio_offset u + sz)\<rparr>"

function uiomove_loop :: "8 word list \<Rightarrow> nat \<Rightarrow> int \<Rightarrow> uio \<Rightarrow> umem \<Rightarrow> (errno \<times> 8 word list \<times> uio \<times> umem) option" where
  "uiomove_loop buf pos n u mem =
     (if n > 0 \<and> uio_resid u > 0 then
        (let sz = (if iov_len u > n then n else iov_len u) in
         if sz \<le> 0 then None
         else (case uio_transfer buf pos sz u mem of
                 None \<Rightarrow> None
               | Some (result, buf', mem') \<Rightarrow>
                   if result \<noteq> OK then Some (result, buf', u, mem')
                   else uiomove_loop buf' (pos + nat sz) (n - sz) (uio_advance sz u) mem'))
      else Some (OK, buf, u, mem))"
  by pat_completeness auto
termination
  by (relation "measure (\<lambda>(buf, pos, n, u, mem). nat n)") auto

declare uiomove_loop.simps [simp del]

definition uiomove :: "8 word list \<Rightarrow> int \<Rightarrow> uio \<Rightarrow> umem \<Rightarrow> (errno \<times> 8 word list \<times> uio \<times> umem) option" where
  "uiomove buf n u mem = do {
     kassert (if uio_segflg u = UIO_SYSSPACE then uio_space u = None else uio_space u = um_space mem);
     uiomove_loop buf 0 n u mem
   }"

function uiomovezeros_loop :: "int \<Rightarrow> uio \<Rightarrow> umem \<Rightarrow> (errno \<times> uio \<times> umem) option" where
  "uiomovezeros_loop n u mem =
     (if n > 0 then
        (let amt = (if 16 > n then n else 16) in
         case uiomove (replicate 16 0) amt u mem of
           None \<Rightarrow> None
         | Some (result, _, u', mem') \<Rightarrow>
             if result \<noteq> OK then Some (result, u', mem') else uiomovezeros_loop (n - amt) u' mem')
      else Some (OK, u, mem))"
  by pat_completeness auto
termination
  by (relation "measure (\<lambda>(n, u, mem). nat n)") (auto split: if_splits)

declare uiomovezeros_loop.simps [simp del]

definition uiomovezeros :: "int \<Rightarrow> uio \<Rightarrow> umem \<Rightarrow> (errno \<times> uio \<times> umem) option" where
  "uiomovezeros n u mem = do { kassert (uio_rw u = UIO_READ); uiomovezeros_loop n u mem }"

definition mk_kuio :: "int \<Rightarrow> int \<Rightarrow> int \<Rightarrow> uio_rw \<Rightarrow> uio" where
  "mk_kuio kbuf len pos rw = \<lparr>iov_base = kbuf, iov_len = len, uio_offset = pos, uio_resid = len,
     uio_segflg = UIO_SYSSPACE, uio_rw = rw, uio_space = None\<rparr>"

section \<open>What a transfer does\<close>

lemma length_read_bytes [simp]: "length (read_bytes a n m) = n"
  by (simp add: read_bytes_def)

lemma nth_read_bytes [simp]: "k < n \<Longrightarrow> read_bytes a n m ! k = m (a + int k)"
  by (simp add: read_bytes_def)

lemma write_bytes_Nil [simp]: "write_bytes a [] m = m"
  by (rule ext) (auto simp: write_bytes_def)

lemma read_write_bytes [simp]: "read_bytes a (length xs) (write_bytes a xs m) = xs"
  by (rule nth_equalityI) (auto simp: write_bytes_def)

lemma write_bytes_other: "i < a \<or> a + int (length xs) \<le> i \<Longrightarrow> write_bytes a xs m i = m i"
  by (auto simp: write_bytes_def)

lemma read_write_disjoint:
  "b + int n \<le> a \<or> a + int (length xs) \<le> b \<Longrightarrow> read_bytes b n (write_bytes a xs m) = read_bytes b n m"
  by (rule nth_equalityI) (auto simp: write_bytes_def)

lemma write_bytes_append:
  "write_bytes (a + int (length xs)) ys (write_bytes a xs m) = write_bytes a (xs @ ys) m"
proof (rule ext)
  fix i
  have "nat (i - a) - length xs = nat (i - (a + int (length xs)))" if "a + int (length xs) \<le> i" using that by simp
  then show "write_bytes (a + int (length xs)) ys (write_bytes a xs m) i = write_bytes a (xs @ ys) m i"
    by (auto simp: write_bytes_def nth_append)
qed

lemma ok_prefix_all: "ok_prefix ok a n = n \<longleftrightarrow> (\<forall>i. a \<le> i \<and> i < a + int n \<longrightarrow> ok i)"
proof (induction n arbitrary: a)
  case (Suc n)
  have "i = a \<or> a + 1 \<le> i \<and> i < (a + 1) + int n" if "a \<le> i" "i < a + int (Suc n)" for i
    using that by auto
  then have "(\<forall>i. a \<le> i \<and> i < a + int (Suc n) \<longrightarrow> ok i) \<longleftrightarrow> ok a \<and> (\<forall>i. a + 1 \<le> i \<and> i < (a + 1) + int n \<longrightarrow> ok i)"
    by fastforce
  then show ?case using Suc by auto
qed auto

lemma copycheck_user:
  assumes "0 \<le> p" and "0 < len" and "p + len \<le> USERTOP"
  shows "copycheck p len = (OK, len)"
  using assms by (simp add: copycheck_def USERTOP_def Let_def)

text \<open>
  \<open>uio_fits u mem c\<close>: \<open>c\<close> more bytes can be moved: both the request and its buffer have room for them, the addresses can
  be accessed, and the address space is the current one. \<open>uio_wf\<close>: that holds for all of the request.
\<close>

definition uio_fits :: "uio \<Rightarrow> umem \<Rightarrow> int \<Rightarrow> bool" where
  "uio_fits u mem c \<longleftrightarrow> - 2147483648 \<le> uio_offset u \<and> uio_offset u < 2147483648 \<and> 0 \<le> c \<and> c \<le> uio_resid u \<and> uio_resid u < 2147483648 \<and>
     c \<le> iov_len u \<and> iov_len u < 2147483648 \<and> (\<forall>i. iov_base u \<le> i \<and> i < iov_base u + c \<longrightarrow> um_ok mem i) \<and>
     (if uio_segflg u = UIO_SYSSPACE then uio_space u = None
      else uio_space u = um_space mem \<and> 0 \<le> iov_base u \<and> iov_base u + c \<le> USERTOP)"

definition uio_wf :: "uio \<Rightarrow> umem \<Rightarrow> bool" where
  "uio_wf u mem \<longleftrightarrow> uio_fits u mem (uio_resid u)"

lemma uio_fits_advance:
  assumes "uio_fits u mem c" and "0 \<le> k" and "k \<le> c"
  shows "uio_fits (uio_advance k u) (mem\<lparr>um_bytes := b\<rparr>) (c - k)"
  using assms s32_lower[of "uio_offset u + k"] s32_upper[of "uio_offset u + k"] by (auto simp: uio_fits_def uio_advance_def)

lemma uio_transfer_spec:
  assumes fits: "uio_fits u mem c" and k: "0 < k" "k \<le> c" and len: "int pos + k \<le> int (length buf)"
  shows "uio_transfer buf pos k u mem =
    (if uio_rw u = UIO_READ
     then Some (OK, buf, mem\<lparr>um_bytes := write_bytes (iov_base u) (take (nat k) (drop pos buf)) (um_bytes mem)\<rparr>)
     else Some (OK, put buf pos (read_bytes (iov_base u) (nat k) (um_bytes mem)), mem))"
proof -
  have ok: "ok_prefix (um_ok mem) (iov_base u) (nat k) = nat k"
    using fits k by (auto simp: ok_prefix_all uio_fits_def)
  have n: "length (take (nat k) (drop pos buf)) = nat k" using len k by auto
  have "copycheck (iov_base u) k = (OK, k)" if "uio_segflg u \<noteq> UIO_SYSSPACE"
    using fits k that by (intro copycheck_user) (auto simp: uio_fits_def)
  then show ?thesis using ok n len k
    by (cases "uio_segflg u") (auto simp: uio_transfer_def copyin_def copyout_def)
qed

lemma uiomove_spec:
  assumes fits: "uio_fits u mem c" and n: "0 \<le> n" "n \<le> c \<or> c = uio_resid u \<and> iov_len u = uio_resid u"
    and k: "k = min n c" "k \<le> int (length buf)"
  shows "uiomove buf n u mem =
    (if uio_rw u = UIO_READ
     then Some (OK, buf, uio_advance k u, mem\<lparr>um_bytes := write_bytes (iov_base u) (take (nat k) buf) (um_bytes mem)\<rparr>)
     else Some (OK, put buf 0 (read_bytes (iov_base u) (nat k) (um_bytes mem)), uio_advance k u, mem))"
proof -
  have start: "uiomove buf n u mem = uiomove_loop buf 0 n u mem" using fits by (auto simp: uiomove_def uio_fits_def)
  show ?thesis
  proof (cases "k = 0")
    case True
    then have stop: "n \<le> 0 \<or> uio_resid u \<le> 0" using n k fits by (auto simp: uio_fits_def)
    have "uio_advance 0 u = u" using fits by (simp add: uio_advance_def uio_fits_def)
    moreover have "read_bytes (iov_base u) 0 (um_bytes mem) = []" by (simp add: read_bytes_def)
    ultimately show ?thesis using True start uiomove_loop.simps[of buf 0 n u mem] stop by auto
  next
    case False
    then have pos: "0 < k" "0 < n" "0 < uio_resid u" "k \<le> c" using n k fits by (auto simp: uio_fits_def)
    have sz: "(if iov_len u > n then n else iov_len u) = k" using n k fits pos by (auto simp: uio_fits_def)
    have fin: "uiomove_loop b p (n - k) (uio_advance k u) m = Some (OK, b, uio_advance k u, m)" for b p m
    proof -
      have "n - k \<le> 0 \<or> uio_resid (uio_advance k u) \<le> 0" using n k by (auto simp: uio_advance_def u32_def min_def)
      then show ?thesis using uiomove_loop.simps[of b p "n - k" "uio_advance k u" m] by auto
    qed
    have "uio_transfer buf 0 k u mem =
      (if uio_rw u = UIO_READ
       then Some (OK, buf, mem\<lparr>um_bytes := write_bytes (iov_base u) (take (nat k) (drop 0 buf)) (um_bytes mem)\<rparr>)
       else Some (OK, put buf 0 (read_bytes (iov_base u) (nat k) (um_bytes mem)), mem))"
      using uio_transfer_spec[OF fits pos(1,4), of 0 buf] k(2) by simp
    then show ?thesis using start uiomove_loop.simps[of buf 0 n u mem] pos sz fin by (simp add: Let_def)
  qed
qed

lemma uio_advance_add:
  "0 \<le> j \<Longrightarrow> 0 \<le> k \<Longrightarrow> uio_advance k (uio_advance j u) = uio_advance (j + k) u"
  by (simp add: uio_advance_def u32_def s32_def mod_simps algebra_simps)

lemma uio_advance_0: "uio_fits u mem c \<Longrightarrow> uio_advance 0 u = u"
  by (simp add: uio_advance_def uio_fits_def)

lemma uiomovezeros_spec:
  assumes "uio_fits u mem n" and "uio_rw u = UIO_READ"
  shows "uiomovezeros n u mem =
    Some (OK, uio_advance n u, mem\<lparr>um_bytes := write_bytes (iov_base u) (replicate (nat n) 0) (um_bytes mem)\<rparr>)"
proof -
  have "uiomovezeros_loop n u mem =
    Some (OK, uio_advance n u, mem\<lparr>um_bytes := write_bytes (iov_base u) (replicate (nat n) 0) (um_bytes mem)\<rparr>)"
    using assms
  proof (induction "nat n" arbitrary: n u mem rule: less_induct)
    case less
    show ?case
    proof (cases "n = 0")
      case True
      then show ?thesis using uio_advance_0 less.prems by (auto simp: uiomovezeros_loop.simps[of 0])
    next
      case False
      define amt where "amt = (if 16 > n then n else 16)"
      have amt: "0 < amt" "amt \<le> n" "amt \<le> 16" using False less.prems by (auto simp: amt_def uio_fits_def)
      let ?m = "mem\<lparr>um_bytes := write_bytes (iov_base u) (replicate (nat amt) 0) (um_bytes mem)\<rparr>"
      have step: "uiomove (replicate 16 0) amt u mem = Some (OK, replicate 16 0, uio_advance amt u, ?m)"
        using uiomove_spec[of u mem n amt amt "replicate 16 0"] less.prems amt by (simp add: min_def)
      have wf': "uio_fits (uio_advance amt u) ?m (n - amt)" using uio_fits_advance less.prems amt by auto
      have adv: "uio_rw (uio_advance amt u) = UIO_READ" "iov_base (uio_advance amt u) = iov_base u + amt"
        using less.prems amt by (auto simp: uio_advance_def)
      have "uiomovezeros_loop (n - amt) (uio_advance amt u) ?m = Some (OK, uio_advance (n - amt) (uio_advance amt u),
          ?m\<lparr>um_bytes := write_bytes (iov_base u + amt) (replicate (nat (n - amt)) 0) (um_bytes ?m)\<rparr>)"
        using less.hyps[OF _ wf' adv(1)] amt adv by simp
      moreover have "write_bytes (iov_base u + amt) (replicate (nat (n - amt)) 0)
          (write_bytes (iov_base u) (replicate (nat amt) 0) (um_bytes mem)) =
          write_bytes (iov_base u) (replicate (nat n) 0) (um_bytes mem)"
        using write_bytes_append[of "iov_base u" "replicate (nat amt) 0" "replicate (nat (n - amt)) 0" "um_bytes mem"] amt
        by (simp add: replicate_add[symmetric] nat_add_distrib[symmetric])
      ultimately show ?thesis
        using step amt False uio_advance_add[of amt "n - amt" u] less.prems
        by (subst uiomovezeros_loop.simps) (simp add: amt_def[symmetric] Let_def)
    qed
  qed
  then show ?thesis using assms(2) by (simp add: uiomovezeros_def)
qed

section \<open>Properties\<close>

text \<open>
  C30. \<^verbatim>\<open>uiomove\<close> transfers as many bytes as both sides allow, between the kernel buffer and the memory of the
  request, user or kernel: reading stores the first bytes of the buffer there and touches nothing else,
  writing fetches them; offset, remaining count and remaining buffer advance by that number, so that
  calls in sequence continue where the last one stopped.
\<close>

theorem uiomove_correct:
  assumes "uio_wf u mem" and "iov_len u = uio_resid u" and "0 \<le> n" and "n \<le> int (length buf)"
  shows "\<exists>buf' u' mem'. uiomove buf n u mem = Some (OK, buf', u', mem') \<and> uio_wf u' mem' \<and> iov_len u' = uio_resid u' \<and>
    uio_resid u' = uio_resid u - min n (uio_resid u) \<and> iov_base u' = iov_base u + min n (uio_resid u) \<and>
    uio_offset u' = s32 (uio_offset u + min n (uio_resid u)) \<and>
    (if uio_rw u = UIO_READ
     then buf' = buf \<and> um_bytes mem' = write_bytes (iov_base u) (take (nat (min n (uio_resid u))) buf) (um_bytes mem)
     else mem' = mem \<and> buf' = put buf 0 (read_bytes (iov_base u) (nat (min n (uio_resid u))) (um_bytes mem)))"
proof -
  define k where "k = min n (uio_resid u)"
  have fits: "uio_fits u mem (uio_resid u)" using assms(1) by (simp add: uio_wf_def)
  have k: "0 \<le> k" "k \<le> uio_resid u" "k \<le> int (length buf)" using assms fits by (auto simp: k_def uio_fits_def)
  have fields: "iov_len (uio_advance k u) = uio_resid (uio_advance k u)" "uio_resid (uio_advance k u) = uio_resid u - k"
      "iov_base (uio_advance k u) = iov_base u + k" "uio_offset (uio_advance k u) = s32 (uio_offset u + k)"
    using assms(2) fits k by (auto simp: uio_advance_def uio_fits_def)
  have wf: "uio_wf (uio_advance k u) (mem\<lparr>um_bytes := b\<rparr>)" for b
    using uio_fits_advance[OF fits k(1,2)] fields(2) by (simp add: uio_wf_def)
  have run: "uiomove buf n u mem =
    (if uio_rw u = UIO_READ
     then Some (OK, buf, uio_advance k u, mem\<lparr>um_bytes := write_bytes (iov_base u) (take (nat k) buf) (um_bytes mem)\<rparr>)
     else Some (OK, put buf 0 (read_bytes (iov_base u) (nat k) (um_bytes mem)), uio_advance k u, mem))"
    using uiomove_spec[OF fits, of n k buf] assms k k_def by simp
  show ?thesis unfolding k_def[symmetric] using run wf wf[of "um_bytes mem"] fields by auto
qed

theorem uiomove_correct_witness:
  "\<exists>u mem buf' u' mem'. uiomove [1, 2, 3] 3 u mem = Some (OK, buf', u', mem') \<and> uio_resid u' = 1 \<and> um_bytes mem' 4097 = 2"
proof -
  let ?u = "\<lparr>iov_base = 4096, iov_len = 4, uio_offset = 0, uio_resid = 4, uio_segflg = UIO_USERSPACE, uio_rw = UIO_READ,
    uio_space = Some 7\<rparr>"
  let ?mem = "\<lparr>um_bytes = (\<lambda>_. 0), um_ok = (\<lambda>i. True), um_space = Some 7\<rparr>"
  have "uio_wf ?u ?mem" by (simp add: uio_wf_def uio_fits_def USERTOP_def)
  then have "\<exists>buf' u' mem'. uiomove [1, 2, 3] 3 ?u ?mem = Some (OK, buf', u', mem') \<and> uio_resid u' = 1 \<and> um_bytes mem' 4097 = 2"
    using uiomove_correct[of ?u ?mem 3 "[1, 2, 3]"] by (auto simp: write_bytes_def)
  then show ?thesis by blast
qed

end
