(* ===== verification/Vm_Paging.thy ===== *)
theory Vm_Paging
  imports Vm_Tlb Vm_Swap Vm_Coremap Uio
begin

text \<open>
  Pages and frames together: the parts of \<^verbatim>\<open>kern/vm/coremap.c\<close> that evict pages, the page tables of
  \<^verbatim>\<open>kern/vm/pt.c\<close> and \<^verbatim>\<open>load_segment_page\<close> of \<^verbatim>\<open>kern/userprog/loadelf.c\<close>.

  A \<open>vmsys\<close> holds the translation buffer, the swap file, the core map, the page tables and the physical
  memory. A page table is the block of its page details, by the number that stands for its address; a page
  detail is referred to by table and index. The operations are sequential: what another thread does while
  one of them waits for the disk is a step of its own, and \<open>eviction_not_reentrant\<close> below is about
  such a step.
\<close>

section \<open>Model\<close>

record page_detail =
  pd_vaddr :: int
  pd_pfn :: int
  pd_sfn :: int
  pd_valid :: bool
  pd_dirty :: bool
  pd_use :: bool

record segment =
  sg_active :: int
  sg_vbase :: int
  sg_size :: int
  sg_writeable :: bool
  sg_pt :: "nat option"
  p_offset :: int
  p_filesz :: int
  p_memsz :: int
  p_flags :: int

record vmsys =
  vm_tlb :: tlbsys
  vm_swap :: swapsys
  vm_cm :: coremap
  page_tables :: "nat \<Rightarrow> page_detail list option"
  ram :: "int \<Rightarrow> 8 word"

definition get_pd :: "pdref \<Rightarrow> vmsys \<Rightarrow> page_detail option" where
  "get_pd r vm = (case page_tables vm (pd_table r) of None \<Rightarrow> None
     | Some pds \<Rightarrow> if pd_index r < length pds then Some (pds ! pd_index r) else None)"

definition set_pd :: "pdref \<Rightarrow> page_detail \<Rightarrow> vmsys \<Rightarrow> vmsys" where
  "set_pd r pd vm = vm\<lparr>page_tables := (page_tables vm)(pd_table r := map_option (\<lambda>pds. pds[pd_index r := pd]) (page_tables vm (pd_table r)))\<rparr>"

definition upd_pd :: "pdref \<Rightarrow> (page_detail \<Rightarrow> page_detail) \<Rightarrow> vmsys \<Rightarrow> vmsys option" where
  "upd_pd r f vm = do { pd \<leftarrow> get_pd r vm; Some (set_pd r (f pd) vm) }"

definition frame_bytes :: "int \<Rightarrow> vmsys \<Rightarrow> page" where
  "frame_bytes f vm = read_bytes (f * 4096) 4096 (ram vm)"

text \<open>
  \<open>cm_free_core\<close> up to the point where it lets interrupts in again, and the rest, which may wait for the
  disk.
\<close>

definition cm_unmap :: "nat \<Rightarrow> vmsys \<Rightarrow> vmsys option" where
  "cm_unmap i vm = do {
     d \<leftarrow> get_cd i (vm_cm vm);
     r \<leftarrow> cd_pd d;
     pd \<leftarrow> get_pd r vm;
     tlb \<leftarrow> tlb_invalidate_vaddr (pd_vaddr pd) (vm_tlb vm);
     upd_pd r (\<lambda>pd. pd\<lparr>pd_valid := False, pd_use := False, pd_sfn := -2\<rparr>) (vm\<lparr>vm_tlb := tlb\<rparr>)
   }"

definition cm_write_back :: "nat \<Rightarrow> vmsys \<Rightarrow> vmsys option" where
  "cm_write_back i vm = do {
     d \<leftarrow> get_cd i (vm_cm vm);
     r \<leftarrow> cd_pd d;
     pd \<leftarrow> get_pd r vm;
     vm1 \<leftarrow> (if pd_dirty pd then do {
               (n, sw) \<leftarrow> swap_write (frame_bytes (cd_id d) vm) (vm_swap vm);
               upd_pd r (\<lambda>pd. pd\<lparr>pd_sfn := n\<rparr>) (vm\<lparr>vm_swap := sw\<rparr>)
             }
             else upd_pd r (\<lambda>pd. pd\<lparr>pd_sfn := -1\<rparr>) vm);
     vm2 \<leftarrow> upd_pd r (\<lambda>pd. pd\<lparr>pd_pfn := -1\<rparr>) vm1;
     cm \<leftarrow> upd_cd i (\<lambda>d. d\<lparr>cd_pd := None, cd_next := None\<rparr>) (vm_cm vm2);
     Some (vm2\<lparr>vm_cm := cm\<rparr>)
   }"

definition cm_free_core :: "nat \<Rightarrow> vmsys \<Rightarrow> vmsys option" where
  "cm_free_core i vm = do { vm1 \<leftarrow> cm_unmap i vm; cm_write_back i vm1 }"

definition clock_advance :: "vmsys \<Rightarrow> vmsys" where
  "clock_advance vm = vm\<lparr>vm_cm := (vm_cm vm)\<lparr>clock_pointer :=
     (clock_pointer (vm_cm vm) + 1) mod (cm_size (vm_cm vm) - lowest_frame (vm_cm vm))\<rparr>\<rparr>"

text \<open>The two rounds of the clock: \<open>n\<close> frames are still to be looked at; \<open>None\<close> in the result is going on behind the loop.\<close>

primrec clock_first :: "nat \<Rightarrow> vmsys \<Rightarrow> (int option \<times> vmsys) option" where
  "clock_first 0 vm = Some (None, vm)"
| "clock_first (Suc n) vm = do {
     let i = nat (clock_to_index (clock_pointer (vm_cm vm)) (vm_cm vm));
     d \<leftarrow> get_cd i (vm_cm vm);
     if cd_kern d = 0 then do {
       r \<leftarrow> cd_pd d;
       pd \<leftarrow> get_pd r vm;
       if \<not> pd_use pd then do { vm' \<leftarrow> cm_free_core i vm; Some (Some (cd_id d), vm') }
       else do {
         vm1 \<leftarrow> upd_pd r (\<lambda>pd. pd\<lparr>pd_use := False\<rparr>) vm;
         tlb \<leftarrow> tlb_invalidate_vaddr (pd_vaddr pd) (vm_tlb vm1);
         clock_first n (clock_advance (vm1\<lparr>vm_tlb := tlb\<rparr>))
       }
     }
     else clock_first n (clock_advance vm)
   }"

primrec clock_second :: "nat \<Rightarrow> vmsys \<Rightarrow> (int option \<times> vmsys) option" where
  "clock_second 0 vm = Some (None, vm)"
| "clock_second (Suc n) vm = do {
     let i = nat (clock_to_index (clock_pointer (vm_cm vm)) (vm_cm vm));
     d \<leftarrow> get_cd i (vm_cm vm);
     if cd_kern d = 0 then do {
       kassert (cd_pd d \<noteq> None);
       vm' \<leftarrow> cm_free_core i vm;
       Some (Some (cd_id d), vm')
     }
     else clock_second n (clock_advance vm)
   }"

definition cm_push_to_swap :: "vmsys \<Rightarrow> (int \<times> vmsys) option" where
  "cm_push_to_swap vm = do {
     let n = nat (cm_size (vm_cm vm) - lowest_frame (vm_cm vm));
     (r1, vm1) \<leftarrow> clock_first n vm;
     case r1 of Some f \<Rightarrow> Some (f, vm1)
     | None \<Rightarrow> do {
         (r2, vm2) \<leftarrow> clock_second n vm1;
         f \<leftarrow> r2;
         Some (f, vm2)
       }
   }"

definition cm_getppage :: "vmsys \<Rightarrow> (int \<times> vmsys) option" where
  "cm_getppage vm = do {
     (frame, cm) \<leftarrow> free_frame_list_pop (vm_cm vm);
     case frame of None \<Rightarrow> cm_push_to_swap (vm\<lparr>vm_cm := cm\<rparr>)
     | Some i \<Rightarrow> do { d \<leftarrow> get_cd i cm; Some (cd_id d, vm\<lparr>vm_cm := cm\<rparr>) }
   }"

definition cm_finish_paging :: "int \<Rightarrow> pdref \<Rightarrow> vmsys \<Rightarrow> vmsys option" where
  "cm_finish_paging frame r vm = do {
     kassert (frame \<ge> 0);
     cm1 \<leftarrow> upd_cd (nat frame) (\<lambda>d. d\<lparr>cd_pd := Some r\<rparr>) (vm_cm vm);
     vm1 \<leftarrow> upd_pd r (\<lambda>pd. pd\<lparr>pd_pfn := frame, pd_valid := True\<rparr>) (vm\<lparr>vm_cm := cm1\<rparr>);
     cm2 \<leftarrow> upd_cd (nat frame) (\<lambda>d. d\<lparr>cd_free := False, cd_kern := 0\<rparr>) (vm_cm vm1);
     Some (vm1\<lparr>vm_cm := cm2\<rparr>)
   }"

text \<open>The search for \<open>num\<close> consecutive frames the kernel does not own.\<close>

primrec run_not_kern :: "nat \<Rightarrow> int \<Rightarrow> coremap \<Rightarrow> bool option" where
  "run_not_kern 0 i cm = Some True"
| "run_not_kern (Suc n) i cm = do {
     kassert (i \<ge> 0);
     d \<leftarrow> get_cd (nat i) cm;
     if cd_kern d \<noteq> 0 then Some False else run_not_kern n (i + 1) cm
   }"

function kframes_search :: "int \<Rightarrow> int \<Rightarrow> coremap \<Rightarrow> int option" where
  "kframes_search i num cm =
     (if i \<le> cm_size cm - num then do {
        b \<leftarrow> run_not_kern (nat num) i cm;
        if b then Some i else kframes_search (i + 1) num cm
      } else None)"
  by pat_completeness auto
termination
  by (relation "measure (\<lambda>(i, num, cm). nat (cm_size cm - num - i + 1))") auto

declare kframes_search.simps [simp del]

primrec kframes_mark :: "nat \<Rightarrow> int \<Rightarrow> coremap \<Rightarrow> coremap option" where
  "kframes_mark 0 i cm = Some cm"
| "kframes_mark (Suc n) i cm = do { cm' \<leftarrow> upd_cd (nat i) (\<lambda>d. d\<lparr>cd_kern := 1\<rparr>) cm; kframes_mark n (i + 1) cm' }"

primrec kframes_claim :: "nat \<Rightarrow> int \<Rightarrow> vmsys \<Rightarrow> vmsys option" where
  "kframes_claim 0 i vm = Some vm"
| "kframes_claim (Suc n) i vm = do {
     d \<leftarrow> get_cd (nat i) (vm_cm vm);
     vm' \<leftarrow> (if cd_free d then do { cm \<leftarrow> free_frame_list_remove (nat i) (vm_cm vm); Some (vm\<lparr>vm_cm := cm\<rparr>) }
             else cm_free_core (nat i) vm);
     kframes_claim n (i + 1) vm'
   }"

definition cm_request_kframes :: "int \<Rightarrow> vmsys \<Rightarrow> (int \<times> vmsys) option" where
  "cm_request_kframes num vm = do {
     kassert (cm_init (vm_cm vm));
     frame \<leftarrow> kframes_search (lowest_frame (vm_cm vm)) num (vm_cm vm);
     cm1 \<leftarrow> kframes_mark (nat num) frame (vm_cm vm);
     cm2 \<leftarrow> upd_cd (nat frame) (\<lambda>d. d\<lparr>cd_kern := num\<rparr>) cm1;
     vm' \<leftarrow> kframes_claim (nat num) frame (vm\<lparr>vm_cm := cm2\<rparr>);
     Some (frame * 4096 + 2147483648, vm')
   }"

definition alloc_kpages :: "int \<Rightarrow> vmsys \<Rightarrow> (int \<times> vmsys) option" where
  "alloc_kpages npages vm = cm_request_kframes npages vm"

definition free_kpages :: "int \<Rightarrow> vmsys \<Rightarrow> vmsys option" where
  "free_kpages addr vm = do {
     kassert ((addr - 2147483648) mod 4096 = 0);
     cm \<leftarrow> cm_release_kframes ((addr - 2147483648) div 4096) (vm_cm vm);
     Some (vm\<lparr>vm_cm := cm\<rparr>)
   }"

text \<open>
  \<open>pt_create\<close>: \<open>p\<close> and \<open>details\<close> are what the two calls of \<^verbatim>\<open>kmalloc\<close> return, an address for the table and
  whether there is memory for the details.
\<close>

definition fresh_page :: "segment \<Rightarrow> nat \<Rightarrow> page_detail" where
  "fresh_page s i = \<lparr>pd_vaddr = u32 (sg_vbase s + 4096 * int i), pd_pfn = -1, pd_sfn = -1, pd_valid = False,
     pd_dirty = sg_writeable s, pd_use = False\<rparr>"

definition pt_create :: "nat option \<Rightarrow> bool \<Rightarrow> segment \<Rightarrow> vmsys \<Rightarrow> (nat \<times> vmsys) option" where
  "pt_create p details s vm = do {
     pt \<leftarrow> p;
     kassert details;
     Some (pt, vm\<lparr>page_tables := (page_tables vm)(pt := Some (map (fresh_page s) [0..<nat (sg_size s)]))\<rparr>)
   }"

definition pt_destroy :: "nat option \<Rightarrow> vmsys \<Rightarrow> vmsys" where
  "pt_destroy pt vm = (case pt of None \<Rightarrow> vm | Some p \<Rightarrow> vm\<lparr>page_tables := (page_tables vm)(p := None)\<rparr>)"

text \<open>
  \<open>vop_read\<close> is the read operation of the executable's vnode, \<open>junk\<close> what the uninitialised field
  \<^verbatim>\<open>u.uio_resid\<close> holds.
\<close>

type_synonym vop_read = "uio \<Rightarrow> umem \<Rightarrow> (errno \<times> uio \<times> umem) option"

definition load_segment_page :: "vop_read \<Rightarrow> int \<Rightarrow> int \<Rightarrow> segment \<Rightarrow> int \<Rightarrow> vmsys \<Rightarrow> (errno \<times> vmsys) option" where
  "load_segment_page vread junk vaddr s paddr vm = do {
     let mem = \<lparr>um_bytes = ram vm, um_ok = (\<lambda>a. 0 \<le> a \<and> a < 4096 * cm_size (vm_cm vm)), um_space = None\<rparr>;
     let u = \<lparr>iov_base = paddr, iov_len = 4096, uio_offset = s32 (vaddr - sg_vbase s + p_offset s), uio_resid = junk,
              uio_segflg = UIO_SYSSPACE, uio_rw = UIO_READ, uio_space = None\<rparr>;
     if u32 (vaddr - sg_vbase s) < p_filesz s then do {
       let read_size = (if u32 (sg_vbase s + p_filesz s) \<ge> u32 (vaddr + 4096) then 4096
                        else s32 (sg_vbase s + p_filesz s - vaddr));
       (result, u1, mem1) \<leftarrow> vread (u\<lparr>uio_resid := u32 read_size\<rparr>) mem;
       if result \<noteq> OK then Some (result, vm\<lparr>ram := um_bytes mem1\<rparr>)
       else if uio_resid u1 \<noteq> 0 then Some (ENOEXEC, vm\<lparr>ram := um_bytes mem1\<rparr>)
       else if u32 (4096 - read_size) > 0 then do {
         (result2, u2, mem2) \<leftarrow> uiomovezeros (u32 (4096 - read_size))
             (u1\<lparr>uio_resid := u32 (uio_resid u1 + u32 (4096 - read_size))\<rparr>) mem1;
         Some (result2, vm\<lparr>ram := um_bytes mem2\<rparr>)
       }
       else Some (result, vm\<lparr>ram := um_bytes mem1\<rparr>)
     }
     else do {
       (result, u2, mem2) \<leftarrow> uiomovezeros 4096 (u\<lparr>uio_resid := u32 (uio_resid u + 4096)\<rparr>) mem;
       Some (result, vm\<lparr>ram := um_bytes mem2\<rparr>)
     }
   }"

text \<open>\<open>vread\<close> reads the file of the current address space; what \<open>load_segment_page\<close> returns is ignored.\<close>

definition pt_page_in :: "vop_read \<Rightarrow> int \<Rightarrow> int \<Rightarrow> segment \<Rightarrow> vmsys \<Rightarrow> vmsys option" where
  "pt_page_in vread junk vaddr s vm = do {
     pt \<leftarrow> sg_pt s;
     let r = Pdref pt (nat (u32 (vaddr - sg_vbase s) div 4096));
     pd \<leftarrow> get_pd r vm;
     if pd_valid pd \<and> pd_pfn pd \<noteq> -1 then do {
       vm1 \<leftarrow> upd_pd r (\<lambda>pd. pd\<lparr>pd_use := True\<rparr>) vm;
       tlb \<leftarrow> tlb_add_entry vaddr (pd_pfn pd * 4096) (sg_writeable s) (vm_tlb vm1);
       Some (vm1\<lparr>vm_tlb := tlb\<rparr>)
     }
     else do {
       vm1 \<leftarrow> upd_pd r (\<lambda>pd. pd\<lparr>pd_use := True\<rparr>) vm;
       (frame, vm2) \<leftarrow> cm_getppage vm1;
       vm3 \<leftarrow> upd_pd r (\<lambda>pd. pd\<lparr>pd_pfn := frame\<rparr>) vm2;
       vm4 \<leftarrow> (if pd_sfn pd \<noteq> -1 then do {
                 pd3 \<leftarrow> get_pd r vm3;
                 (bytes, sw) \<leftarrow> swap_read (pd_sfn pd3) (vm_swap vm3);
                 upd_pd r (\<lambda>pd. pd\<lparr>pd_sfn := -1\<rparr>) (vm3\<lparr>vm_swap := sw, ram := write_bytes (frame * 4096) bytes (ram vm3)\<rparr>)
               }
               else do {
                 (_, vm') \<leftarrow> load_segment_page vread junk vaddr s (frame * 4096) vm3;
                 Some vm'
               });
       tlb \<leftarrow> tlb_add_entry vaddr (frame * 4096) (sg_writeable s) (vm_tlb vm4);
       cm_finish_paging frame r (vm4\<lparr>vm_tlb := tlb\<rparr>)
     }
   }"

section \<open>Invariant\<close>

text \<open>
  \<open>cm_wf X cm fs\<close>: the core map is well formed and \<open>fs\<close> are its free frames. The frames below \<open>lowest_frame\<close>
  belong to the kernel image and their details are never set. \<open>X\<close> are frames in transit.
\<close>

definition cm_wf :: "nat set \<Rightarrow> coremap \<Rightarrow> nat list \<Rightarrow> bool" where
  "cm_wf X cm fs \<longleftrightarrow> frame_list cm fs \<and> 0 \<le> lowest_frame cm \<and> lowest_frame cm < cm_size cm \<and>
     cm_size cm = int (length (core_details cm)) \<and>
     0 \<le> clock_pointer cm \<and> clock_pointer cm < cm_size cm - lowest_frame cm \<and>
     (\<forall>i. nat (lowest_frame cm) \<le> i \<and> i < length (core_details cm) \<longrightarrow> cd_id (core_details cm ! i) = int i \<and>
        (cd_free (core_details cm ! i) \<longleftrightarrow> i \<in> set fs)) \<and>
     (\<forall>i \<in> set fs. nat (lowest_frame cm) \<le> i \<and> (i \<notin> X \<longrightarrow> cd_kern (core_details cm ! i) = 0))"

definition frame_at :: "nat \<Rightarrow> vmsys \<Rightarrow> cm_detail" where
  "frame_at i vm = core_details (vm_cm vm) ! i"

definition in_core :: "nat \<Rightarrow> vmsys \<Rightarrow> bool" where
  "in_core i vm \<longleftrightarrow> nat (lowest_frame (vm_cm vm)) \<le> i \<and> i < length (core_details (vm_cm vm))"

text \<open>A page is in one frame that refers back to it, or in one place of the swap file, or nowhere yet.\<close>

definition page_wf :: "nat set \<Rightarrow> nat list \<Rightarrow> nat list \<Rightarrow> vmsys \<Rightarrow> pdref \<Rightarrow> page_detail \<Rightarrow> bool" where
  "page_wf X fs ss vm r pd \<longleftrightarrow> page_aligned (pd_vaddr pd) \<and> pd_vaddr pd < 2147483648 \<and>
     (pd_pfn pd \<noteq> -1 \<longrightarrow> 0 \<le> pd_pfn pd \<and> in_core (nat (pd_pfn pd)) vm \<and> nat (pd_pfn pd) \<notin> set fs \<and>
        cd_pd (frame_at (nat (pd_pfn pd)) vm) = Some r \<and> (nat (pd_pfn pd) \<notin> X \<longrightarrow> cd_kern (frame_at (nat (pd_pfn pd)) vm) = 0) \<and>
        pd_valid pd \<and> pd_sfn pd = -1) \<and>
     (pd_sfn pd \<noteq> -1 \<longrightarrow> pd_pfn pd = -1 \<and> pd_dirty pd \<and> 0 \<le> pd_sfn pd \<and>
        pd_sfn pd < int (length (pageList (vm_swap vm))) \<and> nat (pd_sfn pd) \<notin> set ss \<and>
        length (swapdisk (vm_swap vm) (pd_sfn pd)) = 4096)"

text \<open>
  \<open>vm_inv k X fs ss vm\<close>: at least \<open>k\<close> entries of the translation buffer can be handed out, \<open>fs\<close> are the free frames, \<open>ss\<close> the free places of the swap file, and every frame that is
  not free, not the kernel's and not in transit (\<open>X\<close>) holds a page.
\<close>

definition vm_inv :: "nat \<Rightarrow> nat set \<Rightarrow> nat list \<Rightarrow> nat list \<Rightarrow> vmsys \<Rightarrow> bool" where
  "vm_inv k X fs ss vm \<longleftrightarrow> tlb_ok k (vm_tlb vm) \<and> swap_list (vm_swap vm) ss \<and> cm_wf X (vm_cm vm) fs \<and>
     (\<forall>r pd. get_pd r vm = Some pd \<longrightarrow> page_wf X fs ss vm r pd) \<and>
     (\<forall>r r' pd pd'. get_pd r vm = Some pd \<and> get_pd r' vm = Some pd' \<and> pd_sfn pd \<noteq> -1 \<and> pd_sfn pd = pd_sfn pd' \<longrightarrow> r = r') \<and>
     (\<forall>i. in_core i vm \<and> i \<notin> X \<and> i \<notin> set fs \<and> cd_kern (frame_at i vm) = 0 \<longrightarrow>
        (\<exists>r pd. cd_pd (frame_at i vm) = Some r \<and> get_pd r vm = Some pd \<and> pd_pfn pd = int i))"

text \<open>What a page holds, as far as it is not still to be loaded from the executable.\<close>

definition page_contents :: "vmsys \<Rightarrow> pdref \<Rightarrow> page option" where
  "page_contents vm r = (case get_pd r vm of None \<Rightarrow> None
     | Some pd \<Rightarrow> if pd_pfn pd \<noteq> -1 then Some (frame_bytes (pd_pfn pd) vm)
                 else if pd_sfn pd \<noteq> -1 then Some (swapdisk (vm_swap vm) (pd_sfn pd)) else None)"

text \<open>
  No writable page changes, and a read-only page stays or is dropped, to be loaded again; what is in no
  frame stays where it is.
\<close>

definition page_kept :: "vmsys \<Rightarrow> vmsys \<Rightarrow> pdref \<Rightarrow> bool" where
  "page_kept vm vm' r \<longleftrightarrow> (case get_pd r vm of None \<Rightarrow> get_pd r vm' = None
     | Some pd \<Rightarrow> (\<exists>pd'. get_pd r vm' = Some pd' \<and> pd_vaddr pd' = pd_vaddr pd \<and> pd_dirty pd' = pd_dirty pd \<and>
         (pd_pfn pd' = pd_pfn pd \<or> pd_pfn pd' = -1) \<and> (pd_pfn pd = -1 \<longrightarrow> pd_sfn pd' = pd_sfn pd) \<and>
         (page_contents vm' r = page_contents vm r \<or> \<not> pd_dirty pd \<and> page_contents vm' r = None)))"

definition pages_kept :: "vmsys \<Rightarrow> vmsys \<Rightarrow> bool" where
  "pages_kept vm vm' \<longleftrightarrow> (\<forall>r. page_kept vm vm' r)"

definition pages_kept_but :: "pdref \<Rightarrow> vmsys \<Rightarrow> vmsys \<Rightarrow> bool" where
  "pages_kept_but r vm vm' \<longleftrightarrow> (\<forall>q. q \<noteq> r \<longrightarrow> page_kept vm vm' q)"

section \<open>Page details\<close>

lemma get_pd_set_pd:
  "get_pd r vm = Some pd0 \<Longrightarrow> get_pd r' (set_pd r pd vm) = (if r' = r then Some pd else get_pd r' vm)"
  by (cases r; cases r') (auto simp: get_pd_def set_pd_def split: option.splits if_splits)

lemma set_pd_set_pd [simp]: "set_pd r a (set_pd r b vm) = set_pd r a vm"
  by (auto simp: set_pd_def option.map_comp comp_def)

lemma set_pd_fields [simp]:
  "vm_tlb (set_pd r pd vm) = vm_tlb vm" "vm_swap (set_pd r pd vm) = vm_swap vm" "vm_cm (set_pd r pd vm) = vm_cm vm"
  "ram (set_pd r pd vm) = ram vm"
  by (simp_all add: set_pd_def)

lemma get_pd_cong: "page_tables vm' = page_tables vm \<Longrightarrow> get_pd r vm' = get_pd r vm"
  by (simp add: get_pd_def)

lemma get_pd_fields [simp]:
  "get_pd r (vm\<lparr>vm_tlb := t\<rparr>) = get_pd r vm" "get_pd r (vm\<lparr>vm_swap := s\<rparr>) = get_pd r vm"
  "get_pd r (vm\<lparr>vm_cm := c\<rparr>) = get_pd r vm" "get_pd r (vm\<lparr>ram := m\<rparr>) = get_pd r vm"
  by (simp_all add: get_pd_def)

lemma upd_pd_Some: "get_pd r vm = Some pd \<Longrightarrow> upd_pd r f vm = Some (set_pd r (f pd) vm)"
  by (simp add: upd_pd_def)

lemma set_pd_commute [simp]:
  "(set_pd r pd vm)\<lparr>vm_tlb := tlb\<rparr> = set_pd r pd (vm\<lparr>vm_tlb := tlb\<rparr>)"
  "(set_pd r pd vm)\<lparr>vm_swap := sw\<rparr> = set_pd r pd (vm\<lparr>vm_swap := sw\<rparr>)"
  "(set_pd r pd vm)\<lparr>vm_cm := cm\<rparr> = set_pd r pd (vm\<lparr>vm_cm := cm\<rparr>)"
  "(set_pd r pd vm)\<lparr>ram := m\<rparr> = set_pd r pd (vm\<lparr>ram := m\<rparr>)"
  by (simp_all add: set_pd_def)

lemma page_kept_refl: "page_kept vm vm r"
  by (simp add: page_kept_def split: option.splits)

lemma page_kept_trans: "page_kept vm vm' r \<Longrightarrow> page_kept vm' vm'' r \<Longrightarrow> page_kept vm vm'' r"
  by (auto simp: page_kept_def split: option.splits)

lemma pages_kept_refl: "pages_kept vm vm"
  by (simp add: pages_kept_def page_kept_refl)

lemma pages_kept_trans: "pages_kept vm vm' \<Longrightarrow> pages_kept vm' vm'' \<Longrightarrow> pages_kept vm vm''"
  unfolding pages_kept_def using page_kept_trans by blast

lemma pages_kept_but_trans:
  assumes "pages_kept vm vm1" and "\<And>q. q \<noteq> r \<Longrightarrow> page_kept vm1 vm2 q"
  shows "pages_kept_but r vm vm2"
  unfolding pages_kept_but_def using assms page_kept_trans unfolding pages_kept_def by blast

lemma pages_kept_contents:
  assumes "pages_kept vm vm'" and "get_pd r vm = Some pd" and "pd_dirty pd"
  shows "page_contents vm' r = page_contents vm r"
proof -
  have "page_kept vm vm' r" using assms(1) by (simp add: pages_kept_def)
  then show ?thesis using assms(2,3) by (auto simp: page_kept_def)
qed

lemma page_kept_same:
  "get_pd r vm = Some pd \<Longrightarrow> get_pd r vm' = Some pd' \<Longrightarrow> pd_vaddr pd' = pd_vaddr pd \<Longrightarrow> pd_dirty pd' = pd_dirty pd \<Longrightarrow>
     pd_pfn pd' = pd_pfn pd \<or> pd_pfn pd' = -1 \<Longrightarrow> (pd_pfn pd = -1 \<Longrightarrow> pd_sfn pd' = pd_sfn pd) \<Longrightarrow>
     page_contents vm' r = page_contents vm r \<Longrightarrow> page_kept vm vm' r"
  by (simp add: page_kept_def)

lemma vm_invI:
  assumes "tlb_ok k (vm_tlb vm)" and "swap_list (vm_swap vm) ss" and "cm_wf X (vm_cm vm) fs"
    and "\<And>r pd. get_pd r vm = Some pd \<Longrightarrow> page_wf X fs ss vm r pd"
    and "\<And>r r' pd pd'. get_pd r vm = Some pd \<Longrightarrow> get_pd r' vm = Some pd' \<Longrightarrow> pd_sfn pd \<noteq> -1 \<Longrightarrow> pd_sfn pd = pd_sfn pd' \<Longrightarrow> r = r'"
    and "\<And>i. in_core i vm \<Longrightarrow> i \<notin> X \<Longrightarrow> i \<notin> set fs \<Longrightarrow> cd_kern (frame_at i vm) = 0 \<Longrightarrow>
           \<exists>r pd. cd_pd (frame_at i vm) = Some r \<and> get_pd r vm = Some pd \<and> pd_pfn pd = int i"
  shows "vm_inv k X fs ss vm"
  unfolding vm_inv_def using assms by simp

lemma vm_inv_pageD: "vm_inv k X fs ss vm \<Longrightarrow> get_pd r vm = Some pd \<Longrightarrow> page_wf X fs ss vm r pd"
  by (simp add: vm_inv_def)

lemma vm_inv_sfnD:
  "vm_inv k X fs ss vm \<Longrightarrow> get_pd r vm = Some pd \<Longrightarrow> get_pd r' vm = Some pd' \<Longrightarrow> pd_sfn pd \<noteq> -1 \<Longrightarrow> pd_sfn pd = pd_sfn pd' \<Longrightarrow> r = r'"
  unfolding vm_inv_def by blast

lemma vm_inv_frameD:
  "vm_inv k X fs ss vm \<Longrightarrow> in_core i vm \<Longrightarrow> i \<notin> X \<Longrightarrow> i \<notin> set fs \<Longrightarrow> cd_kern (frame_at i vm) = 0 \<Longrightarrow>
     \<exists>r pd. cd_pd (frame_at i vm) = Some r \<and> get_pd r vm = Some pd \<and> pd_pfn pd = int i"
  unfolding vm_inv_def by blast

lemma vm_inv_parts:
  "vm_inv k X fs ss vm \<Longrightarrow> tlb_ok k (vm_tlb vm)" "vm_inv k X fs ss vm \<Longrightarrow> swap_list (vm_swap vm) ss"
  "vm_inv k X fs ss vm \<Longrightarrow> cm_wf X (vm_cm vm) fs"
  by (simp_all add: vm_inv_def)

section \<open>Eviction\<close>

text \<open>The core map after an eviction: only the reference to the page is gone.\<close>

definition cm_evicted :: "nat \<Rightarrow> coremap \<Rightarrow> coremap" where
  "cm_evicted i cm = cm\<lparr>core_details := (core_details cm)[i := (core_details cm ! i)\<lparr>cd_pd := None, cd_next := None\<rparr>]\<rparr>"

lemma cm_evicted_fields [simp]:
  "cm_size (cm_evicted i cm) = cm_size cm" "lowest_frame (cm_evicted i cm) = lowest_frame cm"
  "clock_pointer (cm_evicted i cm) = clock_pointer cm" "length (core_details (cm_evicted i cm)) = length (core_details cm)"
  "cd_kern (core_details (cm_evicted i cm) ! j) = cd_kern (core_details cm ! j)"
  "cd_free (core_details (cm_evicted i cm) ! j) = cd_free (core_details cm ! j)"
  "cd_id (core_details (cm_evicted i cm) ! j) = cd_id (core_details cm ! j)"
  by (cases "i < length (core_details cm)"; cases "i = j"; simp add: cm_evicted_def list_update_beyond)+

lemma cd_pd_evicted:
  "i < length (core_details cm) \<Longrightarrow> cd_pd (core_details (cm_evicted i cm) ! j) = (if j = i then None else cd_pd (core_details cm ! j))"
  by (simp add: cm_evicted_def)

lemma cm_wf_evicted:
  assumes "cm_wf X cm fs" and "i \<notin> set fs"
  shows "cm_wf (insert i X) (cm_evicted i cm) fs"
proof -
  have "frame_list (cm_evicted i cm) fs"
    using assms by (simp add: cm_wf_def frame_list_def cm_evicted_def seg_update)
  with assms(1) show ?thesis by (simp add: cm_wf_def)
qed

lemma cm_free_core_run:
  assumes inv: "vm_inv k X fs (s # ss) vm" and i: "in_core i vm"
    and holder: "cd_pd (frame_at i vm) = Some r" "get_pd r vm = Some pd"
  shows "\<exists>tlb sw n. cm_free_core i vm = Some (set_pd r (pd\<lparr>pd_valid := False, pd_use := False, pd_sfn := n, pd_pfn := -1\<rparr>)
      (vm\<lparr>vm_tlb := tlb, vm_swap := sw, vm_cm := cm_evicted i (vm_cm vm)\<rparr>)) \<and> tlb_ok k tlb \<and>
    (if pd_dirty pd
     then n = int s \<and> swap_list sw ss \<and> pageList sw = pageList (vm_swap vm) \<and>
          swapdisk sw = (swapdisk (vm_swap vm))(int s := frame_bytes (int i) vm)
     else n = -1 \<and> sw = vm_swap vm)"
proof -
  have "page_aligned (pd_vaddr pd)" "pd_vaddr pd < 2147483648" using vm_inv_pageD[OF inv holder(2)] by (simp_all add: page_wf_def)
  moreover have "tlb_ok k (vm_tlb vm)" using vm_inv_parts(1)[OF inv] .
  ultimately obtain tlb where tlb: "tlb_invalidate_vaddr (pd_vaddr pd) (vm_tlb vm) = Some tlb" "tlb_ok k tlb"
    using tlb_invalidate_ok by blast
  have cd: "get_cd i (vm_cm vm) = Some (frame_at i vm)" "cd_id (frame_at i vm) = int i"
      "i < length (core_details (vm_cm vm))"
    using vm_inv_parts(3)[OF inv] i by (auto simp: get_cd_def frame_at_def in_core_def cm_wf_def)
  have ev: "upd_cd i (\<lambda>d. d\<lparr>cd_pd := None, cd_next := None\<rparr>) (vm_cm vm) = Some (cm_evicted i (vm_cm vm))"
    using cd(3) by (simp add: upd_cd_def cm_evicted_def)
  let ?pd = "pd\<lparr>pd_valid := False, pd_use := False, pd_sfn := -2\<rparr>"
  have un: "cm_unmap i vm = Some (set_pd r ?pd (vm\<lparr>vm_tlb := tlb\<rparr>))"
    using cd holder tlb by (simp add: cm_unmap_def upd_pd_Some)
  have fb: "frame_bytes f (set_pd r ?pd (vm\<lparr>vm_tlb := tlb\<rparr>)) = frame_bytes f vm" for f by (simp add: frame_bytes_def)
  show ?thesis
  proof (cases "pd_dirty pd")
    case True
    obtain sw where sw: "swap_write (frame_bytes (int i) vm) (vm_swap vm) = Some (int s, sw)" "swap_list sw ss"
        "pageList sw = pageList (vm_swap vm)" "swapdisk sw = (swapdisk (vm_swap vm))(int s := frame_bytes (int i) vm)"
      using swap_write_spec[OF vm_inv_parts(2)[OF inv]] by blast
    have "cm_free_core i vm = Some (set_pd r (pd\<lparr>pd_valid := False, pd_use := False, pd_sfn := int s, pd_pfn := -1\<rparr>)
      (vm\<lparr>vm_tlb := tlb, vm_swap := sw, vm_cm := cm_evicted i (vm_cm vm)\<rparr>))"
      using un cd holder True sw(1) ev
      by (simp add: cm_free_core_def cm_write_back_def upd_pd_Some get_pd_set_pd fb)
    then show ?thesis using tlb sw True by auto
  next
    case False
    have "cm_free_core i vm = Some (set_pd r (pd\<lparr>pd_valid := False, pd_use := False, pd_sfn := -1, pd_pfn := -1\<rparr>)
      (vm\<lparr>vm_tlb := tlb, vm_swap := vm_swap vm, vm_cm := cm_evicted i (vm_cm vm)\<rparr>))"
      using un cd holder False ev
      by (simp add: cm_free_core_def cm_write_back_def upd_pd_Some get_pd_set_pd)
    then show ?thesis using tlb False by auto
  qed
qed

text \<open>What operations on pages leave of the core map.\<close>

definition cm_same :: "vmsys \<Rightarrow> vmsys \<Rightarrow> bool" where
  "cm_same vm vm' \<longleftrightarrow> cm_size (vm_cm vm') = cm_size (vm_cm vm) \<and> lowest_frame (vm_cm vm') = lowest_frame (vm_cm vm) \<and>
     length (core_details (vm_cm vm')) = length (core_details (vm_cm vm)) \<and>
     (\<forall>j. cd_kern (frame_at j vm') = cd_kern (frame_at j vm))"

lemma cm_same_refl: "cm_same vm vm"
  by (simp add: cm_same_def)

lemma cm_same_trans: "cm_same vm vm' \<Longrightarrow> cm_same vm' vm'' \<Longrightarrow> cm_same vm vm''"
  by (simp add: cm_same_def)

text \<open>
  The state after the eviction of page \<open>r\<close> from frame \<open>i\<close>: \<open>n\<close> is its place in the swap file or -1. \<open>evicts\<close> collects what
  is known when that happens.
\<close>

definition evict :: "nat \<Rightarrow> pdref \<Rightarrow> page_detail \<Rightarrow> int \<Rightarrow> tlbsys \<Rightarrow> swapsys \<Rightarrow> vmsys \<Rightarrow> vmsys" where
  "evict i r pd n tlb sw vm = set_pd r (pd\<lparr>pd_valid := False, pd_use := False, pd_sfn := n, pd_pfn := -1\<rparr>)
     (vm\<lparr>vm_tlb := tlb, vm_swap := sw, vm_cm := cm_evicted i (vm_cm vm)\<rparr>)"

definition evicts :: "nat \<Rightarrow> nat set \<Rightarrow> nat list \<Rightarrow> nat \<Rightarrow> nat list \<Rightarrow> nat \<Rightarrow> pdref \<Rightarrow> page_detail \<Rightarrow> int \<Rightarrow> tlbsys \<Rightarrow> swapsys \<Rightarrow> vmsys \<Rightarrow> bool" where
  "evicts k X fs s ss i r pd n tlb sw vm \<longleftrightarrow> vm_inv k X fs (s # ss) vm \<and> in_core i vm \<and> i \<notin> set fs \<and>
     cd_pd (frame_at i vm) = Some r \<and> get_pd r vm = Some pd \<and> pd_pfn pd = int i \<and> tlb_ok k tlb \<and>
     (if pd_dirty pd
      then n = int s \<and> swap_list sw ss \<and> pageList sw = pageList (vm_swap vm) \<and>
           swapdisk sw = (swapdisk (vm_swap vm))(int s := frame_bytes (int i) vm)
      else n = -1 \<and> sw = vm_swap vm)"

lemma evict_fields [simp]:
  "vm_tlb (evict i r pd n tlb sw vm) = tlb" "vm_swap (evict i r pd n tlb sw vm) = sw" "ram (evict i r pd n tlb sw vm) = ram vm"
  "vm_cm (evict i r pd n tlb sw vm) = cm_evicted i (vm_cm vm)" "in_core j (evict i r pd n tlb sw vm) = in_core j vm"
  "cd_kern (frame_at j (evict i r pd n tlb sw vm)) = cd_kern (frame_at j vm)"
  "frame_bytes f (evict i r pd n tlb sw vm) = frame_bytes f vm"
  by (simp_all add: evict_def in_core_def frame_at_def frame_bytes_def)

lemma cd_pd_evict:
  "in_core i vm \<Longrightarrow> cd_pd (frame_at j (evict i r pd n tlb sw vm)) = (if j = i then None else cd_pd (frame_at j vm))"
  by (simp add: frame_at_def in_core_def cd_pd_evicted)

lemma length_frame_bytes [simp]: "length (frame_bytes f vm) = 4096"
  by (simp add: frame_bytes_def)

lemma get_pd_evict:
  "get_pd r vm = Some pd \<Longrightarrow> get_pd q (evict i r pd n tlb sw vm) =
     (if q = r then Some (pd\<lparr>pd_valid := False, pd_use := False, pd_sfn := n, pd_pfn := -1\<rparr>) else get_pd q vm)"
  by (simp add: evict_def get_pd_set_pd)

lemma evict_sfn:
  assumes ev: "evicts k X fs s ss i r pd n tlb sw vm" and q: "get_pd q vm = Some qd" "pd_sfn qd \<noteq> -1"
  shows "pd_sfn qd \<noteq> n" "swapdisk sw (pd_sfn qd) = swapdisk (vm_swap vm) (pd_sfn qd)"
proof -
  have "page_wf X fs (s # ss) vm q qd" using vm_inv_pageD q ev by (auto simp: evicts_def)
  then show "pd_sfn qd \<noteq> n" "swapdisk sw (pd_sfn qd) = swapdisk (vm_swap vm) (pd_sfn qd)"
    using q ev by (auto simp: page_wf_def evicts_def split: if_splits)
qed

lemma evict_page_wf:
  assumes ev: "evicts k X fs s ss i r pd n tlb sw vm" and q: "get_pd q (evict i r pd n tlb sw vm) = Some qd"
  shows "page_wf (insert i X) fs (if pd_dirty pd then ss else s # ss) (evict i r pd n tlb sw vm) q qd"
proof -
  have e: "vm_inv k X fs (s # ss) vm" "in_core i vm" "get_pd r vm = Some pd" "cd_pd (frame_at i vm) = Some r"
    using ev by (simp_all add: evicts_def)
  have s: "s < length (pageList (vm_swap vm))" "s \<notin> set ss"
    using vm_inv_parts(2)[OF e(1)] by (auto simp: swap_list_def)
  show ?thesis
  proof (cases "q = r")
    case True
    then have "qd = pd\<lparr>pd_valid := False, pd_use := False, pd_sfn := n, pd_pfn := -1\<rparr>" using q e by (simp add: get_pd_evict)
    then show ?thesis using vm_inv_pageD[OF e(1,3)] s ev by (cases "pd_dirty pd") (simp_all add: page_wf_def evicts_def)
  next
    case False
    then have q: "get_pd q vm = Some qd" using q e by (simp add: get_pd_evict)
    have pq: "page_wf X fs (s # ss) vm q qd" using vm_inv_pageD[OF e(1) q] .
    then have "nat (pd_pfn qd) \<noteq> i" if "pd_pfn qd \<noteq> -1" using that False e(4) by (auto simp: page_wf_def)
    moreover have "pageList sw = pageList (vm_swap vm)" using ev by (auto simp: evicts_def split: if_splits)
    moreover note evict_sfn(2)[OF ev q]
    ultimately show ?thesis using pq by (simp add: page_wf_def cd_pd_evict[OF e(2)])
  qed
qed

lemma evict_inv:
  assumes ev: "evicts k X fs s ss i r pd n tlb sw vm"
  shows "vm_inv k (insert i X) fs (if pd_dirty pd then ss else s # ss) (evict i r pd n tlb sw vm)" (is "vm_inv k _ _ ?ss ?vm")
proof -
  have e: "vm_inv k X fs (s # ss) vm" "in_core i vm" "get_pd r vm = Some pd" "cd_pd (frame_at i vm) = Some r" "pd_pfn pd = int i"
      "i \<notin> set fs"
    using ev by (simp_all add: evicts_def)
  have uniq: "q = q'" if q: "get_pd q ?vm = Some qd" "get_pd q' ?vm = Some qd'" "pd_sfn qd \<noteq> -1" "pd_sfn qd = pd_sfn qd'"
    for q q' qd qd'
  proof (cases "q = r"; cases "q' = r")
    assume "q = r" "q' \<noteq> r"
    with q evict_sfn(1)[OF ev, of q' qd'] show ?thesis by (auto simp: get_pd_evict[OF e(3)])
  next
    assume "q \<noteq> r" "q' = r"
    with q evict_sfn(1)[OF ev, of q qd] show ?thesis by (auto simp: get_pd_evict[OF e(3)])
  next
    assume "q \<noteq> r" "q' \<noteq> r"
    with q(1,2) have "get_pd q vm = Some qd" "get_pd q' vm = Some qd'" by (simp_all add: get_pd_evict[OF e(3)])
    from vm_inv_sfnD[OF e(1) this q(3,4)] show ?thesis .
  qed simp
  have frames: "\<exists>q qd. cd_pd (frame_at j ?vm) = Some q \<and> get_pd q ?vm = Some qd \<and> pd_pfn qd = int j"
    if j: "in_core j ?vm" "j \<notin> insert i X" "j \<notin> set fs" "cd_kern (frame_at j ?vm) = 0" for j
  proof -
    obtain q qd where q: "cd_pd (frame_at j vm) = Some q" "get_pd q vm = Some qd" "pd_pfn qd = int j"
      using vm_inv_frameD[OF e(1) _ _ j(3)] j by auto
    have "q \<noteq> r" using q e j(2) by auto
    then show ?thesis using q j(2) by (auto simp: cd_pd_evict[OF e(2)] get_pd_evict[OF e(3)])
  qed
  have "swap_list sw ?ss" using ev vm_inv_parts(2)[OF e(1)] by (auto simp: evicts_def)
  then show ?thesis
    unfolding vm_inv_def using evict_page_wf[OF ev] uniq frames cm_wf_evicted[OF vm_inv_parts(3)[OF e(1)] e(6)] ev
    by (simp add: evicts_def)
qed

lemma evict_kept:
  assumes ev: "evicts k X fs s ss i r pd n tlb sw vm"
  shows "pages_kept vm (evict i r pd n tlb sw vm)"
  unfolding pages_kept_def
proof
  fix q
  have e: "vm_inv k X fs (s # ss) vm" "get_pd r vm = Some pd" using ev by (simp_all add: evicts_def)
  show "page_kept vm (evict i r pd n tlb sw vm) q"
  proof (cases "get_pd q vm")
    case None
    then show ?thesis using e get_pd_evict[OF e(2), of q] by (auto simp: page_kept_def)
  next
    case (Some qd)
    show ?thesis
    proof (cases "q = r")
      case True
      then show ?thesis using e ev vm_inv_pageD[OF e]
        by (auto simp: page_kept_def page_contents_def get_pd_evict page_wf_def evicts_def split: if_splits)
    next
      case False
      then show ?thesis using Some e evict_sfn(2)[OF ev Some]
        by (intro page_kept_same[OF Some]) (auto simp: page_contents_def get_pd_evict)
    qed
  qed
qed

lemma cm_free_core_spec:
  assumes inv: "vm_inv k X fs (s # ss) vm" and i: "in_core i vm" "i \<notin> set fs"
    and holder: "cd_pd (frame_at i vm) = Some r" "get_pd r vm = Some pd" "pd_pfn pd = int i"
  shows "\<exists>vm' ss'. cm_free_core i vm = Some vm' \<and> vm_inv k (insert i X) fs ss' vm' \<and> length ss \<le> length ss' \<and>
    pages_kept vm vm' \<and> cm_same vm vm' \<and> cd_pd (frame_at i vm') = None \<and> ram vm' = ram vm \<and>
    clock_pointer (vm_cm vm') = clock_pointer (vm_cm vm) \<and>
    (\<forall>j. j \<noteq> i \<longrightarrow> cd_pd (frame_at j vm') = cd_pd (frame_at j vm)) \<and> (\<forall>q. q \<noteq> r \<longrightarrow> get_pd q vm' = get_pd q vm)"
proof -
  obtain tlb sw n where run: "cm_free_core i vm = Some (evict i r pd n tlb sw vm)" and ev: "evicts k X fs s ss i r pd n tlb sw vm"
    using cm_free_core_run[OF inv i(1) holder(1,2)] assms unfolding evict_def evicts_def by blast
  have "cm_same vm (evict i r pd n tlb sw vm)" by (simp add: cm_same_def)
  with run evict_inv[OF ev] evict_kept[OF ev] cd_pd_evict[OF i(1)] get_pd_evict[OF holder(2)] show ?thesis
    by (intro exI[of _ "evict i r pd n tlb sw vm"] exI[of _ "if pd_dirty pd then ss else s # ss"]) simp
qed

section \<open>The clock\<close>

text \<open>Clearing or setting a use bit, a new translation buffer and the hand of the clock do not matter to the invariant.\<close>

lemma vm_inv_touch:
  assumes inv: "vm_inv k X fs ss vm" and pd: "get_pd r vm = Some pd" and tlb: "tlb_ok k tlb"
  shows "vm_inv k X fs ss (set_pd r (pd\<lparr>pd_use := b\<rparr>) (vm\<lparr>vm_tlb := tlb\<rparr>))" (is "vm_inv k _ _ _ ?vm")
    and "pages_kept vm (set_pd r (pd\<lparr>pd_use := b\<rparr>) (vm\<lparr>vm_tlb := tlb\<rparr>))"
    and "cm_same vm (set_pd r (pd\<lparr>pd_use := b\<rparr>) (vm\<lparr>vm_tlb := tlb\<rparr>))"
proof -
  have get: "get_pd q ?vm = (if q = r then Some (pd\<lparr>pd_use := b\<rparr>) else get_pd q vm)" for q
    using pd by (simp add: get_pd_set_pd)
  have same: "in_core j ?vm = in_core j vm" "frame_at j ?vm = frame_at j vm" "vm_cm ?vm = vm_cm vm" "vm_swap ?vm = vm_swap vm" for j
    by (simp_all add: in_core_def frame_at_def)
  define old where "old q qd = (if q = r then pd else qd)" for q and qd :: page_detail
  have old: "get_pd q vm = Some (old q qd)" "pd_pfn (old q qd) = pd_pfn qd" "pd_sfn (old q qd) = pd_sfn qd"
      "page_wf X fs ss ?vm q qd = page_wf X fs ss vm q (old q qd)" if "get_pd q ?vm = Some qd" for q qd
    using that pd by (cases "q = r"; fastforce simp: get old_def page_wf_def same)+
  have "page_wf X fs ss ?vm q qd" if "get_pd q ?vm = Some qd" for q qd
    using old(1,4)[OF that] vm_inv_pageD[OF inv] by simp
  moreover have "q = q'" if "get_pd q ?vm = Some qd" "get_pd q' ?vm = Some qd'" "pd_sfn qd \<noteq> -1" "pd_sfn qd = pd_sfn qd'" for q q' qd qd'
    using vm_inv_sfnD[OF inv old(1)[OF that(1)] old(1)[OF that(2)]] old(3)[OF that(1)] old(3)[OF that(2)] that(3,4) by simp
  moreover have "\<exists>q qd. cd_pd (frame_at j ?vm) = Some q \<and> get_pd q ?vm = Some qd \<and> pd_pfn qd = int j"
    if j: "in_core j ?vm" "j \<notin> X" "j \<notin> set fs" "cd_kern (frame_at j ?vm) = 0" for j
  proof -
    obtain q qd where "cd_pd (frame_at j vm) = Some q" "get_pd q vm = Some qd" "pd_pfn qd = int j"
      using vm_inv_frameD[OF inv _ j(2,3)] j same by auto
    with pd get[of q] same(2)[of j] show ?thesis
      by (intro exI[of _ q] exI[of _ "if q = r then pd\<lparr>pd_use := b\<rparr> else qd"]) auto
  qed
  ultimately show "vm_inv k X fs ss ?vm" using inv tlb by (simp add: vm_inv_def)
  show "cm_same vm ?vm" by (simp add: cm_same_def same)
  have "page_kept vm ?vm q" for q
    using pd by (cases "get_pd q vm") (auto simp: page_kept_def page_contents_def get frame_bytes_def)
  then show "pages_kept vm ?vm" by (simp add: pages_kept_def)
qed

definition clock_index :: "vmsys \<Rightarrow> nat" where
  "clock_index vm = nat (clock_to_index (clock_pointer (vm_cm vm)) (vm_cm vm))"

lemma clock_index_core: "vm_inv k X fs ss vm \<Longrightarrow> in_core (clock_index vm) vm"
  using vm_inv_parts(3)[of k X fs ss vm] by (auto simp: clock_index_def clock_to_index_def in_core_def cm_wf_def)

lemma vm_inv_clock_advance:
  assumes "vm_inv k X fs ss vm"
  shows "vm_inv k X fs ss (clock_advance vm)" and "pages_kept vm (clock_advance vm)" and "cm_same vm (clock_advance vm)"
proof -
  have same: "get_pd r (clock_advance vm) = get_pd r vm" "frame_at i (clock_advance vm) = frame_at i vm"
      "in_core i (clock_advance vm) = in_core i vm" "frame_bytes f (clock_advance vm) = frame_bytes f vm"
      "vm_swap (clock_advance vm) = vm_swap vm" "vm_tlb (clock_advance vm) = vm_tlb vm" for r i f
    by (simp_all add: clock_advance_def get_pd_def frame_at_def in_core_def frame_bytes_def)
  have "cm_wf X (vm_cm (clock_advance vm)) fs"
    using vm_inv_parts(3)[OF assms] by (simp add: clock_advance_def cm_wf_def frame_list_def)
  then show "vm_inv k X fs ss (clock_advance vm)" using assms by (simp add: vm_inv_def same page_wf_def)
  show "pages_kept vm (clock_advance vm)"
    by (simp add: pages_kept_def page_kept_def page_contents_def same split: option.splits)
  show "cm_same vm (clock_advance vm)" by (simp add: cm_same_def same) (simp add: clock_advance_def)
qed

text \<open>What a caller knows of frame \<open>f\<close> after it was evicted: it is in transit and the clock still points at it.\<close>

definition evicted_frame :: "nat \<Rightarrow> nat list \<Rightarrow> vmsys \<Rightarrow> int \<Rightarrow> vmsys \<Rightarrow> bool" where
  "evicted_frame k ss vm f vm' \<longleftrightarrow> (\<exists>i ss'. f = int i \<and> in_core i vm' \<and> vm_inv k {i} [] ss' vm' \<and> length ss \<le> length ss' \<and>
     pages_kept vm vm' \<and> cm_same vm vm' \<and> cd_pd (frame_at i vm') = None \<and> cd_kern (frame_at i vm') = 0 \<and> i = clock_index vm')"

lemma evicted_frame_trans:
  "pages_kept vm vm1 \<Longrightarrow> cm_same vm vm1 \<Longrightarrow> evicted_frame k ss vm1 f vm' \<Longrightarrow> evicted_frame k ss vm f vm'"
  unfolding evicted_frame_def using pages_kept_trans cm_same_trans by blast

definition clock_post :: "nat \<Rightarrow> nat list \<Rightarrow> nat list \<Rightarrow> vmsys \<Rightarrow> int option \<times> vmsys \<Rightarrow> bool" where
  "clock_post k ss0 ss vm res = (case res of (r, vm') \<Rightarrow>
     (case r of None \<Rightarrow> vm_inv k {} [] ss0 vm' \<and> pages_kept vm vm' \<and> cm_same vm vm' | Some f \<Rightarrow> evicted_frame k ss vm f vm'))"

lemma clock_post_trans:
  assumes "pages_kept vm vm1" and "cm_same vm vm1" and "clock_post k ss0 ss vm1 res"
  shows "clock_post k ss0 ss vm res"
proof (cases res)
  case (Pair r vm')
  show ?thesis
  proof (cases r)
    case None
    then show ?thesis using assms Pair pages_kept_trans[of vm vm1 vm'] cm_same_trans[of vm vm1 vm'] by (simp add: clock_post_def)
  next
    case (Some f)
    then show ?thesis using assms Pair evicted_frame_trans[of vm vm1 k ss f vm'] by (simp add: clock_post_def)
  qed
qed

lemma evict_at_clock:
  assumes inv: "vm_inv k {} [] (s # ss) vm" and k: "cd_kern (frame_at (clock_index vm) vm) = 0"
  shows "\<exists>vm' r pd. cd_pd (frame_at (clock_index vm) vm) = Some r \<and> get_pd r vm = Some pd \<and> page_aligned (pd_vaddr pd) \<and> pd_vaddr pd < 2147483648 \<and>
    cm_free_core (clock_index vm) vm = Some vm' \<and> evicted_frame k ss vm (int (clock_index vm)) vm'"
proof -
  have core: "in_core (clock_index vm) vm" using clock_index_core[OF inv] .
  obtain r pd where r: "cd_pd (frame_at (clock_index vm) vm) = Some r" "get_pd r vm = Some pd" "pd_pfn pd = int (clock_index vm)"
    using vm_inv_frameD[OF inv core] k by auto
  obtain vm' ss' where ev: "cm_free_core (clock_index vm) vm = Some vm'" "vm_inv k {clock_index vm} [] ss' vm'"
      "length ss \<le> length ss'" "pages_kept vm vm'" "cm_same vm vm'" "cd_pd (frame_at (clock_index vm) vm') = None"
      "clock_pointer (vm_cm vm') = clock_pointer (vm_cm vm)"
    using cm_free_core_spec[OF inv core _ r] by auto
  have "clock_index vm' = clock_index vm" using ev(5,7) by (simp add: clock_index_def clock_to_index_def cm_same_def)
  moreover have "in_core (clock_index vm) vm'" using core ev(5) by (simp add: in_core_def cm_same_def)
  moreover have "cd_kern (frame_at (clock_index vm) vm') = 0" using ev(5) k by (simp add: cm_same_def)
  ultimately have "evicted_frame k ss vm (int (clock_index vm)) vm'"
    unfolding evicted_frame_def using ev by (intro exI[of _ "clock_index vm"] exI[of _ ss']) simp
  moreover have "page_aligned (pd_vaddr pd)" "pd_vaddr pd < 2147483648" using vm_inv_pageD[OF inv r(2)] by (simp_all add: page_wf_def)
  ultimately show ?thesis using r ev(1) by blast
qed

lemma get_cd_clock:
  assumes "vm_inv k X fs ss vm"
  shows "get_cd (clock_index vm) (vm_cm vm) = Some (frame_at (clock_index vm) vm)" "cd_id (frame_at (clock_index vm) vm) = int (clock_index vm)"
  using clock_index_core[OF assms] vm_inv_parts(3)[OF assms] by (auto simp: get_cd_def in_core_def frame_at_def cm_wf_def)

lemma clock_first_spec:
  assumes "vm_inv k {} [] (s # ss) vm"
  shows "\<exists>res. clock_first n vm = Some res \<and> clock_post k (s # ss) ss vm res"
  using assms
proof (induction n arbitrary: vm)
  case 0
  then show ?case using pages_kept_refl cm_same_refl by (simp add: clock_post_def)
next
  case (Suc n)
  have cd: "get_cd (clock_index vm) (vm_cm vm) = Some (frame_at (clock_index vm) vm)"
      "cd_id (frame_at (clock_index vm) vm) = int (clock_index vm)" using get_cd_clock[OF Suc.prems] by auto
  have go_on: ?case if vm1: "clock_first (Suc n) vm = clock_first n (clock_advance vm1)" "vm_inv k {} [] (s # ss) vm1"
      "pages_kept vm vm1" "cm_same vm vm1" for vm1
  proof -
    note adv = vm_inv_clock_advance[OF vm1(2)]
    obtain res where "clock_first n (clock_advance vm1) = Some res" "clock_post k (s # ss) ss (clock_advance vm1) res"
      using Suc.IH[OF adv(1)] by blast
    with vm1(1) clock_post_trans[OF pages_kept_trans[OF vm1(3) adv(2)] cm_same_trans[OF vm1(4) adv(3)]]
    show ?thesis by metis
  qed
  show ?case
  proof (cases "cd_kern (frame_at (clock_index vm) vm) = 0")
    case False
    then have "clock_first (Suc n) vm = clock_first n (clock_advance vm)" using cd by (simp add: clock_index_def[symmetric])
    from go_on[OF this Suc.prems pages_kept_refl cm_same_refl] show ?thesis .
  next
    case True
    obtain vm' r pd where ev: "cd_pd (frame_at (clock_index vm) vm) = Some r" "get_pd r vm = Some pd" "page_aligned (pd_vaddr pd)"
        "pd_vaddr pd < 2147483648" "cm_free_core (clock_index vm) vm = Some vm'" "evicted_frame k ss vm (int (clock_index vm)) vm'"
      using evict_at_clock[OF Suc.prems True] by blast
    show ?thesis
    proof (cases "pd_use pd")
      case False
      then have "clock_first (Suc n) vm = Some (Some (int (clock_index vm)), vm')"
        using cd True ev by (simp add: clock_index_def[symmetric])
      then show ?thesis using ev(6) by (simp add: clock_post_def)
    next
      case use: True
      obtain tlb where tlb: "tlb_invalidate_vaddr (pd_vaddr pd) (vm_tlb vm) = Some tlb" "tlb_ok k tlb"
        using tlb_invalidate_ok[OF vm_inv_parts(1)[OF Suc.prems] ev(3,4)] by blast
      let ?vm = "set_pd r (pd\<lparr>pd_use := False\<rparr>) (vm\<lparr>vm_tlb := tlb\<rparr>)"
      have "clock_first (Suc n) vm = clock_first n (clock_advance ?vm)"
        using cd True use ev tlb by (simp add: clock_index_def[symmetric] upd_pd_Some)
      from go_on[OF this vm_inv_touch[OF Suc.prems ev(2) tlb(2)]] show ?thesis .
    qed
  qed
qed

text \<open>The second round takes the first frame that is not the kernel's.\<close>

lemma frame_at_clock_advance [simp]: "frame_at i (clock_advance vm) = frame_at i vm"
  by (simp add: clock_advance_def frame_at_def)

lemma clock_second_spec:
  assumes "vm_inv k {} [] (s # ss) vm" and "j < n"
    and "cd_kern (frame_at (nat (lowest_frame (vm_cm vm) +
           (clock_pointer (vm_cm vm) + int j) mod (cm_size (vm_cm vm) - lowest_frame (vm_cm vm)))) vm) = 0"
  shows "\<exists>f vm'. clock_second n vm = Some (Some f, vm') \<and> evicted_frame k ss vm f vm'"
  using assms
proof (induction n arbitrary: vm j)
  case (Suc n)
  have cd: "get_cd (clock_index vm) (vm_cm vm) = Some (frame_at (clock_index vm) vm)"
      "cd_id (frame_at (clock_index vm) vm) = int (clock_index vm)" using get_cd_clock[OF Suc.prems(1)] by auto
  show ?case
  proof (cases "cd_kern (frame_at (clock_index vm) vm) = 0")
    case True
    obtain vm' r pd where ev: "cd_pd (frame_at (clock_index vm) vm) = Some r"
        "cm_free_core (clock_index vm) vm = Some vm'" "evicted_frame k ss vm (int (clock_index vm)) vm'"
      using evict_at_clock[OF Suc.prems(1) True] by blast
    then have "clock_second (Suc n) vm = Some (Some (int (clock_index vm)), vm')"
      using cd True by (simp add: clock_index_def[symmetric])
    with ev(3) show ?thesis by blast
  next
    case False
    define span where "span = cm_size (vm_cm vm) - lowest_frame (vm_cm vm)"
    have clk: "0 \<le> clock_pointer (vm_cm vm)" "clock_pointer (vm_cm vm) < span"
      using vm_inv_parts(3)[OF Suc.prems(1)] by (simp_all add: cm_wf_def span_def)
    have "j \<noteq> 0"
    proof
      assume "j = 0"
      then have "cd_kern (frame_at (clock_index vm) vm) = 0"
        using Suc.prems(3) clk by (simp add: clock_index_def clock_to_index_def span_def[symmetric] add.commute)
      then show False using False by simp
    qed
    then obtain i where i: "j = Suc i" by (cases j) auto
    note adv = vm_inv_clock_advance[OF Suc.prems(1)]
    have "((clock_pointer (vm_cm vm) + 1) mod span + int i) mod span = (clock_pointer (vm_cm vm) + int j) mod span"
      by (simp add: i mod_simps algebra_simps)
    then have "cd_kern (frame_at (nat (lowest_frame (vm_cm (clock_advance vm)) + (clock_pointer (vm_cm (clock_advance vm)) + int i)
        mod (cm_size (vm_cm (clock_advance vm)) - lowest_frame (vm_cm (clock_advance vm))))) (clock_advance vm)) = 0"
      using Suc.prems(3) by (simp add: clock_advance_def[of vm] span_def) (simp add: frame_at_def)
    then obtain f vm' where "clock_second n (clock_advance vm) = Some (Some f, vm')" "evicted_frame k ss (clock_advance vm) f vm'"
      using Suc.IH[OF adv(1), of i] Suc.prems(2) i by auto
    moreover have "clock_second (Suc n) vm = clock_second n (clock_advance vm)"
      using cd False by (simp add: clock_index_def[symmetric])
    ultimately show ?thesis using evicted_frame_trans[OF adv(2,3)] by auto
  qed
qed simp

lemma cm_push_to_swap_spec:
  assumes inv: "vm_inv k {} [] (s # ss) vm" and i: "in_core i vm" "cd_kern (frame_at i vm) = 0"
  shows "\<exists>f vm'. cm_push_to_swap vm = Some (f, vm') \<and> evicted_frame k ss vm f vm'"
proof -
  define span where "span = cm_size (vm_cm vm) - lowest_frame (vm_cm vm)"
  obtain r vm1 where first: "clock_first (nat span) vm = Some (r, vm1)" "clock_post k (s # ss) ss vm (r, vm1)"
    using clock_first_spec[OF inv, of "nat span"] by auto
  show ?thesis
  proof (cases r)
    case (Some f)
    with first show ?thesis by (simp add: cm_push_to_swap_def span_def clock_post_def)
  next
    case None
    then have vm1: "vm_inv k {} [] (s # ss) vm1" "pages_kept vm vm1" "cm_same vm vm1"
      using first(2) by (simp_all add: clock_post_def)
    have wf: "cm_wf {} (vm_cm vm1) []" using vm_inv_parts(3)[OF vm1(1)] .
    have sz: "cm_size (vm_cm vm1) - lowest_frame (vm_cm vm1) = span" "lowest_frame (vm_cm vm1) = lowest_frame (vm_cm vm)"
        "in_core i vm1" "cd_kern (frame_at i vm1) = 0"
      using vm1(3) i by (simp_all add: cm_same_def span_def in_core_def)
    define j where "j = nat ((int i - lowest_frame (vm_cm vm1) - clock_pointer (vm_cm vm1)) mod span)"
    have pos: "0 < span" using wf sz by (simp add: cm_wf_def)
    have "(clock_pointer (vm_cm vm1) + int j) mod span = (int i - lowest_frame (vm_cm vm1)) mod span"
      using pos by (simp add: j_def mod_simps)
    also have "\<dots> = int i - lowest_frame (vm_cm vm1)"
      using sz wf by (intro mod_pos_pos_trivial) (auto simp: in_core_def cm_wf_def)
    finally have "nat (lowest_frame (vm_cm vm1) + (clock_pointer (vm_cm vm1) + int j) mod span) = i" by simp
    moreover have "j < nat span" using pos by (simp add: j_def)
    ultimately obtain f vm' where "clock_second (nat span) vm1 = Some (Some f, vm')" "evicted_frame k ss vm1 f vm'"
      using clock_second_spec[OF vm1(1), of j "nat span"] sz by auto
    with first(1) None evicted_frame_trans[OF vm1(2,3)] show ?thesis by (simp add: cm_push_to_swap_def span_def)
  qed
qed

section \<open>A frame for a page\<close>

text \<open>There is a frame to be had: a free one, or one to evict and a place in the swap file.\<close>

definition frame_available :: "nat list \<Rightarrow> nat list \<Rightarrow> vmsys \<Rightarrow> bool" where
  "frame_available fs ss vm \<longleftrightarrow> fs \<noteq> [] \<or> ss \<noteq> [] \<and> (\<exists>i. in_core i vm \<and> cd_kern (frame_at i vm) = 0)"

text \<open>A frame leaves the free list, from any place of it, and is in transit.\<close>

lemma cm_wf_take:
  assumes wf: "cm_wf X cm (xs @ i # ys)" and fl: "frame_list cm' (xs @ ys)" and same: "same_frames i cm cm'"
    and fr: "\<not> cd_free (core_details cm' ! i)"
  shows "cm_wf (insert i X) cm' (xs @ ys)"
proof -
  have "frame_list cm (xs @ i # ys)" using wf by (simp add: cm_wf_def)
  then have b: "j < length (core_details cm)" if "j \<in> set (xs @ i # ys)" for j using frame_list_bound that by blast
  have "i \<notin> set (xs @ ys)" using \<open>frame_list cm (xs @ i # ys)\<close> by (auto simp: frame_list_def)
  moreover have "cd_kern (core_details cm' ! j) = 0" if "j \<in> set (xs @ ys)" "j \<noteq> i" "j \<notin> X" for j
    using wf same b[of j] that by (auto simp: cm_wf_def same_frames_def)
  moreover have "cd_id (core_details cm' ! j) = int j \<and> (cd_free (core_details cm' ! j) \<longleftrightarrow> j \<in> set (xs @ ys))"
    if "nat (lowest_frame cm) \<le> j" "j < length (core_details cm)" for j
    using wf same fr that calculation(1) by (cases "j = i") (simp_all add: cm_wf_def same_frames_def)
  ultimately show ?thesis using wf fl same by (simp add: cm_wf_def same_frames_def)
qed

lemma vm_inv_take:
  assumes inv: "vm_inv k X (xs @ i # ys) ss vm" and fl: "frame_list cm (xs @ ys)" and same: "same_frames i (vm_cm vm) cm"
    and fr: "\<not> cd_free (core_details cm ! i)"
  shows "vm_inv k (insert i X) (xs @ ys) ss (vm\<lparr>vm_cm := cm\<rparr>)" (is "vm_inv _ _ _ _ ?vm")
    and "in_core i (vm\<lparr>vm_cm := cm\<rparr>)" and "pages_kept vm (vm\<lparr>vm_cm := cm\<rparr>)"
    and "get_pd r (vm\<lparr>vm_cm := cm\<rparr>) = Some pd \<Longrightarrow> pd_pfn pd \<noteq> int i"
proof -
  have wf: "cm_wf X (vm_cm vm) (xs @ i # ys)" using vm_inv_parts(3)[OF inv] .
  then have "frame_list (vm_cm vm) (xs @ i # ys)" by (simp add: cm_wf_def)
  then have "i < length (core_details (vm_cm vm))" using frame_list_bound by (metis in_set_conv_decomp)
  then show "in_core i ?vm" using same wf by (simp add: in_core_def same_frames_def cm_wf_def)
  have core: "in_core j ?vm = in_core j vm" for j using same by (simp add: in_core_def same_frames_def)
  have at: "cd_pd (frame_at j ?vm) = cd_pd (frame_at j vm)" "j \<noteq> i \<Longrightarrow> cd_kern (frame_at j ?vm) = cd_kern (frame_at j vm)"
    if "in_core j vm" for j
    using same that by (simp_all add: frame_at_def same_frames_def in_core_def)
  have page: "page_wf X (xs @ i # ys) ss vm r pd" if "get_pd r vm = Some pd" for r pd using vm_inv_pageD[OF inv that] .
  show "get_pd r ?vm = Some pd \<Longrightarrow> pd_pfn pd \<noteq> int i" using page[of r pd] by (auto simp: page_wf_def)
  have page': "page_wf (insert i X) (xs @ ys) ss ?vm r pd" if "get_pd r vm = Some pd" for r pd
    using page[OF that] at core by (simp add: page_wf_def)
  have frames: "\<exists>r pd. cd_pd (frame_at j ?vm) = Some r \<and> get_pd r ?vm = Some pd \<and> pd_pfn pd = int j"
    if "in_core j ?vm" "j \<notin> insert i X" "j \<notin> set (xs @ ys)" "cd_kern (frame_at j ?vm) = 0" for j
    using vm_inv_frameD[OF inv, of j] that at core by simp
  have uniq: "r = r'" if "get_pd r ?vm = Some pd" "get_pd r' ?vm = Some pd'" "pd_sfn pd \<noteq> -1" "pd_sfn pd = pd_sfn pd'" for r r' pd pd'
    using vm_inv_sfnD[OF inv _ _ that(3,4)] that(1,2) by simp
  show "vm_inv k (insert i X) (xs @ ys) ss ?vm"
    unfolding vm_inv_def using vm_inv_parts[OF inv] cm_wf_take[OF wf fl same fr] page' uniq frames by simp
  show "pages_kept vm ?vm"
    by (simp add: pages_kept_def page_kept_def page_contents_def frame_bytes_def split: option.splits)
qed

lemma getppage_pop:
  assumes inv: "vm_inv k {} (i # fs) ss vm"
  shows "\<exists>vm'. cm_getppage vm = Some (int i, vm') \<and> vm_inv k {i} fs ss vm' \<and> in_core i vm' \<and> pages_kept vm vm' \<and>
    (\<forall>r pd. get_pd r vm' = Some pd \<longrightarrow> pd_pfn pd \<noteq> int i)"
proof -
  have "frame_list (vm_cm vm) (i # fs)" using vm_inv_parts(3)[OF inv] by (simp add: cm_wf_def)
  then obtain cm where cm: "free_frame_list_pop (vm_cm vm) = Some (Some i, cm)" "frame_list cm fs" "same_frames i (vm_cm vm) cm"
      "\<not> cd_free (core_details cm ! i)"
    using free_frame_list_pop_spec by blast
  note taken = vm_inv_take[of k "{}" "[]" i fs ss vm cm, simplified, OF inv cm(2-4)]
  have "cd_id (core_details cm ! i) = int i" "i < length (core_details cm)"
    using vm_inv_parts(3)[OF taken(1)] taken(2) by (simp_all add: cm_wf_def in_core_def)
  then have "cm_getppage vm = Some (int i, vm\<lparr>vm_cm := cm\<rparr>)" using cm(1) by (simp add: cm_getppage_def get_cd_def)
  with taken show ?thesis by (intro exI[of _ "vm\<lparr>vm_cm := cm\<rparr>"]) simp
qed

lemma getppage_evict:
  assumes inv: "vm_inv k {} [] (s # ss) vm" and i: "in_core i vm" "cd_kern (frame_at i vm) = 0"
  shows "\<exists>f vm'. cm_getppage vm = Some (f, vm') \<and> evicted_frame k ss vm f vm'"
proof -
  have "frame_list (vm_cm vm) []" using vm_inv_parts(3)[OF inv] by (simp add: cm_wf_def)
  then have "cm_getppage vm = cm_push_to_swap vm" by (simp add: cm_getppage_def free_frame_list_pop_empty)
  with cm_push_to_swap_spec[OF assms] show ?thesis by simp
qed

lemma cm_getppage_spec:
  assumes inv: "vm_inv k {} fs ss vm" and av: "frame_available fs ss vm"
  shows "\<exists>i vm' fs' ss'. cm_getppage vm = Some (int i, vm') \<and> vm_inv k {i} fs' ss' vm' \<and> in_core i vm' \<and> i \<notin> set fs' \<and>
    pages_kept vm vm' \<and> (\<forall>r pd. get_pd r vm' = Some pd \<longrightarrow> pd_pfn pd \<noteq> int i)"
proof (cases fs)
  case (Cons i fs')
  then have "i \<notin> set fs'" using vm_inv_parts(3)[OF inv] by (simp add: cm_wf_def frame_list_def)
  with getppage_pop[of k i fs' ss vm] inv Cons show ?thesis by blast
next
  case Nil
  then obtain s ss1 i where ss: "ss = s # ss1" "in_core i vm" "cd_kern (frame_at i vm) = 0"
    using av by (cases ss) (auto simp: frame_available_def)
  then obtain f vm' where f: "cm_getppage vm = Some (f, vm')" "evicted_frame k ss1 vm f vm'"
    using getppage_evict[of k s ss1 vm i] inv Nil by blast
  then obtain i ss' where i: "f = int i" "in_core i vm'" "vm_inv k {i} [] ss' vm'" "pages_kept vm vm'" "cd_pd (frame_at i vm') = None"
    unfolding evicted_frame_def by blast
  have "pd_pfn pd \<noteq> int i" if "get_pd r vm' = Some pd" for r pd
    using vm_inv_pageD[OF i(3) that] i(5) by (auto simp: page_wf_def)
  with f(1) i show ?thesis by (intro exI[of _ i] exI[of _ vm'] exI[of _ "[]"] exI[of _ ss']) simp
qed

lemma getppage_after_eviction:
  assumes "evicted_frame k ss vm f vm'"
  shows "cm_getppage vm' = None"
proof -
  obtain i ss' where i: "vm_inv k {i} [] ss' vm'" "cd_pd (frame_at i vm') = None" "cd_kern (frame_at i vm') = 0" "i = clock_index vm'"
    using assms unfolding evicted_frame_def by blast
  have wf: "cm_wf {i} (vm_cm vm') []" using vm_inv_parts(3)[OF i(1)] .
  then obtain n where n: "nat (cm_size (vm_cm vm') - lowest_frame (vm_cm vm')) = Suc n"
    by (cases "nat (cm_size (vm_cm vm') - lowest_frame (vm_cm vm'))") (auto simp: cm_wf_def)
  have "clock_first (Suc n) vm' = None" using get_cd_clock(1)[OF i(1)] i by (simp add: clock_index_def[symmetric])
  then have "cm_push_to_swap vm' = None" by (simp add: cm_push_to_swap_def n del: clock_first.simps)
  moreover have "frame_list (vm_cm vm') []" using wf by (simp add: cm_wf_def)
  ultimately show ?thesis by (simp add: cm_getppage_def free_frame_list_pop_empty)
qed

section \<open>Bringing a page in\<close>

text \<open>
  The state after page \<open>r\<close>, which was in no frame, is installed in frame \<open>i\<close>; \<open>m\<close> is the memory with its contents. \<open>installs\<close>
  collects what is known when that happens.
\<close>

definition cm_installed :: "nat \<Rightarrow> pdref \<Rightarrow> coremap \<Rightarrow> coremap" where
  "cm_installed i r cm = cm\<lparr>core_details := (core_details cm)[i := (core_details cm ! i)\<lparr>cd_pd := Some r, cd_free := False, cd_kern := 0\<rparr>]\<rparr>"

definition install :: "nat \<Rightarrow> pdref \<Rightarrow> page_detail \<Rightarrow> tlbsys \<Rightarrow> swapsys \<Rightarrow> (int \<Rightarrow> 8 word) \<Rightarrow> vmsys \<Rightarrow> vmsys" where
  "install i r pd tlb sw m vm = set_pd r (pd\<lparr>pd_sfn := -1, pd_pfn := int i, pd_valid := True\<rparr>)
     (vm\<lparr>vm_swap := sw, ram := m, vm_tlb := tlb, vm_cm := cm_installed i r (vm_cm vm)\<rparr>)"

definition installs :: "nat \<Rightarrow> nat list \<Rightarrow> nat list \<Rightarrow> nat list \<Rightarrow> nat \<Rightarrow> pdref \<Rightarrow> page_detail \<Rightarrow> tlbsys \<Rightarrow> swapsys \<Rightarrow> (int \<Rightarrow> 8 word) \<Rightarrow> vmsys \<Rightarrow> bool" where
  "installs k fs ss ss' i r pd tlb sw m vm \<longleftrightarrow> vm_inv (Suc k) {i} fs ss vm \<and> in_core i vm \<and> i \<notin> set fs \<and>
     (\<forall>q qd. get_pd q vm = Some qd \<longrightarrow> pd_pfn qd \<noteq> int i) \<and> get_pd r vm = Some pd \<and> pd_pfn pd = -1 \<and> tlb_ok k tlb \<and>
     (\<forall>j. j \<noteq> int i \<longrightarrow> read_bytes (j * 4096) 4096 m = frame_bytes j vm) \<and>
     swap_list sw ss' \<and> length (pageList sw) = length (pageList (vm_swap vm)) \<and> swapdisk sw = swapdisk (vm_swap vm) \<and>
     ss' = (if pd_sfn pd = -1 then ss else nat (pd_sfn pd) # ss)"

lemma install_fields [simp]:
  "vm_tlb (install i r pd tlb sw m vm) = tlb" "vm_swap (install i r pd tlb sw m vm) = sw" "ram (install i r pd tlb sw m vm) = m"
  "vm_cm (install i r pd tlb sw m vm) = cm_installed i r (vm_cm vm)" "in_core j (install i r pd tlb sw m vm) = in_core j vm"
  by (simp_all add: install_def in_core_def cm_installed_def)

lemma frame_at_install:
  "in_core i vm \<Longrightarrow> frame_at j (install i r pd tlb sw m vm) =
     (if j = i then (frame_at i vm)\<lparr>cd_pd := Some r, cd_free := False, cd_kern := 0\<rparr> else frame_at j vm)"
  by (simp add: frame_at_def cm_installed_def in_core_def)

lemma get_pd_install:
  "get_pd r vm = Some pd \<Longrightarrow> get_pd q (install i r pd tlb sw m vm) =
     (if q = r then Some (pd\<lparr>pd_sfn := -1, pd_pfn := int i, pd_valid := True\<rparr>) else get_pd q vm)"
  by (simp add: install_def get_pd_set_pd)

lemma cm_wf_installed:
  assumes "cm_wf {i} cm fs" and "i \<notin> set fs" and "i < length (core_details cm)"
  shows "cm_wf {} (cm_installed i r cm) fs"
proof -
  have "frame_list (cm_installed i r cm) fs"
    using assms by (simp add: cm_wf_def frame_list_def cm_installed_def seg_update)
  with assms show ?thesis by (auto simp: cm_wf_def cm_installed_def nth_list_update)
qed

lemma install_page_wf:
  assumes ins: "installs k fs ss ss' i r pd tlb sw m vm" and q: "get_pd q (install i r pd tlb sw m vm) = Some qd"
  shows "page_wf {} fs ss' (install i r pd tlb sw m vm) q qd"
proof -
  have e: "vm_inv (Suc k) {i} fs ss vm" "in_core i vm" "i \<notin> set fs" "get_pd r vm = Some pd"
      "length (pageList sw) = length (pageList (vm_swap vm))" "swapdisk sw = swapdisk (vm_swap vm)"
      "ss' = (if pd_sfn pd = -1 then ss else nat (pd_sfn pd) # ss)" and no: "\<forall>q qd. get_pd q vm = Some qd \<longrightarrow> pd_pfn qd \<noteq> int i"
    using ins by (simp_all add: installs_def)
  show ?thesis
  proof (cases "q = r")
    case True
    then have "qd = pd\<lparr>pd_sfn := -1, pd_pfn := int i, pd_valid := True\<rparr>" using q e by (simp add: get_pd_install)
    then show ?thesis using vm_inv_pageD[OF e(1,4)] e True by (simp add: page_wf_def frame_at_install)
  next
    case False
    then have q: "get_pd q vm = Some qd" using q e by (simp add: get_pd_install)
    have pq: "page_wf {i} fs ss vm q qd" using vm_inv_pageD[OF e(1) q] .
    have "pd_pfn qd \<noteq> int i" using no q by blast
    then have "nat (pd_pfn qd) \<noteq> i" if "pd_pfn qd \<noteq> -1" using that pq by (auto simp: page_wf_def)
    moreover have "nat (pd_sfn qd) \<noteq> nat (pd_sfn pd)" if "pd_sfn qd \<noteq> -1" "pd_sfn pd \<noteq> -1"
      using vm_inv_sfnD[OF e(1) q e(4) that(1)] vm_inv_pageD[OF e(1,4)] pq that False by (auto simp: page_wf_def nat_eq_iff2)
    ultimately show ?thesis using pq e(5-7) by (auto simp: page_wf_def frame_at_install[OF e(2)])
  qed
qed

lemma install_inv:
  assumes ins: "installs k fs ss ss' i r pd tlb sw m vm"
  shows "vm_inv k {} fs ss' (install i r pd tlb sw m vm)" (is "vm_inv _ _ _ _ ?vm")
proof -
  have e: "vm_inv (Suc k) {i} fs ss vm" "in_core i vm" "i \<notin> set fs" "get_pd r vm = Some pd" "tlb_ok k tlb" "swap_list sw ss'"
    using ins unfolding installs_def by blast+
  have uniq: "q = q'" if q: "get_pd q ?vm = Some qd" "get_pd q' ?vm = Some qd'" "pd_sfn qd \<noteq> -1" "pd_sfn qd = pd_sfn qd'" for q q' qd qd'
  proof -
    have "q \<noteq> r" "q' \<noteq> r" using q by (auto simp: get_pd_install[OF e(4)])
    with q(1,2) have "get_pd q vm = Some qd" "get_pd q' vm = Some qd'" by (simp_all add: get_pd_install[OF e(4)])
    from vm_inv_sfnD[OF e(1) this q(3,4)] show ?thesis .
  qed
  have frames: "\<exists>q qd. cd_pd (frame_at j ?vm) = Some q \<and> get_pd q ?vm = Some qd \<and> pd_pfn qd = int j"
    if j: "in_core j ?vm" "j \<notin> {}" "j \<notin> set fs" "cd_kern (frame_at j ?vm) = 0" for j
  proof (cases "j = i")
    case True
    then show ?thesis by (simp add: frame_at_install[OF e(2)] get_pd_install[OF e(4)])
  next
    case False
    then obtain q qd where q: "cd_pd (frame_at j vm) = Some q" "get_pd q vm = Some qd" "pd_pfn qd = int j"
      using vm_inv_frameD[OF e(1), of j] j by (auto simp: frame_at_install[OF e(2)])
    have "q \<noteq> r" using q ins by (auto simp: installs_def)
    then show ?thesis using q False by (simp add: frame_at_install[OF e(2)] get_pd_install[OF e(4)])
  qed
  have "cm_wf {} (cm_installed i r (vm_cm vm)) fs"
    using cm_wf_installed vm_inv_parts(3)[OF e(1)] e(2,3) by (simp add: in_core_def)
  then show ?thesis unfolding vm_inv_def using install_page_wf[OF ins] uniq frames e(5,6) by simp
qed

lemma install_kept:
  assumes ins: "installs k fs ss ss' i r pd tlb sw m vm" and q: "q \<noteq> r"
  shows "page_kept vm (install i r pd tlb sw m vm) q"
proof (cases "get_pd q vm")
  case None
  then show ?thesis using ins q by (auto simp: page_kept_def installs_def get_pd_install)
next
  case (Some qd)
  have e: "get_pd r vm = Some pd" "swapdisk sw = swapdisk (vm_swap vm)" "pd_pfn qd \<noteq> int i"
      "\<And>j. j \<noteq> int i \<Longrightarrow> read_bytes (j * 4096) 4096 m = frame_bytes j vm"
    using ins Some unfolding installs_def by blast+
  then have "page_contents (install i r pd tlb sw m vm) q = page_contents vm q"
    using q Some by (simp add: page_contents_def get_pd_install frame_bytes_def)
  then show ?thesis using Some q e(1) by (intro page_kept_same[OF Some]) (simp_all add: get_pd_install)
qed

text \<open>The end of \<^verbatim>\<open>pt_page_in\<close>, once the page is in its frame.\<close>

lemma finish_install:
  assumes "in_core i vm" and "get_pd r vm = Some pd"
  shows "cm_finish_paging (int i) r (set_pd r (pd\<lparr>pd_pfn := int i, pd_sfn := -1\<rparr>) (vm\<lparr>vm_swap := sw, ram := m, vm_tlb := tlb\<rparr>)) =
    Some (install i r pd tlb sw m vm)"
  using assms
  by (simp add: cm_finish_paging_def upd_cd_def in_core_def upd_pd_Some get_pd_set_pd cm_installed_def install_def)

lemma page_aligned_frame [simp]: "page_aligned (f * 4096)"
  by (simp add: page_aligned_def)

definition page_of :: "segment \<Rightarrow> nat \<Rightarrow> int \<Rightarrow> pdref" where
  "page_of s pt vaddr = Pdref pt (nat (u32 (vaddr - sg_vbase s) div 4096))"

text \<open>Taking a frame for page \<open>r\<close>, which is in none: as far as both ways to fill the frame go together.\<close>

lemma getppage_for_page:
  assumes inv: "vm_inv (Suc k) {} fs ss vm" and av: "frame_available fs ss vm" and pd: "get_pd r vm = Some pd" "pd_pfn pd = -1"
  shows "\<exists>i vm2 pd2 fs' ss'. cm_getppage (set_pd r (pd\<lparr>pd_use := True\<rparr>) vm) = Some (int i, vm2) \<and> vm_inv (Suc k) {i} fs' ss' vm2 \<and>
    in_core i vm2 \<and> i \<notin> set fs' \<and> pages_kept vm vm2 \<and> (\<forall>q qd. get_pd q vm2 = Some qd \<longrightarrow> pd_pfn qd \<noteq> int i) \<and>
    get_pd r vm2 = Some pd2 \<and> pd_pfn pd2 = -1 \<and> pd_sfn pd2 = pd_sfn pd"
proof -
  let ?vm = "set_pd r (pd\<lparr>pd_use := True\<rparr>) (vm\<lparr>vm_tlb := vm_tlb vm\<rparr>)"
  note touch = vm_inv_touch[OF inv pd(1) vm_inv_parts(1)[OF inv], of True]
  have "frame_available fs ss ?vm" using av by (simp add: frame_available_def in_core_def frame_at_def)
  then obtain i vm2 fs' ss' where g: "cm_getppage ?vm = Some (int i, vm2)" "vm_inv (Suc k) {i} fs' ss' vm2" "in_core i vm2"
      "i \<notin> set fs'" "pages_kept ?vm vm2" "\<forall>q qd. get_pd q vm2 = Some qd \<longrightarrow> pd_pfn qd \<noteq> int i"
    using cm_getppage_spec[OF touch(1)] by blast
  have kept: "pages_kept vm vm2" using pages_kept_trans[OF touch(2) g(5)] .
  then have "page_kept vm vm2 r" by (simp add: pages_kept_def)
  then obtain pd2 where "get_pd r vm2 = Some pd2" "pd_pfn pd2 = -1" "pd_sfn pd2 = pd_sfn pd"
    using pd by (auto simp: page_kept_def)
  with g kept show ?thesis by simp blast
qed

lemma other_frames_untouched:
  assumes "length bytes = 4096" and "j \<noteq> (f :: int)"
  shows "read_bytes (j * 4096) 4096 (write_bytes (f * 4096) bytes m) = read_bytes (j * 4096) 4096 m"
proof -
  have "j + 1 \<le> f \<or> f + 1 \<le> j" using assms(2) by linarith
  then show ?thesis using assms(1) by (intro read_write_disjoint) auto
qed

lemma frame_bytes_install:
  "length bytes = 4096 \<Longrightarrow> frame_bytes f (install i r pd tlb sw (write_bytes (f * 4096) bytes m) vm) = bytes"
  using read_write_bytes[of "f * 4096" bytes m] by (simp add: frame_bytes_def)

lemma swapped_page_in:
  assumes inv: "vm_inv (Suc k) {} fs ss vm" and av: "frame_available fs ss vm" and s: "sg_pt s = Some pt"
    and pd: "get_pd (page_of s pt vaddr) vm = Some pd" "pd_sfn pd \<noteq> -1" and v: "page_aligned vaddr"
  shows "\<exists>vm' fs' ss' pd'. pt_page_in vread junk vaddr s vm = Some vm' \<and> vm_inv k {} fs' ss' vm' \<and>
    pages_kept_but (page_of s pt vaddr) vm vm' \<and> get_pd (page_of s pt vaddr) vm' = Some pd' \<and> pd_pfn pd' \<noteq> -1 \<and>
    page_contents vm' (page_of s pt vaddr) = page_contents vm (page_of s pt vaddr)"
proof -
  define r where "r = page_of s pt vaddr"
  have pd: "get_pd r vm = Some pd" "pd_sfn pd \<noteq> -1" "pd_pfn pd = -1" "pd_dirty pd"
    using pd vm_inv_pageD[OF inv pd(1)] by (simp_all add: r_def page_wf_def)
  obtain i vm2 pd2 fs' ss' where g: "cm_getppage (set_pd r (pd\<lparr>pd_use := True\<rparr>) vm) = Some (int i, vm2)"
      "vm_inv (Suc k) {i} fs' ss' vm2" "in_core i vm2" "i \<notin> set fs'" "pages_kept vm vm2"
      "\<forall>q qd. get_pd q vm2 = Some qd \<longrightarrow> pd_pfn qd \<noteq> int i" "get_pd r vm2 = Some pd2" "pd_pfn pd2 = -1" "pd_sfn pd2 = pd_sfn pd"
    using getppage_for_page[OF inv av pd(1,3)] by blast
  have w: "page_wf {i} fs' ss' vm2 r pd2" using vm_inv_pageD[OF g(2,7)] .
  define n where "n = nat (pd_sfn pd2)"
  have n: "pd_sfn pd2 = int n" "n < length (pageList (vm_swap vm2))" "n \<notin> set ss'" and len: "length (swapdisk (vm_swap vm2) (int n)) = 4096"
    using w g(9) pd(2) by (auto simp: page_wf_def n_def)
  obtain sw where sw: "swap_read (int n) (vm_swap vm2) = Some (swapdisk (vm_swap vm2) (int n), sw)" "swap_list sw (n # ss')"
      "length (pageList sw) = length (pageList (vm_swap vm2))" "swapdisk sw = swapdisk (vm_swap vm2)"
    using swap_release_spec[OF vm_inv_parts(2)[OF g(2)] n(2,3)] by auto
  obtain tlb where tlb: "tlb_add_entry vaddr (int i * 4096) (sg_writeable s) (vm_tlb vm2) = Some tlb" "tlb_ok k tlb"
    using tlb_add_entry_free[OF vm_inv_parts(1)[OF g(2)] v, of "int i * 4096" "sg_writeable s"] by auto
  define m where "m = write_bytes (int i * 4096) (swapdisk (vm_swap vm2) (int n)) (ram vm2)"
  have fin: "cm_finish_paging (int i) r (set_pd r (pd2\<lparr>pd_pfn := int i, pd_sfn := -1\<rparr>) (vm2\<lparr>vm_swap := sw, ram := m, vm_tlb := tlb\<rparr>)) =
      Some (install i r pd2 tlb sw m vm2)" using finish_install[OF g(3,7)] .
  have run: "pt_page_in vread junk vaddr s vm = Some (install i r pd2 tlb sw m vm2)"
    using s pd g(1,7) n(1) sw(1) tlb(1) fin g(9) unfolding pt_page_in_def page_of_def[symmetric] r_def[symmetric]
    by (simp add: page_of_def[symmetric] r_def[symmetric] upd_pd_Some get_pd_set_pd m_def[symmetric])
  have ins: "installs k fs' ss' (n # ss') i r pd2 tlb sw m vm2"
    using g n sw tlb pd(2) other_frames_untouched[OF len] by (simp add: installs_def m_def frame_bytes_def)
  have kept: "pages_kept_but r vm (install i r pd2 tlb sw m vm2)" "page_contents vm2 r = page_contents vm r"
    using pages_kept_but_trans[OF g(5) install_kept[OF ins]] pages_kept_contents[OF g(5) pd(1,4)] by simp_all
  have "page_contents vm2 r = Some (swapdisk (vm_swap vm2) (int n))"
    using g(7,8,9) pd(2) n(1) by (simp add: page_contents_def)
  then have "page_contents (install i r pd2 tlb sw m vm2) r = page_contents vm r"
    using kept(2) frame_bytes_install[OF len] g(7) by (simp add: page_contents_def get_pd_install m_def)
  with run install_inv[OF ins] kept(1) g(7) show ?thesis unfolding r_def[symmetric]
    by (intro exI[of _ "install i r pd2 tlb sw m vm2"] exI[of _ fs'] exI[of _ "n # ss'"]) (simp add: get_pd_install)
qed

section \<open>Loading from the executable\<close>

text \<open>
  \<open>reads_file\<close>: the read operation of a vnode whose file has the given contents moves as many bytes as are asked for
  and there are, from the offset on, with \<^verbatim>\<open>uiomove\<close> (\<^verbatim>\<open>kern/include/vnode.h\<close>: \<^verbatim>\<open>vop_read\<close>).
\<close>

definition reads_file :: "vop_read \<Rightarrow> 8 word list \<Rightarrow> bool" where
  "reads_file vread file \<longleftrightarrow> (\<forall>u mem. uio_rw u = UIO_READ \<and> 0 \<le> uio_offset u \<longrightarrow>
     vread u mem = (let bytes = take (nat (uio_resid u)) (drop (nat (uio_offset u)) file) in
       case uiomove bytes (int (length bytes)) u mem of None \<Rightarrow> None | Some (e, _, u', mem') \<Rightarrow> Some (e, u', mem')))"

lemma reads_fileD:
  assumes "reads_file vread file" and "uio_rw u = UIO_READ" and "0 \<le> uio_offset u"
    and "uiomove (take (nat (uio_resid u)) (drop (nat (uio_offset u)) file))
           (int (length (take (nat (uio_resid u)) (drop (nat (uio_offset u)) file)))) u mem = Some (e, b, u', mem')"
  shows "vread u mem = Some (e, u', mem')"
  using assms unfolding reads_file_def by (auto simp: Let_def)

text \<open>The page of segment \<open>s\<close> that starts \<open>d\<close> bytes after its base: the bytes of the file, then zeros.\<close>

definition file_page :: "8 word list \<Rightarrow> segment \<Rightarrow> int \<Rightarrow> page" where
  "file_page file s d =
     (let n = nat (min 4096 (p_filesz s - d)) in take n (drop (nat (d + p_offset s)) file) @ replicate (4096 - n) 0)"

text \<open>A segment as \<^verbatim>\<open>as_define_region\<close> makes it of a sound executable.\<close>

definition segment_wf :: "8 word list \<Rightarrow> segment \<Rightarrow> bool" where
  "segment_wf file s \<longleftrightarrow> 0 \<le> sg_vbase s \<and> 0 \<le> sg_size s \<and> sg_vbase s + sg_size s * 4096 \<le> 2147483648 \<and> 0 \<le> p_offset s \<and> 0 \<le> p_filesz s \<and>
     p_filesz s \<le> sg_size s * 4096 \<and> p_offset s + p_filesz s \<le> int (length file) \<and> length file < 2147483648 \<and>
     p_offset s + sg_size s * 4096 < 2147483648"

definition load_mem :: "vmsys \<Rightarrow> umem" where
  "load_mem vm = \<lparr>um_bytes = ram vm, um_ok = (\<lambda>a. 0 \<le> a \<and> a < 4096 * cm_size (vm_cm vm)), um_space = None\<rparr>"

definition load_uio :: "segment \<Rightarrow> int \<Rightarrow> int \<Rightarrow> int \<Rightarrow> uio" where
  "load_uio s d f resid = \<lparr>iov_base = f * 4096, iov_len = 4096, uio_offset = d + p_offset s, uio_resid = resid,
     uio_segflg = UIO_SYSSPACE, uio_rw = UIO_READ, uio_space = None\<rparr>"

definition load_args :: "8 word list \<Rightarrow> segment \<Rightarrow> int \<Rightarrow> int \<Rightarrow> vmsys \<Rightarrow> bool" where
  "load_args file s d f vm \<longleftrightarrow> segment_wf file s \<and> 0 \<le> d \<and> d + 4096 \<le> sg_size s * 4096 \<and> 0 \<le> f \<and> f < cm_size (vm_cm vm)"

lemma load_uio_fits:
  assumes "load_args file s d f vm" and "0 \<le> c" "c \<le> resid" "c \<le> 4096" "resid < 2147483648"
  shows "uio_fits (load_uio s d f resid) (load_mem vm) c"
  using assms by (simp add: uio_fits_def load_uio_def load_mem_def load_args_def segment_wf_def)

lemma load_segment_page_cases:
  assumes "load_args file s d f vm"
  shows "load_segment_page vread junk (sg_vbase s + d) s (f * 4096) vm =
    (if d < p_filesz s
     then do {
       let n = min 4096 (p_filesz s - d);
       (result, u1, mem1) \<leftarrow> vread (load_uio s d f n) (load_mem vm);
       if result \<noteq> OK then Some (result, vm\<lparr>ram := um_bytes mem1\<rparr>)
       else if uio_resid u1 \<noteq> 0 then Some (ENOEXEC, vm\<lparr>ram := um_bytes mem1\<rparr>)
       else if n < 4096 then do {
         (result2, u2, mem2) \<leftarrow> uiomovezeros (4096 - n) (u1\<lparr>uio_resid := u32 (uio_resid u1 + (4096 - n))\<rparr>) mem1;
         Some (result2, vm\<lparr>ram := um_bytes mem2\<rparr>)
       }
       else Some (result, vm\<lparr>ram := um_bytes mem1\<rparr>)
     }
     else do {
       (result, u2, mem2) \<leftarrow> uiomovezeros 4096 (load_uio s d f (u32 (junk + 4096))) (load_mem vm);
       Some (result, vm\<lparr>ram := um_bytes mem2\<rparr>)
     })"
proof -
  have w: "0 \<le> sg_vbase s" "sg_vbase s + sg_size s * 4096 \<le> 2147483648" "0 \<le> p_offset s" "0 \<le> p_filesz s" "0 \<le> d"
      "p_filesz s \<le> sg_size s * 4096" "p_offset s + sg_size s * 4096 < 2147483648" "d + 4096 \<le> sg_size s * 4096"
    using assms by (simp_all add: segment_wf_def load_args_def)
  have off: "s32 (sg_vbase s + d - sg_vbase s + p_offset s) = d + p_offset s" "u32 (sg_vbase s + d - sg_vbase s) = d"
    using w by simp_all
  define n where "n = min 4096 (p_filesz s - d)"
  have rs: "(if u32 (sg_vbase s + p_filesz s) \<ge> u32 (sg_vbase s + d + 4096) then 4096
      else s32 (sg_vbase s + p_filesz s - (sg_vbase s + d))) = n" if "d < p_filesz s"
    using w that by (auto simp: n_def)
  have n: "u32 n = n" "u32 (4096 - n) = 4096 - n" "0 < 4096 - n \<longleftrightarrow> n < 4096" if "d < p_filesz s"
    using w that by (auto simp: n_def)
  show ?thesis
    using off rs n unfolding load_segment_page_def n_def[symmetric] load_mem_def[symmetric]
    by (simp add: load_uio_def cong: if_cong)
qed

lemma load_segment_page_spec:
  assumes arg: "load_args file s d f vm" and vr: "reads_file vread file" and junk: "0 \<le> junk" "junk < 2147479552"
  shows "load_segment_page vread junk (sg_vbase s + d) s (f * 4096) vm =
    Some (OK, vm\<lparr>ram := write_bytes (f * 4096) (file_page file s d) (ram vm)\<rparr>)"
proof (cases "d < p_filesz s")
  case False
  then have "file_page file s d = replicate 4096 0" by (simp add: file_page_def)
  then show ?thesis
    using False uiomovezeros_spec[OF load_uio_fits[OF arg, of 4096 "junk + 4096"]] junk
    by (simp add: load_segment_page_cases[OF arg]) (simp add: load_uio_def load_mem_def)
next
  case True
  define n where "n = min 4096 (p_filesz s - d)"
  define bytes where "bytes = take (nat n) (drop (nat (d + p_offset s)) file)"
  have n: "0 < n" "n \<le> 4096" using True by (auto simp: n_def)
  have page: "file_page file s d = bytes @ replicate (nat (4096 - n)) 0"
    using n by (simp add: file_page_def n_def[symmetric] bytes_def nat_diff_distrib Let_def)
  have len: "length bytes = nat n" using arg n True by (auto simp: bytes_def n_def load_args_def segment_wf_def)
  let ?u1 = "uio_advance n (load_uio s d f n)" and ?mem1 = "(load_mem vm)\<lparr>um_bytes := write_bytes (f * 4096) bytes (ram vm)\<rparr>"
  have "uiomove bytes n (load_uio s d f n) (load_mem vm) = Some (OK, bytes, ?u1, ?mem1)"
    using uiomove_spec[OF load_uio_fits[OF arg, of n n], of n n bytes] n len by (simp add: load_uio_def load_mem_def)
  then have rd: "vread (load_uio s d f n) (load_mem vm) = Some (OK, ?u1, ?mem1)"
    using arg n len by (intro reads_fileD[OF vr]) (simp_all add: load_uio_def load_args_def segment_wf_def bytes_def[symmetric])
  have u1: "uio_resid ?u1 = 0" "iov_base ?u1 = f * 4096 + n" "uio_rw ?u1 = UIO_READ" using n by (simp_all add: uio_advance_def load_uio_def)
  have fits: "uio_fits (?u1\<lparr>uio_resid := 4096 - n\<rparr>) ?mem1 (4096 - n)"
    using uio_fits_advance[OF load_uio_fits[OF arg, of 4096 4096], of n] n by (simp add: uio_fits_def uio_advance_def load_uio_def load_mem_def)
  have z: "uiomovezeros (4096 - n) (?u1\<lparr>uio_resid := 4096 - n\<rparr>) ?mem1 = Some (OK, uio_advance (4096 - n) (?u1\<lparr>uio_resid := 4096 - n\<rparr>),
      ?mem1\<lparr>um_bytes := write_bytes (f * 4096 + n) (replicate (nat (4096 - n)) 0) (write_bytes (f * 4096) bytes (ram vm))\<rparr>)"
    using uiomovezeros_spec[OF fits] u1 by simp
  have app: "write_bytes (f * 4096 + n) (replicate (nat (4096 - n)) 0) (write_bytes (f * 4096) bytes (ram vm)) =
      write_bytes (f * 4096) (file_page file s d) (ram vm)"
    using write_bytes_append[of "f * 4096" bytes "replicate (nat (4096 - n)) 0" "ram vm"] n len by (simp add: page)
  show ?thesis using True rd u1(1) z app page n
    unfolding load_segment_page_cases[OF arg] n_def[symmetric] by (cases "n = 4096") simp_all
qed

lemma length_file_page:
  assumes "segment_wf file s" and "0 \<le> d"
  shows "length (file_page file s d) = 4096"
proof -
  define n where "n = nat (min 4096 (p_filesz s - d))"
  have "n \<le> 4096" by (simp add: n_def)
  moreover have "n \<le> length file - nat (d + p_offset s)"
    using assms by (cases "d < p_filesz s") (auto simp: n_def segment_wf_def)
  ultimately show ?thesis by (simp add: file_page_def n_def[symmetric] Let_def)
qed

lemma fresh_page_in:
  assumes inv: "vm_inv (Suc k) {} fs ss vm" and av: "frame_available fs ss vm" and s: "sg_pt s = Some pt"
    and pd: "get_pd (page_of s pt (sg_vbase s + d)) vm = Some pd" "pd_pfn pd = -1" "pd_sfn pd = -1" and v: "page_aligned (sg_vbase s + d)"
    and wf: "segment_wf file s" "0 \<le> d" "d + 4096 \<le> sg_size s * 4096" and vr: "reads_file vread file" and junk: "0 \<le> junk" "junk < 2147479552"
  shows "\<exists>vm' fs' ss' pd'. pt_page_in vread junk (sg_vbase s + d) s vm = Some vm' \<and> vm_inv k {} fs' ss' vm' \<and>
    pages_kept_but (page_of s pt (sg_vbase s + d)) vm vm' \<and> get_pd (page_of s pt (sg_vbase s + d)) vm' = Some pd' \<and> pd_pfn pd' \<noteq> -1 \<and>
    page_contents vm' (page_of s pt (sg_vbase s + d)) = Some (file_page file s d)"
proof -
  define v where "v = sg_vbase s + d"
  define r where "r = page_of s pt v"
  have pd: "get_pd r vm = Some pd" "pd_pfn pd = -1" "pd_sfn pd = -1" using pd by (simp_all add: r_def v_def)
  obtain i vm2 pd2 fs' ss' where g: "cm_getppage (set_pd r (pd\<lparr>pd_use := True\<rparr>) vm) = Some (int i, vm2)"
      "vm_inv (Suc k) {i} fs' ss' vm2" "in_core i vm2" "i \<notin> set fs'" "pages_kept vm vm2"
      "\<forall>q qd. get_pd q vm2 = Some qd \<longrightarrow> pd_pfn qd \<noteq> int i" "get_pd r vm2 = Some pd2" "pd_pfn pd2 = -1" "pd_sfn pd2 = pd_sfn pd"
    using getppage_for_page[OF inv av pd(1,2)] by blast
  define m where "m = write_bytes (int i * 4096) (file_page file s d) (ram vm2)"
  let ?vm3 = "set_pd r (pd2\<lparr>pd_pfn := int i\<rparr>) vm2"
  have "load_args file s d (int i) ?vm3"
    using wf g(3) vm_inv_parts(3)[OF g(2)] by (simp add: load_args_def in_core_def cm_wf_def)
  then have ld: "load_segment_page vread junk v s (int i * 4096) ?vm3 = Some (OK, ?vm3\<lparr>ram := m\<rparr>)"
    using load_segment_page_spec[OF _ vr junk, of s d "int i" ?vm3] by (simp add: m_def v_def)
  obtain tlb where tlb: "tlb_add_entry v (int i * 4096) (sg_writeable s) (vm_tlb vm2) = Some tlb" "tlb_ok k tlb"
    using tlb_add_entry_free[OF vm_inv_parts(1)[OF g(2)], of v "int i * 4096" "sg_writeable s"] v by (auto simp: v_def)
  have same: "pd2\<lparr>pd_pfn := int i, pd_sfn := -1\<rparr> = pd2\<lparr>pd_pfn := int i\<rparr>" using g(9) pd(3) by (cases pd2) simp
  have fin: "cm_finish_paging (int i) r (set_pd r (pd2\<lparr>pd_pfn := int i\<rparr>) (vm2\<lparr>ram := m, vm_tlb := tlb\<rparr>)) =
      Some (install i r pd2 tlb (vm_swap vm2) m vm2)"
    using finish_install[OF g(3,7), where sw = "vm_swap vm2" and m = m and tlb = tlb] by (simp add: same)
  have run: "pt_page_in vread junk v s vm = Some (install i r pd2 tlb (vm_swap vm2) m vm2)"
    using s pd g(1,7) ld tlb(1) fin unfolding pt_page_in_def
    by (simp add: page_of_def[symmetric] r_def[symmetric] upd_pd_Some)
  note len = length_file_page[OF wf(1,2)]
  have ins: "installs k fs' ss' ss' i r pd2 tlb (vm_swap vm2) m vm2"
    using g tlb pd(3) vm_inv_parts(2)[OF g(2)] other_frames_untouched[OF len] by (simp add: installs_def m_def frame_bytes_def)
  have "page_contents (install i r pd2 tlb (vm_swap vm2) m vm2) r = Some (file_page file s d)"
    using frame_bytes_install[OF len] g(7) by (simp add: page_contents_def get_pd_install m_def)
  with run install_inv[OF ins] pages_kept_but_trans[OF g(5) install_kept[OF ins]] g(7) show ?thesis
    unfolding v_def[symmetric] r_def[symmetric]
    by (intro exI[of _ "install i r pd2 tlb (vm_swap vm2) m vm2"] exI[of _ fs'] exI[of _ ss']) (simp add: get_pd_install)
qed

lemma present_page_in:
  assumes inv: "vm_inv (Suc k) {} fs ss vm" and s: "sg_pt s = Some pt"
    and pd: "get_pd (page_of s pt vaddr) vm = Some pd" "pd_pfn pd \<noteq> -1" and v: "page_aligned vaddr"
  shows "\<exists>vm' pd'. pt_page_in vread junk vaddr s vm = Some vm' \<and> vm_inv k {} fs ss vm' \<and> pages_kept vm vm' \<and>
    get_pd (page_of s pt vaddr) vm' = Some pd' \<and> pd_pfn pd' \<noteq> -1 \<and> page_contents vm' (page_of s pt vaddr) = page_contents vm (page_of s pt vaddr)"
proof -
  define r where "r = page_of s pt vaddr"
  have pd: "get_pd r vm = Some pd" "pd_pfn pd \<noteq> -1" "pd_valid pd"
    using pd vm_inv_pageD[OF inv pd(1)] by (simp_all add: r_def page_wf_def)
  obtain tlb where tlb: "tlb_add_entry vaddr (pd_pfn pd * 4096) (sg_writeable s) (vm_tlb vm) = Some tlb" "tlb_ok k tlb"
    using tlb_add_entry_free[OF vm_inv_parts(1)[OF inv] v, of "pd_pfn pd * 4096" "sg_writeable s"] by auto
  have inv': "vm_inv k {} fs ss vm" using inv tlb_ok_mono[of "Suc k" "vm_tlb vm" k] by (simp add: vm_inv_def)
  have run: "pt_page_in vread junk vaddr s vm = Some (set_pd r (pd\<lparr>pd_use := True\<rparr>) (vm\<lparr>vm_tlb := tlb\<rparr>))"
    using s pd tlb(1) unfolding pt_page_in_def by (simp add: page_of_def[symmetric] r_def[symmetric] upd_pd_Some)
  have "page_contents (set_pd r (pd\<lparr>pd_use := True\<rparr>) (vm\<lparr>vm_tlb := tlb\<rparr>)) r = page_contents vm r"
    using pd by (simp add: page_contents_def get_pd_set_pd frame_bytes_def)
  with run vm_inv_touch[OF inv' pd(1) tlb(2), of True] pd show ?thesis unfolding r_def[symmetric]
    by (simp add: get_pd_set_pd)
qed

section \<open>Kernel frames\<close>

lemma run_not_kern_total:
  "0 \<le> i \<Longrightarrow> i + int n \<le> int (length (core_details cm)) \<Longrightarrow>
     run_not_kern n i cm = Some (\<forall>j. i \<le> int j \<and> int j < i + int n \<longrightarrow> cd_kern (core_details cm ! j) = 0)"
proof (induction n arbitrary: i)
  case (Suc n)
  have "(\<forall>j. i \<le> int j \<and> int j < i + int (Suc n) \<longrightarrow> cd_kern (core_details cm ! j) = 0) \<longleftrightarrow>
      cd_kern (core_details cm ! nat i) = 0 \<and> (\<forall>j. i + 1 \<le> int j \<and> int j < i + 1 + int n \<longrightarrow> cd_kern (core_details cm ! j) = 0)"
    (is "?all \<longleftrightarrow> ?here \<and> ?rest")
  proof
    assume a: ?all
    have "?here" using a[rule_format, of "nat i"] Suc.prems by simp
    then show "?here \<and> ?rest" using a by simp
  next
    assume b: "?here \<and> ?rest"
    show ?all
    proof (intro allI impI)
      fix j assume j: "i \<le> int j \<and> int j < i + int (Suc n)"
      show "cd_kern (core_details cm ! j) = 0"
      proof (cases "int j = i")
        case True
        then have "nat i = j" by simp
        with b show ?thesis by simp
      next
        case False
        with b j show ?thesis by simp
      qed
    qed
  qed
  with Suc show ?case by (auto simp: get_cd_def nat_less_iff)
qed auto

definition kern_free_run :: "int \<Rightarrow> int \<Rightarrow> coremap \<Rightarrow> bool" where
  "kern_free_run f num cm \<longleftrightarrow> (\<forall>j. f \<le> int j \<and> int j < f + num \<longrightarrow> cd_kern (core_details cm ! j) = 0)"

lemma kframes_search_spec:
  assumes "0 \<le> i" and "0 \<le> num" and "cm_size cm = int (length (core_details cm))"
    and "i \<le> g" "g \<le> cm_size cm - num" "kern_free_run g num cm"
  shows "\<exists>f. kframes_search i num cm = Some f \<and> i \<le> f \<and> f \<le> cm_size cm - num \<and> kern_free_run f num cm"
  using assms
proof (induction "nat (g - i)" arbitrary: i)
  case 0
  then have "i = g" by simp
  with 0 run_not_kern_total[of g "nat num" cm] show ?case
    by (auto simp: kframes_search.simps[of g] kern_free_run_def)
next
  case (Suc n)
  then have i: "i < g" by simp
  have r: "run_not_kern (nat num) i cm = Some (kern_free_run i num cm)"
    using run_not_kern_total[of i "nat num" cm] Suc.prems i by (simp add: kern_free_run_def)
  show ?case
  proof (cases "kern_free_run i num cm")
    case True
    then show ?thesis using r i Suc.prems by (auto simp: kframes_search.simps[of i])
  next
    case False
    then have "kframes_search i num cm = kframes_search (i + 1) num cm" using r i Suc.prems by (simp add: kframes_search.simps[of i])
    moreover have "\<exists>f. kframes_search (i + 1) num cm = Some f \<and> i + 1 \<le> f \<and> f \<le> cm_size cm - num \<and> kern_free_run f num cm"
      using Suc i by (intro Suc.hyps(1)) auto
    ultimately show ?thesis by force
  qed
qed

text \<open>Setting the marks changes no links.\<close>

lemma seg_cong:
  "length c' = length c \<Longrightarrow> (\<And>j. j < length c \<Longrightarrow> cd_next (c' ! j) = cd_next (c ! j) \<and> cd_prev (c' ! j) = cd_prev (c ! j)) \<Longrightarrow>
     seg c' p xs n = seg c p xs n"
  by (induction xs arbitrary: p) auto

definition cm_marked :: "nat \<Rightarrow> nat \<Rightarrow> int \<Rightarrow> coremap \<Rightarrow> coremap" where
  "cm_marked f n num cm = cm\<lparr>core_details := map (\<lambda>j. (core_details cm ! j)\<lparr>cd_kern :=
     (if j = f then num else if f \<le> j \<and> j < f + n then 1 else cd_kern (core_details cm ! j))\<rparr>) [0..<length (core_details cm)]\<rparr>"

lemma kframes_mark_spec:
  assumes "f + n \<le> length (core_details cm)"
  shows "kframes_mark n (int f) cm = Some (cm\<lparr>core_details := map (\<lambda>j. (core_details cm ! j)\<lparr>cd_kern :=
     (if f \<le> j \<and> j < f + n then 1 else cd_kern (core_details cm ! j))\<rparr>) [0..<length (core_details cm)]\<rparr>)"
  using assms
proof (induction n arbitrary: f cm)
  case 0
  have "map (\<lambda>j. (core_details cm ! j)\<lparr>cd_kern := (if f \<le> j \<and> j < f + 0 then 1 else cd_kern (core_details cm ! j))\<rparr>)
      [0..<length (core_details cm)] = core_details cm"
    by (intro nth_equalityI) auto
  then show ?case by simp
next
  case (Suc n)
  let ?cm = "cm\<lparr>core_details := (core_details cm)[f := (core_details cm ! f)\<lparr>cd_kern := 1\<rparr>]\<rparr>"
  have "kframes_mark (Suc n) (int f) cm = kframes_mark n (int (Suc f)) ?cm"
    using Suc.prems by (simp add: upd_cd_def add.commute)
  also have "\<dots> = Some (cm\<lparr>core_details := map (\<lambda>j. (core_details ?cm ! j)\<lparr>cd_kern :=
      (if Suc f \<le> j \<and> j < Suc f + n then 1 else cd_kern (core_details ?cm ! j))\<rparr>) [0..<length (core_details cm)]\<rparr>)"
    using Suc.IH[of "Suc f" ?cm] Suc.prems by simp
  also have "map (\<lambda>j. (core_details ?cm ! j)\<lparr>cd_kern := (if Suc f \<le> j \<and> j < Suc f + n then 1 else cd_kern (core_details ?cm ! j))\<rparr>)
        [0..<length (core_details cm)] =
      map (\<lambda>j. (core_details cm ! j)\<lparr>cd_kern := (if f \<le> j \<and> j < f + Suc n then 1 else cd_kern (core_details cm ! j))\<rparr>)
        [0..<length (core_details cm)]"
    by (auto simp: nth_list_update)
  finally show ?case .
qed

lemma kframes_marked:
  assumes "f + n \<le> length (core_details cm)" and "0 < n"
  shows "Option.bind (kframes_mark n (int f) cm) (upd_cd f (\<lambda>d. d\<lparr>cd_kern := num\<rparr>)) = Some (cm_marked f n num cm)"
proof -
  let ?k = "\<lambda>j. (core_details cm ! j)\<lparr>cd_kern := (if f \<le> j \<and> j < f + n then 1 else cd_kern (core_details cm ! j))\<rparr>"
  have "(map ?k [0..<length (core_details cm)])[f := (?k f)\<lparr>cd_kern := num\<rparr>] = core_details (cm_marked f n num cm)"
    using assms by (intro nth_equalityI) (auto simp: cm_marked_def nth_list_update)
  then show ?thesis using assms by (simp add: kframes_mark_spec upd_cd_def) (simp add: cm_marked_def)
qed

definition holds_page :: "nat \<Rightarrow> vmsys \<Rightarrow> bool" where
  "holds_page j vm \<longleftrightarrow> (\<exists>r pd. cd_pd (frame_at j vm) = Some r \<and> get_pd r vm = Some pd \<and> pd_pfn pd = int j)"

definition no_page_in :: "nat \<Rightarrow> vmsys \<Rightarrow> bool" where
  "no_page_in j vm \<longleftrightarrow> (\<forall>r pd. get_pd r vm = Some pd \<longrightarrow> pd_pfn pd \<noteq> int j)"

lemma no_page_in_kept:
  assumes "no_page_in j vm" and "pages_kept vm vm'"
  shows "no_page_in j vm'"
  unfolding no_page_in_def
proof (intro allI impI)
  fix r pd assume pd: "get_pd r vm' = Some pd"
  have "page_kept vm vm' r" using assms(2) by (simp add: pages_kept_def)
  then obtain pd0 where "get_pd r vm = Some pd0" "pd_pfn pd = pd_pfn pd0 \<or> pd_pfn pd = -1"
    using pd by (auto simp: page_kept_def split: option.splits)
  with assms(1) show "pd_pfn pd \<noteq> int j" unfolding no_page_in_def by auto
qed

text \<open>One frame is taken from the free list or from its page.\<close>

lemma claim_frame:
  assumes inv: "vm_inv k X fs (s # ss) vm" and j: "in_core j vm" "j \<in> X" "j \<in> set fs \<or> holds_page j vm"
  shows "\<exists>vm' fs' ss'. kframes_claim (Suc n) (int j) vm = kframes_claim n (int (Suc j)) vm' \<and> vm_inv k X fs' ss' vm' \<and>
    pages_kept vm vm' \<and> no_page_in j vm' \<and> set fs' = set fs - {j} \<and> length ss \<le> length ss' \<and>
    (\<forall>i. i \<noteq> j \<and> in_core i vm \<longrightarrow> in_core i vm' \<and> cd_kern (frame_at i vm') = cd_kern (frame_at i vm) \<and> (holds_page i vm \<longrightarrow> holds_page i vm')) \<and>
    in_core j vm' \<and> cd_kern (frame_at j vm') = (if j \<in> set fs then 1 else cd_kern (frame_at j vm))"
proof -
  have wf: "cm_wf X (vm_cm vm) fs" using vm_inv_parts(3)[OF inv] .
  have cd: "get_cd j (vm_cm vm) = Some (frame_at j vm)" "cd_free (frame_at j vm) \<longleftrightarrow> j \<in> set fs"
    using wf j(1) by (auto simp: cm_wf_def in_core_def frame_at_def get_cd_def)
  have X: "insert j X = X" using j(2) by blast
  have next_j: "int j + 1 = int (Suc j)" by simp
  show ?thesis
  proof (cases "j \<in> set fs")
    case True
    then obtain xs ys where fs: "fs = xs @ j # ys" by (auto simp: in_set_conv_decomp)
    then have d: "distinct (xs @ j # ys)" and fl: "frame_list (vm_cm vm) (xs @ j # ys)"
      using wf by (auto simp: cm_wf_def frame_list_def)
    obtain cm where cm: "free_frame_list_remove j (vm_cm vm) = Some cm" "frame_list cm (xs @ ys)" "same_frames j (vm_cm vm) cm"
        "cd_kern (core_details cm ! j) = 1" "\<not> cd_free (core_details cm ! j)"
      using free_frame_list_remove_spec[OF fl] by blast
    note taken = vm_inv_take[OF inv[unfolded fs] cm(2,3,5), unfolded X]
    have "kframes_claim (Suc n) (int j) vm = kframes_claim n (int (Suc j)) (vm\<lparr>vm_cm := cm\<rparr>)"
      using cd True cm(1) by (simp add: next_j)
    moreover have "no_page_in j (vm\<lparr>vm_cm := cm\<rparr>)" using taken(4) unfolding no_page_in_def by blast
    moreover have "in_core i (vm\<lparr>vm_cm := cm\<rparr>) \<and> cd_kern (frame_at i (vm\<lparr>vm_cm := cm\<rparr>)) = cd_kern (frame_at i vm) \<and>
        (holds_page i vm \<longrightarrow> holds_page i (vm\<lparr>vm_cm := cm\<rparr>))" if "i \<noteq> j" "in_core i vm" for i
      using cm(3) that by (auto simp: holds_page_def same_frames_def in_core_def frame_at_def)
    moreover have "set (xs @ ys) = set fs - {j}" using d fs by auto
    moreover have "cd_kern (frame_at j (vm\<lparr>vm_cm := cm\<rparr>)) = 1" using cm(4) by (simp add: frame_at_def)
    ultimately show ?thesis using taken(1,2,3) True
      by (intro exI[of _ "vm\<lparr>vm_cm := cm\<rparr>"] exI[of _ "xs @ ys"] exI[of _ "s # ss"]) simp
  next
    case False
    then obtain r pd where r: "cd_pd (frame_at j vm) = Some r" "get_pd r vm = Some pd" "pd_pfn pd = int j"
      using j(3) by (auto simp: holds_page_def)
    obtain vm' ss' where ev: "cm_free_core j vm = Some vm'" "vm_inv k X fs ss' vm'" "length ss \<le> length ss'" "pages_kept vm vm'"
        "cm_same vm vm'" "cd_pd (frame_at j vm') = None" "\<forall>i. i \<noteq> j \<longrightarrow> cd_pd (frame_at i vm') = cd_pd (frame_at i vm)"
        "\<forall>q. q \<noteq> r \<longrightarrow> get_pd q vm' = get_pd q vm"
      using cm_free_core_spec[OF inv j(1) False r] unfolding X by blast
    have "kframes_claim (Suc n) (int j) vm = kframes_claim n (int (Suc j)) vm'"
      using cd False ev(1) by (simp add: next_j)
    moreover have "no_page_in j vm'"
      unfolding no_page_in_def using vm_inv_pageD[OF ev(2)] ev(6) by (force simp: page_wf_def)
    moreover have "holds_page i vm'" if i: "i \<noteq> j" "holds_page i vm" for i
    proof -
      obtain q qd where q: "cd_pd (frame_at i vm) = Some q" "get_pd q vm = Some qd" "pd_pfn qd = int i"
        using i(2) by (auto simp: holds_page_def)
      then have "q \<noteq> r" using r i(1) by auto
      with q ev(7,8) i(1) show ?thesis by (auto simp: holds_page_def)
    qed
    moreover have "in_core i vm' = in_core i vm" "cd_kern (frame_at i vm') = cd_kern (frame_at i vm)" for i
      using ev(5) by (simp_all add: cm_same_def in_core_def)
    ultimately show ?thesis using ev(2,3,4) False j(1) by (intro exI[of _ vm'] exI[of _ fs] exI[of _ ss']) simp
  qed
qed

lemma claim_run:
  assumes "vm_inv k X fs ss vm" and "n \<le> length ss" and "{f..<f + n} \<subseteq> X"
    and "\<And>j. j \<in> {f..<f + n} \<Longrightarrow> in_core j vm \<and> (j \<in> set fs \<or> holds_page j vm)"
  shows "\<exists>vm' fs' ss'. kframes_claim n (int f) vm = Some vm' \<and> vm_inv k X fs' ss' vm' \<and> pages_kept vm vm' \<and>
    (\<forall>j \<in> {f..<f + n}. no_page_in j vm') \<and> set fs' = set fs - {f..<f + n} \<and>
    (\<forall>i. in_core i vm \<longrightarrow> in_core i vm' \<and> cd_kern (frame_at i vm') = (if i \<in> {f..<f + n} \<and> i \<in> set fs then 1 else cd_kern (frame_at i vm)))"
  using assms
proof (induction n arbitrary: f fs ss vm)
  case 0
  then show ?case using pages_kept_refl by (intro exI[of _ vm] exI[of _ fs] exI[of _ ss]) simp
next
  case (Suc n)
  obtain s ss0 where ss: "ss = s # ss0" using Suc.prems(2) by (cases ss) auto
  have f: "in_core f vm" "f \<in> X" "f \<in> set fs \<or> holds_page f vm" using Suc.prems(3,4) by auto
  obtain vm1 fs1 ss1 where c: "kframes_claim (Suc n) (int f) vm = kframes_claim n (int (Suc f)) vm1" "vm_inv k X fs1 ss1 vm1"
      "pages_kept vm vm1" "no_page_in f vm1" "set fs1 = set fs - {f}" "length ss0 \<le> length ss1" "in_core f vm1"
      "cd_kern (frame_at f vm1) = (if f \<in> set fs then 1 else cd_kern (frame_at f vm))"
    and other: "\<And>i. i \<noteq> f \<Longrightarrow> in_core i vm \<Longrightarrow> in_core i vm1 \<and> cd_kern (frame_at i vm1) = cd_kern (frame_at i vm) \<and> (holds_page i vm \<longrightarrow> holds_page i vm1)"
    using claim_frame[OF Suc.prems(1)[unfolded ss] f, of n] by blast
  have next_run: "in_core j vm1 \<and> (j \<in> set fs1 \<or> holds_page j vm1)" if "j \<in> {Suc f..<Suc f + n}" for j
    using Suc.prems(4)[of j] other[of j] c(5) that by auto
  have "n \<le> length ss1" "{Suc f..<Suc f + n} \<subseteq> X" using Suc.prems(2,3) c(6) ss by auto
  from Suc.IH[OF c(2) this next_run] obtain vm' fs' ss' where r: "kframes_claim n (int (Suc f)) vm1 = Some vm'"
      "vm_inv k X fs' ss' vm'" "pages_kept vm1 vm'" "\<forall>j \<in> {Suc f..<Suc f + n}. no_page_in j vm'" "set fs' = set fs1 - {Suc f..<Suc f + n}"
      "\<forall>i. in_core i vm1 \<longrightarrow> in_core i vm' \<and> cd_kern (frame_at i vm') = (if i \<in> {Suc f..<Suc f + n} \<and> i \<in> set fs1 then 1 else cd_kern (frame_at i vm1))"
    by blast
  have run: "{f..<f + Suc n} = insert f {Suc f..<Suc f + n}" by auto
  have "no_page_in f vm'" using no_page_in_kept[OF c(4) r(3)] .
  then have "\<forall>j \<in> {f..<f + Suc n}. no_page_in j vm'" using r(4) unfolding run by blast
  moreover have "set fs' = set fs - {f..<f + Suc n}" using r(5) c(5) unfolding run by auto
  moreover have "in_core i vm' \<and> cd_kern (frame_at i vm') = (if i \<in> {f..<f + Suc n} \<and> i \<in> set fs then 1 else cd_kern (frame_at i vm))"
    if "in_core i vm" for i
    using r(6) other[of i] that c(5,7,8) unfolding run by (cases "i = f") auto
  ultimately show ?case using c(1) r(1,2) pages_kept_trans[OF c(3) r(3)]
    by (intro exI[of _ vm'] exI[of _ fs'] exI[of _ ss']) simp
qed

lemma cm_marked_fields [simp]:
  "cm_size (cm_marked f n num cm) = cm_size cm" "lowest_frame (cm_marked f n num cm) = lowest_frame cm"
  "clock_pointer (cm_marked f n num cm) = clock_pointer cm" "length (core_details (cm_marked f n num cm)) = length (core_details cm)"
  "j < length (core_details cm) \<Longrightarrow> core_details (cm_marked f n num cm) ! j = (core_details cm ! j)\<lparr>cd_kern :=
     (if j = f then num else if f \<le> j \<and> j < f + n then 1 else cd_kern (core_details cm ! j))\<rparr>"
  by (simp_all add: cm_marked_def)

lemma vm_inv_marked:
  assumes inv: "vm_inv k {} fs ss vm" and n: "0 < n"
  shows "vm_inv k {f..<f + n} fs ss (vm\<lparr>vm_cm := cm_marked f n num (vm_cm vm)\<rparr>)" (is "vm_inv _ ?X _ _ ?vm")
proof -
  have wf: "cm_wf {} (vm_cm vm) fs" using vm_inv_parts(3)[OF inv] .
  have "seg (core_details (cm_marked f n num (vm_cm vm))) None fs None"
    using wf seg_cong[of "core_details (cm_marked f n num (vm_cm vm))" "core_details (vm_cm vm)" None fs None]
    by (simp add: cm_wf_def frame_list_def)
  then have fl: "frame_list (cm_marked f n num (vm_cm vm)) fs"
    using wf by (simp add: cm_wf_def frame_list_def) (simp add: cm_marked_def)
  have "f \<in> ?X" using n by simp
  then have "cd_kern (core_details (cm_marked f n num (vm_cm vm)) ! i) = 0" if "i \<in> set fs" "i \<notin> ?X" for i
    using wf that frame_list_bound[of "vm_cm vm" fs i] by (auto simp: cm_wf_def)
  then have wf': "cm_wf ?X (cm_marked f n num (vm_cm vm)) fs" using wf fl by (simp add: cm_wf_def)
  have core: "in_core j ?vm = in_core j vm" for j by (simp add: in_core_def)
  have at: "cd_pd (frame_at j ?vm) = cd_pd (frame_at j vm)" "j \<notin> ?X \<Longrightarrow> cd_kern (frame_at j ?vm) = cd_kern (frame_at j vm)" if "in_core j vm" for j
    using that \<open>f \<in> ?X\<close> by (auto simp: in_core_def frame_at_def)
  have "page_wf ?X fs ss ?vm r pd" if "get_pd r vm = Some pd" for r pd
    using vm_inv_pageD[OF inv that] at core by (simp add: page_wf_def)
  moreover have "\<exists>r pd. cd_pd (frame_at j ?vm) = Some r \<and> get_pd r ?vm = Some pd \<and> pd_pfn pd = int j"
    if "in_core j ?vm" "j \<notin> ?X" "j \<notin> set fs" "cd_kern (frame_at j ?vm) = 0" for j
    using vm_inv_frameD[OF inv, of j] that at core by simp
  moreover have "r = r'" if "get_pd r ?vm = Some pd" "get_pd r' ?vm = Some pd'" "pd_sfn pd \<noteq> -1" "pd_sfn pd = pd_sfn pd'" for r r' pd pd'
    using vm_inv_sfnD[OF inv _ _ that(3,4)] that(1,2) by simp
  ultimately show ?thesis unfolding vm_inv_def using vm_inv_parts[OF inv] wf' by simp
qed

lemma vm_inv_settle:
  assumes inv: "vm_inv k X fs ss vm" and x: "\<And>j. j \<in> X \<Longrightarrow> no_page_in j vm \<and> cd_kern (frame_at j vm) \<noteq> 0 \<and> j \<notin> set fs"
  shows "vm_inv k {} fs ss vm"
proof -
  have "cm_wf {} (vm_cm vm) fs" using vm_inv_parts(3)[OF inv] x by (auto simp: cm_wf_def)
  moreover have "page_wf {} fs ss vm r pd" if pd: "get_pd r vm = Some pd" for r pd
  proof -
    have "nat (pd_pfn pd) \<notin> X" if "0 \<le> pd_pfn pd" using x[of "nat (pd_pfn pd)"] pd that by (auto simp: no_page_in_def)
    then show ?thesis using vm_inv_pageD[OF inv pd] by (simp add: page_wf_def)
  qed
  moreover have "\<exists>r pd. cd_pd (frame_at j vm) = Some r \<and> get_pd r vm = Some pd \<and> pd_pfn pd = int j"
    if "in_core j vm" "j \<notin> {}" "j \<notin> set fs" "cd_kern (frame_at j vm) = 0" for j
    using vm_inv_frameD[OF inv, of j] that x by blast
  ultimately show ?thesis using inv unfolding vm_inv_def by blast
qed

definition kern_request :: "nat \<Rightarrow> nat list \<Rightarrow> nat list \<Rightarrow> int \<Rightarrow> vmsys \<Rightarrow> bool" where
  "kern_request k fs ss num vm \<longleftrightarrow> vm_inv k {} fs ss vm \<and> cm_init (vm_cm vm) \<and> 0 < num \<and> num \<le> int (length ss) \<and>
     (\<exists>g. lowest_frame (vm_cm vm) \<le> g \<and> g \<le> cm_size (vm_cm vm) - num \<and> kern_free_run g num (vm_cm vm))"

lemma cm_request_kframes_spec:
  assumes req: "kern_request k fs ss num vm"
  shows "\<exists>f vm' fs' ss'. cm_request_kframes num vm = Some (int f * 4096 + 2147483648, vm') \<and> vm_inv k {} fs' ss' vm' \<and>
    pages_kept vm vm' \<and> set fs' = set fs - {f..<f + nat num} \<and>
    (\<forall>j \<in> {f..<f + nat num}. in_core j vm \<and> cd_kern (frame_at j vm) = 0 \<and> in_core j vm' \<and> no_page_in j vm') \<and>
    (\<forall>i. in_core i vm \<longrightarrow> in_core i vm' \<and> cd_kern (frame_at i vm') =
       (if i \<in> {f..<f + nat num} then if i = f \<and> f \<notin> set fs then num else 1 else cd_kern (frame_at i vm)))"
proof -
  have inv: "vm_inv k {} fs ss vm" and num: "0 < num" "num \<le> int (length ss)" using req by (auto simp: kern_request_def)
  have wf: "0 \<le> lowest_frame (vm_cm vm)" "cm_size (vm_cm vm) = int (length (core_details (vm_cm vm)))"
    using vm_inv_parts(3)[OF inv] by (simp_all add: cm_wf_def)
  obtain f0 where f0: "kframes_search (lowest_frame (vm_cm vm)) num (vm_cm vm) = Some f0" "lowest_frame (vm_cm vm) \<le> f0"
      "f0 \<le> cm_size (vm_cm vm) - num" "kern_free_run f0 num (vm_cm vm)"
    using kframes_search_spec[OF wf(1) order_less_imp_le[OF num(1)] wf(2)] req unfolding kern_request_def by blast
  define f where "f = nat f0"
  define n where "n = nat num"
  define X where "X = {f..<f + n}"
  define vm1 where "vm1 = vm\<lparr>vm_cm := cm_marked f n num (vm_cm vm)\<rparr>"
  have f: "f0 = int f" "f + n \<le> length (core_details (vm_cm vm))" "0 < n" "n \<le> length ss" "num = int n"
    using f0 wf num by (auto simp: f_def n_def)
  have run0: "in_core j vm \<and> cd_kern (frame_at j vm) = 0" if "j \<in> X" for j
    using that f0 f wf by (auto simp: in_core_def kern_free_run_def frame_at_def X_def)
  obtain cm1 where mk: "kframes_mark n (int f) (vm_cm vm) = Some cm1" "upd_cd f (\<lambda>d. d\<lparr>cd_kern := num\<rparr>) cm1 = Some (cm_marked f n num (vm_cm vm))"
    using kframes_marked[OF f(2,3)] by (auto simp: bind_eq_Some_conv)
  have "cm_init (vm_cm vm)" using req by (simp add: kern_request_def)
  then have run: "cm_request_kframes num vm = Option.bind (kframes_claim n (int f) vm1) (\<lambda>vm'. Some (int f * 4096 + 2147483648, vm'))"
    using f0(1) mk unfolding cm_request_kframes_def f(1) n_def[symmetric] by (simp add: vm1_def)
  have inv1: "vm_inv k X fs ss vm1" using vm_inv_marked[OF inv f(3)] by (simp add: vm1_def X_def)
  have core: "in_core j vm1 = in_core j vm" for j by (simp add: vm1_def in_core_def)
  have kern1: "cd_kern (frame_at j vm1) = (if j = f then num else if j \<in> X then 1 else cd_kern (frame_at j vm))" if "in_core j vm" for j
    using that by (auto simp: vm1_def frame_at_def in_core_def X_def)
  have "in_core j vm1 \<and> (j \<in> set fs \<or> holds_page j vm1)" if "j \<in> X" for j
    using run0[OF that] vm_inv_frameD[OF inv, of j] by (auto simp: core holds_page_def) (auto simp: vm1_def frame_at_def in_core_def)
  then obtain vm' fs' ss' where c: "kframes_claim n (int f) vm1 = Some vm'" "vm_inv k X fs' ss' vm'" "pages_kept vm1 vm'"
      "\<forall>j \<in> X. no_page_in j vm'" "set fs' = set fs - X"
      "\<forall>i. in_core i vm1 \<longrightarrow> in_core i vm' \<and> cd_kern (frame_at i vm') = (if i \<in> X \<and> i \<in> set fs then 1 else cd_kern (frame_at i vm1))"
    using claim_run[OF inv1 f(4)] unfolding X_def by blast
  have kern: "in_core i vm' \<and> cd_kern (frame_at i vm') = (if i \<in> X then if i = f \<and> f \<notin> set fs then num else 1 else cd_kern (frame_at i vm))"
    if "in_core i vm" for i
    using c(6) kern1[OF that] core that f(3) by (auto simp: X_def)
  have "vm_inv k {} fs' ss' vm'"
    using c(4,5) kern run0 num by (intro vm_inv_settle[OF c(2)]) auto
  moreover have "pages_kept vm vm1"
    by (simp add: vm1_def pages_kept_def page_kept_def page_contents_def frame_bytes_def split: option.splits)
  then have "pages_kept vm vm'" using pages_kept_trans c(3) by blast
  ultimately have "cm_request_kframes num vm = Some (int f * 4096 + 2147483648, vm') \<and> vm_inv k {} fs' ss' vm' \<and>
      pages_kept vm vm' \<and> set fs' = set fs - X \<and>
      (\<forall>j \<in> X. in_core j vm \<and> cd_kern (frame_at j vm) = 0 \<and> in_core j vm' \<and> no_page_in j vm') \<and>
      (\<forall>i. in_core i vm \<longrightarrow> in_core i vm' \<and> cd_kern (frame_at i vm') =
         (if i \<in> X then if i = f \<and> f \<notin> set fs then num else 1 else cd_kern (frame_at i vm)))"
    using run c(1,4,5) run0 kern by simp
  then show ?thesis unfolding X_def n_def by blast
qed

text \<open>Releasing a frame that is marked with 1 releases that frame alone.\<close>

lemma cm_wf_add:
  assumes wf: "cm_wf X cm fs" and fl: "frame_list cm' fs'" and fs: "set fs' = insert f (set fs)" and same: "same_frames f cm cm'"
    and f: "cd_kern (core_details cm' ! f) = 0" "cd_free (core_details cm' ! f)" "nat (lowest_frame cm) \<le> f"
  shows "cm_wf X cm' fs'"
proof -
  have len: "length (core_details cm') = length (core_details cm)" using same by (simp add: same_frames_def)
  have b: "j < length (core_details cm)" if "j \<in> set fs'" for j using frame_list_bound[OF fl that] len by simp
  have "cd_id (core_details cm' ! j) = int j \<and> (cd_free (core_details cm' ! j) \<longleftrightarrow> j \<in> set fs')"
    if "nat (lowest_frame cm) \<le> j" "j < length (core_details cm)" for j
    using wf same f fs that by (cases "j = f") (simp_all add: cm_wf_def same_frames_def)
  moreover have "nat (lowest_frame cm) \<le> j \<and> (j \<notin> X \<longrightarrow> cd_kern (core_details cm' ! j) = 0)" if "j \<in> set fs'" for j
    using wf same f fs that b[OF that] by (cases "j = f") (simp_all add: cm_wf_def same_frames_def)
  ultimately show ?thesis using wf fl same by (simp add: cm_wf_def same_frames_def)
qed

lemma free_kpages_single:
  assumes inv: "vm_inv k {} fs ss vm" and f: "in_core f vm" "f \<notin> set fs" "cd_kern (frame_at f vm) = 1"
  shows "\<exists>vm'. free_kpages (int f * 4096 + 2147483648) vm = Some vm' \<and> frame_list (vm_cm vm') (fs @ [f])"
proof -
  have wf: "cm_wf {} (vm_cm vm) fs" using vm_inv_parts(3)[OF inv] .
  have fl: "frame_list (vm_cm vm) fs" "f < length (core_details (vm_cm vm))" "lowest_frame (vm_cm vm) \<le> int f"
    using wf f(1) by (auto simp: cm_wf_def in_core_def)
  obtain cm where cm: "free_frame_list_add_back f (vm_cm vm) = Some cm" "frame_list cm (fs @ [f])"
    using free_frame_list_add_back_spec[OF fl(1,2) f(2)] by blast
  have "cm_release_kframes (int f) (vm_cm vm) = Some cm"
    using fl f(3) cm(1) by (simp add: cm_release_kframes_def get_cd_def frame_at_def)
  with cm(2) show ?thesis by (simp add: free_kpages_def)
qed

text \<open>It was the kernel's, so that no page is in it, and the invariant is kept.\<close>

lemma free_kpages_inv:
  assumes inv: "vm_inv k {} fs ss vm" and f: "in_core f vm" "cd_kern (frame_at f vm) = 1"
  shows "\<exists>vm'. free_kpages (int f * 4096 + 2147483648) vm = Some vm' \<and> vm_inv k {} (fs @ [f]) ss vm' \<and> pages_kept vm vm' \<and>
    (\<forall>j. in_core j vm' = in_core j vm) \<and> (\<forall>j. in_core j vm \<and> j \<noteq> f \<longrightarrow> cd_kern (frame_at j vm') = cd_kern (frame_at j vm))"
proof -
  have wf: "cm_wf {} (vm_cm vm) fs" using vm_inv_parts(3)[OF inv] .
  have nf: "f \<notin> set fs" using wf f(2) by (auto simp: cm_wf_def frame_at_def)
  have fl: "frame_list (vm_cm vm) fs" "f < length (core_details (vm_cm vm))" "lowest_frame (vm_cm vm) \<le> int f" "nat (lowest_frame (vm_cm vm)) \<le> f"
    using wf f(1) by (auto simp: cm_wf_def in_core_def)
  obtain cm where cm: "free_frame_list_add_back f (vm_cm vm) = Some cm" "frame_list cm (fs @ [f])" "same_frames f (vm_cm vm) cm"
      "cd_kern (core_details cm ! f) = 0" "cd_free (core_details cm ! f)"
    using free_frame_list_add_back_spec[OF fl(1,2) nf] by blast
  let ?vm = "vm\<lparr>vm_cm := cm\<rparr>"
  have "cm_release_kframes (int f) (vm_cm vm) = Some cm" using fl f(2) cm(1) by (simp add: cm_release_kframes_def get_cd_def frame_at_def)
  then have run: "free_kpages (int f * 4096 + 2147483648) vm = Some ?vm" by (simp add: free_kpages_def)
  have core: "in_core j ?vm = in_core j vm" for j using cm(3) by (simp add: in_core_def same_frames_def)
  have fr: "cd_pd (frame_at j ?vm) = cd_pd (frame_at j vm)" "j \<noteq> f \<Longrightarrow> cd_kern (frame_at j ?vm) = cd_kern (frame_at j vm)" if "in_core j vm" for j
    using cm(3) that by (simp_all add: frame_at_def same_frames_def in_core_def)
  have "vm_inv k {} (fs @ [f]) ss ?vm"
  proof (rule vm_invI)
    show "tlb_ok k (vm_tlb ?vm)" "swap_list (vm_swap ?vm) ss" using vm_inv_parts(1,2)[OF inv] by simp_all
    show "cm_wf {} (vm_cm ?vm) (fs @ [f])" using cm_wf_add[OF wf cm(2) _ cm(3-5) fl(4)] by simp
  next
    fix r pd assume "get_pd r ?vm = Some pd"
    then have w: "page_wf {} fs ss vm r pd" using vm_inv_pageD[OF inv] by simp
    have n: "nat (pd_pfn pd) \<notin> set (fs @ [f]) \<and> in_core (nat (pd_pfn pd)) ?vm \<and> cd_pd (frame_at (nat (pd_pfn pd)) ?vm) = Some r \<and>
        cd_kern (frame_at (nat (pd_pfn pd)) ?vm) = 0" if "pd_pfn pd \<noteq> -1"
    proof -
      have m: "in_core (nat (pd_pfn pd)) vm" "nat (pd_pfn pd) \<notin> set fs" "cd_pd (frame_at (nat (pd_pfn pd)) vm) = Some r"
          "cd_kern (frame_at (nat (pd_pfn pd)) vm) = 0"
        using w that unfolding page_wf_def by blast+
      then have "nat (pd_pfn pd) \<noteq> f" using f(2) by auto
      with m show ?thesis using core fr[OF m(1)] by simp
    qed
    have sw: "vm_swap ?vm = vm_swap vm" by simp
    show "page_wf {} (fs @ [f]) ss ?vm r pd" using w n unfolding page_wf_def sw by blast
  next
    fix r r' pd pd' assume "get_pd r ?vm = Some pd" "get_pd r' ?vm = Some pd'" "pd_sfn pd \<noteq> -1" "pd_sfn pd = pd_sfn pd'"
    then show "r = r'" unfolding get_pd_fields using vm_inv_sfnD[OF inv, of r pd r' pd'] by blast
  next
    fix j assume j: "in_core j ?vm" "j \<notin> {}" "j \<notin> set (fs @ [f])" "cd_kern (frame_at j ?vm) = 0"
    then have m: "in_core j vm" "j \<notin> set fs" "j \<noteq> f" using core[of j] by simp_all
    have "cd_kern (frame_at j vm) = 0" using fr(2)[OF m(1,3)] j(4) by simp
    from vm_inv_frameD[OF inv m(1) j(2) m(2) this] show "\<exists>r pd. cd_pd (frame_at j ?vm) = Some r \<and> get_pd r ?vm = Some pd \<and> pd_pfn pd = int j"
      using fr(1)[OF m(1)] by simp
  qed
  moreover have "page_contents ?vm r = page_contents vm r" for r by (simp add: page_contents_def frame_bytes_def split: option.splits)
  then have "pages_kept vm ?vm" by (simp add: pages_kept_def page_kept_def split: option.splits)
  ultimately show ?thesis using run core fr(2) by blast
qed

section \<open>A small system\<close>

text \<open>
  One frame above that of the kernel, three places in the swap file: page 0 of table 0 is in frame 1, page 1 in
  place 0 of the swap file, page 2 not loaded yet.
\<close>

definition demo_cd :: "int \<Rightarrow> pdref option \<Rightarrow> cm_detail" where
  "demo_cd i p = \<lparr>cd_id = i, cd_kern = 0, cd_pd = p, cd_next = None, cd_prev = None, cd_free = False\<rparr>"

definition demo_pd :: "int \<Rightarrow> int \<Rightarrow> int \<Rightarrow> page_detail" where
  "demo_pd v f s = \<lparr>pd_vaddr = v, pd_pfn = f, pd_sfn = s, pd_valid = (f \<noteq> -1), pd_dirty = True, pd_use = True\<rparr>"

definition demo_tlb :: tlbsys where
  "demo_tlb = \<lparr>tlbfreenodes = map (\<lambda>j. \<lparr>tn_id = int j, tn_next = Some (Suc j)\<rparr>) [0..<63] @ [\<lparr>tn_id = 64, tn_next = None\<rparr>],
     tlbnextfree = Some 0, next_victim = 0, tlb_hw = map (\<lambda>j. (TLBHI_INVALID (int j), 0)) [0..<64]\<rparr>"

definition demo_page :: page where
  "demo_page = replicate 4096 7"

definition demo_swap :: swapsys where
  "demo_swap = \<lparr>freePages = Some 1, pageList = [\<lparr>sn_index = 0, sn_next = None\<rparr>, \<lparr>sn_index = 1, sn_next = Some 2\<rparr>,
     \<lparr>sn_index = 2, sn_next = None\<rparr>], swapdisk = (\<lambda>_. demo_page)\<rparr>"

definition demo_vm :: vmsys where
  "demo_vm = \<lparr>vm_tlb = demo_tlb, vm_swap = demo_swap,
     vm_cm = \<lparr>cm_init = True, cm_size = 2, clock_pointer = 0, lowest_frame = 1,
       core_details = [demo_cd 0 None, demo_cd 1 (Some (Pdref 0 0))], free_frame_list = None, last_free = None\<rparr>,
     page_tables = (\<lambda>p. if p = 0 then Some [demo_pd 4096 1 (-1), demo_pd 8192 (-1) 0, demo_pd 12288 (-1) (-1)] else None),
     ram = (\<lambda>_. 5)\<rparr>"

definition demo_segment :: segment where
  "demo_segment = \<lparr>sg_active = 1, sg_vbase = 4096, sg_size = 3, sg_writeable = True, sg_pt = Some 0, p_offset = 0,
     p_filesz = 0, p_memsz = 0, p_flags = 0\<rparr>"

lemma length_demo_page [simp]: "length demo_page = 4096"
  by (simp only: demo_page_def length_replicate)

lemma demo_tlb_ok: "tlb_ok 1 demo_tlb"
proof -
  have "tlb_fresh 0 demo_tlb" by (auto simp: tlb_fresh_def tlb_wf_def demo_tlb_def nth_append)
  moreover have "\<forall>j < 63. tn_id (tlbfreenodes demo_tlb ! j) = int j" by (auto simp: demo_tlb_def nth_append)
  moreover have "\<forall>j. 0 \<le> j \<and> j < 64 \<longrightarrow> fst (tlb_hw demo_tlb ! j) \<ge> 2147483648" by (auto simp: demo_tlb_def TLBHI_INVALID_def)
  ultimately have f: "tlb_free demo_tlb [0..<63]" by (rule tlb_fresh_free)
  have "1 \<le> length [0..<63]" by (simp only: length_upt)
  with f show ?thesis unfolding tlb_ok_def by blast
qed

lemma demo_get_pd:
  "get_pd r demo_vm = (if pd_table r = 0 then
     if pd_index r = 0 then Some (demo_pd 4096 1 (-1)) else if pd_index r = 1 then Some (demo_pd 8192 (-1) 0)
     else if pd_index r = 2 then Some (demo_pd 12288 (-1) (-1)) else None else None)"
  by (auto simp: get_pd_def demo_vm_def nth_Cons split: nat.splits)

lemma demo_frame:
  "in_core i demo_vm \<longleftrightarrow> i = 1" "frame_at (Suc 0) demo_vm = demo_cd 1 (Some (Pdref 0 0))"
  by (auto simp: in_core_def frame_at_def demo_vm_def)

lemma demo_inv: "vm_inv 1 {} [] [1, 2] demo_vm"
proof -
  have sw: "swap_list (vm_swap demo_vm) [1, 2]"
    by (auto simp: demo_vm_def demo_swap_def swap_list_def nth_Cons split: nat.splits)
  have cm: "cm_wf {} (vm_cm demo_vm) []"
    by (auto simp: cm_wf_def demo_vm_def frame_list_def demo_cd_def nth_Cons split: nat.splits)
  have page: "page_wf {} [] [1, 2] demo_vm r pd" if "get_pd r demo_vm = Some pd" for r pd
  proof (cases r)
    case (Pdref p j)
    with that show ?thesis
      by (auto simp: demo_get_pd page_wf_def demo_frame demo_pd_def demo_cd_def page_aligned_def split: if_splits)
        (auto simp: demo_vm_def demo_swap_def)
  qed
  have uniq: "r = r'" if "get_pd r demo_vm = Some pd" "get_pd r' demo_vm = Some pd'" "pd_sfn pd \<noteq> -1" "pd_sfn pd = pd_sfn pd'" for r r' pd pd'
    using that by (cases r; cases r') (auto simp: demo_get_pd demo_pd_def split: if_splits)
  have frames: "\<exists>r pd. cd_pd (frame_at i demo_vm) = Some r \<and> get_pd r demo_vm = Some pd \<and> pd_pfn pd = int i"
    if "in_core i demo_vm" for i
    using that by (simp add: demo_frame demo_cd_def demo_get_pd demo_pd_def)
  have "tlb_ok 1 (vm_tlb demo_vm)" using demo_tlb_ok by (simp add: demo_vm_def)
  from this sw cm page uniq frames show ?thesis by (rule vm_invI)
qed

lemma demo_available: "frame_available [] [1, 2] demo_vm"
  by (simp add: frame_available_def demo_frame demo_cd_def)

text \<open>Two free frames and no page.\<close>

definition demo_free_vm :: vmsys where
  "demo_free_vm = \<lparr>vm_tlb = demo_tlb, vm_swap = demo_swap,
     vm_cm = \<lparr>cm_init = True, cm_size = 3, clock_pointer = 0, lowest_frame = 1,
       core_details = [demo_cd 0 None, (demo_cd 1 None)\<lparr>cd_free := True, cd_next := Some 2\<rparr>,
         (demo_cd 2 None)\<lparr>cd_free := True, cd_prev := Some 1\<rparr>], free_frame_list = Some 1, last_free = Some 2\<rparr>,
     page_tables = (\<lambda>p. None), ram = (\<lambda>_. 5)\<rparr>"

lemma demo_free_core: "in_core i demo_free_vm \<longleftrightarrow> i = 1 \<or> i = 2"
  by (auto simp: in_core_def demo_free_vm_def)

lemma demo_free_inv: "vm_inv 1 {} [1, 2] [1, 2] demo_free_vm"
proof (rule vm_invI)
  show "tlb_ok 1 (vm_tlb demo_free_vm)" using demo_tlb_ok by (simp add: demo_free_vm_def)
  show "swap_list (vm_swap demo_free_vm) [1, 2]"
    by (auto simp: demo_free_vm_def demo_swap_def swap_list_def nth_Cons split: nat.splits)
  show "cm_wf {} (vm_cm demo_free_vm) [1, 2]"
    by (auto simp: demo_free_vm_def cm_wf_def frame_list_def demo_cd_def nth_Cons last_of_def split: nat.splits)
next
  fix i assume "in_core i demo_free_vm" "i \<notin> set [1, 2]"
  then show "\<exists>r pd. cd_pd (frame_at i demo_free_vm) = Some r \<and> get_pd r demo_free_vm = Some pd \<and> pd_pfn pd = int i"
    by (simp add: demo_free_core)
qed (simp_all add: get_pd_def demo_free_vm_def)

definition empty_read :: vop_read where
  "empty_read u mem = (case uiomove [] 0 u mem of None \<Rightarrow> None | Some (e, _, u', mem') \<Rightarrow> Some (e, u', mem'))"

section \<open>Properties\<close>

text \<open>
  C25. Taking a frame loses no page: \<^verbatim>\<open>cm_getppage\<close> returns a frame that holds no page, and every writable page of
  every process still has its contents, in its frame or in the swap file; a read-only page may have been
  dropped, to be loaded again. The invariant of core map, page tables and swap file is kept. It needs a
  free frame, or a frame the kernel does not own and a free place in the swap file.
\<close>

theorem pages_survive_eviction:
  assumes "vm_inv k {} fs ss vm" and "frame_available fs ss vm"
  shows "\<exists>i vm' fs' ss'. cm_getppage vm = Some (int i, vm') \<and> vm_inv k {i} fs' ss' vm' \<and> in_core i vm' \<and> i \<notin> set fs' \<and>
    pages_kept vm vm' \<and> no_page_in i vm'"
  using cm_getppage_spec[OF assms] unfolding no_page_in_def by blast

theorem pages_survive_eviction_witness:
  "\<exists>vm'. cm_getppage demo_vm = Some (1, vm') \<and> page_contents vm' (Pdref 0 0) = page_contents demo_vm (Pdref 0 0) \<and> no_page_in 1 vm'"
proof -
  obtain i vm' fs' ss' where r: "cm_getppage demo_vm = Some (int i, vm')" "vm_inv 1 {i} fs' ss' vm'" "in_core i vm'"
      "pages_kept demo_vm vm'" "no_page_in i vm'"
    using pages_survive_eviction[OF demo_inv demo_available] by blast
  have c: "page_contents vm' (Pdref 0 0) = page_contents demo_vm (Pdref 0 0)"
    by (rule pages_kept_contents[OF r(4), where pd = "demo_pd 4096 1 (-1)"]) (simp_all add: demo_get_pd demo_pd_def)
  obtain f vm'' where "cm_getppage demo_vm = Some (f, vm'')" "evicted_frame 1 [2] demo_vm f vm''"
    using getppage_evict[OF demo_inv, of 1] by (auto simp: demo_frame demo_cd_def)
  then have "in_core i demo_vm" using r(1) unfolding evicted_frame_def cm_same_def in_core_def by auto
  then have "i = 1" by (simp add: demo_frame)
  with r c show ?thesis by auto
qed



text \<open>
  C29. Eviction must not be interrupted: after \<^verbatim>\<open>cm_getppage\<close> has evicted a page, and until \<^verbatim>\<open>cm_finish_paging\<close> installs
  the new one, a second \<^verbatim>\<open>cm_getppage\<close> is the panic "FREE PHYSICAL FRAMES NOT IN THE FREE LIST": the frame
  is not marked, and the hand of the clock still points at it. Between the two calls \<^verbatim>\<open>pt_page_in\<close> waits for
  the disk with interrupts on, and \<^verbatim>\<open>as_copy_segments\<close> calls \<^verbatim>\<open>copyin\<close>, which may fault.
\<close>

theorem eviction_not_reentrant:
  assumes "vm_inv k {} [] (s # ss) vm" and "in_core i vm" and "cd_kern (frame_at i vm) = 0"
  shows "\<exists>f vm'. cm_getppage vm = Some (f, vm') \<and> cm_getppage vm' = None"
  using getppage_evict[OF assms] getppage_after_eviction by blast

theorem eviction_not_reentrant_witness:
  "\<exists>f vm'. cm_getppage demo_vm = Some (f, vm') \<and> cm_getppage vm' = None"
  using eviction_not_reentrant[OF demo_inv, of 1] by (simp add: demo_frame demo_cd_def)

text \<open>
  C27. \<^verbatim>\<open>alloc_kpages\<close> returns consecutive frames that the kernel did not own; afterwards they hold no page, are not
  free and are marked, all writable pages keep their contents, and the invariant holds.
\<close>

theorem alloc_kpages_correct:
  assumes "kern_request k fs ss num vm"
  shows "\<exists>f vm' fs' ss'. alloc_kpages num vm = Some (int f * 4096 + 2147483648, vm') \<and> vm_inv k {} fs' ss' vm' \<and>
    pages_kept vm vm' \<and> set fs' = set fs - {f..<f + nat num} \<and>
    (\<forall>j \<in> {f..<f + nat num}. in_core j vm \<and> cd_kern (frame_at j vm) = 0 \<and> no_page_in j vm' \<and> cd_kern (frame_at j vm') \<noteq> 0)"
proof -
  have "0 < num" using assms by (simp add: kern_request_def)
  with cm_request_kframes_spec[OF assms] show ?thesis unfolding alloc_kpages_def by fastforce
qed

theorem alloc_kpages_correct_witness:
  "\<exists>a vm'. alloc_kpages 1 demo_vm = Some (a, vm') \<and> page_contents vm' (Pdref 0 0) = page_contents demo_vm (Pdref 0 0)"
proof -
  have "kern_free_run 1 1 (vm_cm demo_vm)" by (auto simp: kern_free_run_def demo_vm_def demo_cd_def nth_Cons split: nat.splits)
  then have "kern_request 1 [] [1, 2] 1 demo_vm"
    using demo_inv by (auto simp: kern_request_def) (auto simp: demo_vm_def intro!: exI[of _ 1])
  then obtain f vm' where r: "alloc_kpages 1 demo_vm = Some (int f * 4096 + 2147483648, vm')" "pages_kept demo_vm vm'"
    using alloc_kpages_correct[of 1 "[]" "[1, 2]" 1 demo_vm] by blast
  have "page_contents vm' (Pdref 0 0) = page_contents demo_vm (Pdref 0 0)"
    by (rule pages_kept_contents[OF r(2), where pd = "demo_pd 4096 1 (-1)"]) (simp_all add: demo_get_pd demo_pd_def)
  with r(1) show ?thesis by blast
qed

text \<open>
  C28. Kernel pages leak: \<^verbatim>\<open>cm_request_kframes\<close> stores the length of the run in its first frame, but
  \<^verbatim>\<open>free_frame_list_remove\<close> then sets that mark back to 1, so that \<^verbatim>\<open>free_kpages\<close> of a run of \<open>num\<close> frames that
  came from the free list gives back only one of them.
\<close>

theorem kernel_pages_leak:
  assumes "kern_request k fs ss num vm" and "\<And>i. in_core i vm \<Longrightarrow> cd_kern (frame_at i vm) = 0 \<Longrightarrow> i \<in> set fs"
  shows "\<exists>a vm1 vm2 fs2. alloc_kpages num vm = Some (a, vm1) \<and> free_kpages a vm1 = Some vm2 \<and> frame_list (vm_cm vm2) fs2 \<and>
    int (length fs2) = int (length fs) - num + 1"
proof -
  obtain f vm1 fs1 ss1 where r: "alloc_kpages num vm = Some (int f * 4096 + 2147483648, vm1)" "vm_inv k {} fs1 ss1 vm1"
      "set fs1 = set fs - {f..<f + nat num}"
      "\<forall>j \<in> {f..<f + nat num}. in_core j vm \<and> cd_kern (frame_at j vm) = 0 \<and> in_core j vm1 \<and> no_page_in j vm1"
      "\<forall>i. in_core i vm \<longrightarrow> in_core i vm1 \<and> cd_kern (frame_at i vm1) =
         (if i \<in> {f..<f + nat num} then if i = f \<and> f \<notin> set fs then num else 1 else cd_kern (frame_at i vm))"
    using cm_request_kframes_spec[OF assms(1)] unfolding alloc_kpages_def by blast
  have num: "0 < num" and d: "distinct fs" using assms(1) by (auto simp: kern_request_def vm_inv_def cm_wf_def frame_list_def)
  have d1: "distinct fs1" using vm_inv_parts(3)[OF r(2)] by (simp add: cm_wf_def frame_list_def)
  have sub: "{f..<f + nat num} \<subseteq> set fs" using r(4) assms(2) by blast
  have fin: "f \<in> {f..<f + nat num}" using num by simp
  then have f: "in_core f vm1" "f \<notin> set fs1" "cd_kern (frame_at f vm1) = 1"
    using r(4)[rule_format, OF fin] r(5)[rule_format, of f] r(3) subsetD[OF sub fin] by auto
  obtain vm2 where vm2: "free_kpages (int f * 4096 + 2147483648) vm1 = Some vm2" "frame_list (vm_cm vm2) (fs1 @ [f])"
    using free_kpages_single[OF r(2) f] by blast
  have "length fs1 = card (set fs - {f..<f + nat num})" using d1 r(3) by (simp add: distinct_card[symmetric])
  also have "\<dots> = length fs - nat num" using d sub by (simp add: card_Diff_subset distinct_card)
  moreover have "nat num \<le> length fs" using card_mono[OF _ sub] d by (simp add: distinct_card)
  ultimately have "int (length (fs1 @ [f])) = int (length fs) - num + 1" using num by simp
  with r(1) vm2 show ?thesis by blast
qed

theorem kernel_pages_leak_witness:
  "\<exists>a vm1 vm2 fs2. alloc_kpages 2 demo_free_vm = Some (a, vm1) \<and> free_kpages a vm1 = Some vm2 \<and> frame_list (vm_cm vm2) fs2 \<and> length fs2 = 1"
proof -
  have "kern_free_run 1 2 (vm_cm demo_free_vm)" by (auto simp: kern_free_run_def demo_free_vm_def demo_cd_def nth_Cons split: nat.splits)
  then have "kern_request 1 [1, 2] [1, 2] 2 demo_free_vm"
    unfolding kern_request_def using demo_free_inv by (auto intro!: exI[of _ 1]) (simp_all add: demo_free_vm_def)
  then show ?thesis using kernel_pages_leak[of 1 "[1, 2]" "[1, 2]" 2 demo_free_vm] demo_free_core by simp
qed

end
