(* ===== verification/Vm_Addrspace.thy ===== *)
theory Vm_Addrspace
  imports Vm_Paging
begin

text \<open>
  Address spaces and page faults: \<^verbatim>\<open>kern/vm/addrspace.c\<close> and \<^verbatim>\<open>load_elf\<close> of \<^verbatim>\<open>kern/userprog/loadelf.c\<close>.

  An address space has three segments, the last one for the stack. A vnode is the number that stands for
  it. What \<^verbatim>\<open>kmalloc\<close> returns is a parameter of the operations that call it: uninitialised memory where
  the code leaves it so, and addresses for page tables.
\<close>

section \<open>Model\<close>

record addrspace =
  segments :: "segment list"
  as_file :: "nat option"
  num_segments :: int

definition PAGE_FRAME_of :: "int \<Rightarrow> int" where
  "PAGE_FRAME_of v = v - v mod 4096"

definition clear_segment :: segment where
  "clear_segment = \<lparr>sg_active = 0, sg_vbase = 0, sg_size = 0, sg_writeable = False, sg_pt = None, p_offset = 0,
     p_filesz = 0, p_memsz = 0, p_flags = 0\<rparr>"

definition get_seg :: "int \<Rightarrow> addrspace \<Rightarrow> segment option" where
  "get_seg i as = load (Some (segments as)) i"

definition put_seg :: "int \<Rightarrow> segment \<Rightarrow> addrspace \<Rightarrow> addrspace option" where
  "put_seg i s as = do { ss \<leftarrow> store (Some (segments as)) i s; Some (as\<lparr>segments := ss\<rparr>) }"

text \<open>\<open>mem\<close> is the memory \<^verbatim>\<open>kmalloc\<close> hands out; the loop stops before the last segment.\<close>

definition as_create :: "addrspace option \<Rightarrow> addrspace option option" where
  "as_create mem = (case mem of None \<Rightarrow> Some None
     | Some as0 \<Rightarrow> do {
         as1 \<leftarrow> put_seg 0 clear_segment as0;
         as2 \<leftarrow> put_seg 1 clear_segment as1;
         Some (Some (as2\<lparr>as_file := None, num_segments := 0\<rparr>))
       })"

text \<open>Giving the frame and the swap place of one page back, and those of a page table from page \<open>j\<close> on.\<close>

definition free_page :: "pdref \<Rightarrow> vmsys \<Rightarrow> vmsys option" where
  "free_page r vm = do {
     pd \<leftarrow> get_pd r vm;
     vm1 \<leftarrow> (if pd_pfn pd \<noteq> -1 then do { cm \<leftarrow> cm_release_frame (pd_pfn pd) (vm_cm vm); Some (vm\<lparr>vm_cm := cm\<rparr>) } else Some vm);
     (if pd_sfn pd \<noteq> -1 then do { sw \<leftarrow> swap_free_page (pd_sfn pd) (vm_swap vm1); Some (vm1\<lparr>vm_swap := sw\<rparr>) } else Some vm1)
   }"

primrec free_pages :: "nat \<Rightarrow> nat \<Rightarrow> nat \<Rightarrow> vmsys \<Rightarrow> vmsys option" where
  "free_pages 0 pt j vm = Some vm"
| "free_pages (Suc n) pt j vm = do { vm1 \<leftarrow> free_page (Pdref pt j) vm; free_pages n pt (Suc j) vm1 }"

primrec free_segments :: "segment list \<Rightarrow> vmsys \<Rightarrow> vmsys option" where
  "free_segments [] vm = Some vm"
| "free_segments (s # ss) vm = do {
     vm1 \<leftarrow> (if sg_active s \<noteq> 0
             then (case sg_pt s of None \<Rightarrow> Some vm
                   | Some pt \<Rightarrow> do {
                       pds \<leftarrow> page_tables vm pt;
                       vm' \<leftarrow> free_pages (length pds) pt 0 vm;
                       Some (pt_destroy (Some pt) vm')
                     })
             else Some vm);
     free_segments ss vm1
   }"

definition as_free_segments :: "addrspace \<Rightarrow> vmsys \<Rightarrow> vmsys option" where
  "as_free_segments as vm = free_segments (segments as) vm"

text \<open>The vnode whose open count the caller has to decrement is part of the result.\<close>

definition as_destroy :: "addrspace \<Rightarrow> vmsys \<Rightarrow> (nat option \<times> vmsys) option" where
  "as_destroy as vm = do { vm' \<leftarrow> as_free_segments as vm; Some (as_file as, vm') }"

text \<open>\<open>prev\<close> is the global \<^verbatim>\<open>last_addrspace\<close>, by address.\<close>

definition as_activate :: "nat option \<Rightarrow> nat option \<Rightarrow> vmsys \<Rightarrow> (nat option \<times> vmsys) option" where
  "as_activate as prev vm =
     (if prev \<noteq> None \<and> prev \<noteq> as
      then do { tlb \<leftarrow> tlb_context_switch (vm_tlb vm); Some (as, vm\<lparr>vm_tlb := tlb\<rparr>) }
      else Some (as, vm))"

definition as_define_region :: "nat option \<Rightarrow> bool \<Rightarrow> int \<Rightarrow> int \<Rightarrow> int \<Rightarrow> int \<Rightarrow> int \<Rightarrow> addrspace \<Rightarrow> vmsys \<Rightarrow> (errno \<times> addrspace \<times> vmsys) option" where
  "as_define_region p details vaddr sz flags offset filesz as vm = do {
     let sz1 = u32 (sz + vaddr mod 4096);
     let base = PAGE_FRAME_of vaddr;
     let npages = PAGE_FRAME_of (u32 (sz1 + 4096 - 1)) div 4096;
     if num_segments as < 3 - 1 then do {
       s0 \<leftarrow> get_seg (num_segments as) as;
       kassert (sg_active s0 = 0);
       let s1 = s0\<lparr>sg_active := 1, sg_vbase := base, sg_size := npages, sg_writeable := (and flags 2 \<noteq> 0),
                   p_offset := offset, p_memsz := sz, p_filesz := filesz, p_flags := and flags 1\<rparr>;
       (pt, vm1) \<leftarrow> pt_create p details s1 vm;
       as1 \<leftarrow> put_seg (num_segments as) (s1\<lparr>sg_pt := Some pt\<rparr>) as;
       Some (OK, as1\<lparr>num_segments := num_segments as + 1\<rparr>, vm1)
     }
     else Some (EUNIMP, as, vm)
   }"

definition as_define_stack :: "nat option \<Rightarrow> bool \<Rightarrow> addrspace \<Rightarrow> vmsys \<Rightarrow> (int \<times> addrspace \<times> vmsys) option" where
  "as_define_stack p details as vm = do {
     s0 \<leftarrow> get_seg (3 - 1) as;
     let s1 = s0\<lparr>sg_active := 1, sg_vbase := USERTOP - 12 * 4096, sg_size := 12, sg_writeable := True, p_offset := 0,
                 p_filesz := 0, p_memsz := 0, p_flags := 0\<rparr>;
     (pt, vm1) \<leftarrow> pt_create p details s1 vm;
     as1 \<leftarrow> put_seg (3 - 1) (s1\<lparr>sg_pt := Some pt\<rparr>) as;
     Some (USERTOP, as1, vm1)
   }"

primrec find_segment :: "segment list \<Rightarrow> int \<Rightarrow> segment option" where
  "find_segment [] v = None"
| "find_segment (s # ss) v =
     (if sg_active s = 1 \<and> v \<ge> sg_vbase s \<and> v < u32 (sg_vbase s + sg_size s * 4096) then Some s else find_segment ss v)"

definition as_get_segment :: "addrspace \<Rightarrow> int \<Rightarrow> segment option" where
  "as_get_segment as v = find_segment (segments as) v"

text \<open>
  The addresses are compared as pointers to 4-byte words, so that the end of a segment is four times its
  length away from its base.
\<close>

definition as_valid_read_addr :: "addrspace \<Rightarrow> int \<Rightarrow> bool" where
  "as_valid_read_addr as check_addr \<longleftrightarrow> check_addr < USERTOP \<and>
     list_ex (\<lambda>s. sg_active s \<noteq> 0 \<and> check_addr \<ge> sg_vbase s \<and> check_addr < u32 (sg_vbase s + 4 * u32 (4096 * sg_size s))) (segments as)"

definition as_valid_write_addr :: "addrspace \<Rightarrow> int \<Rightarrow> bool" where
  "as_valid_write_addr as check_addr \<longleftrightarrow> check_addr < USERTOP \<and>
     list_ex (\<lambda>s. sg_active s \<noteq> 0 \<and> check_addr \<ge> sg_vbase s \<and> check_addr < u32 (sg_vbase s + 4 * u32 (4096 * sg_size s))) (segments as)"

text \<open>A fault ends with a return value, or with the end of the thread.\<close>

datatype fault_result = Returned errno | Exited

definition vm_fault :: "vop_read \<Rightarrow> int \<Rightarrow> int \<Rightarrow> int \<Rightarrow> addrspace option \<Rightarrow> vmsys \<Rightarrow> (fault_result \<times> vmsys) option" where
  "vm_fault vread junk faulttype faultaddress cur vm = do {
     let v = PAGE_FRAME_of faultaddress;
     case cur of None \<Rightarrow> Some (Returned EFAULT, vm)
     | Some as \<Rightarrow>
         if faulttype = 2 then Some (Exited, vm)
         else if faulttype = 1 \<and> \<not> as_valid_write_addr as v then Some (Exited, vm)
         else if faulttype = 0 \<and> \<not> as_valid_read_addr as v then Some (Exited, vm)
         else if faulttype \<noteq> 0 \<and> faulttype \<noteq> 1 then Some (Returned EINVAL, vm)
         else do {
           s \<leftarrow> as_get_segment as v;
           vm' \<leftarrow> pt_page_in vread junk v s vm;
           Some (Returned OK, vm')
         }
   }"

text \<open>
  \<^verbatim>\<open>copyin\<close> of one page of the current address space: the processor translates the address, and a miss is a
  fault, after which the access is repeated. The result of \<^verbatim>\<open>copyin\<close> is ignored by its caller. A fault
  that ends the thread does not return to the copy.
\<close>

definition tlb_lookup :: "int \<Rightarrow> tlbsys \<Rightarrow> int option" where
  "tlb_lookup v s = (let i = TLB_Probe v s in if i = -1 then None
     else let lo = snd (tlb_hw s ! nat i) in if and lo 512 = 0 then None else Some (lo div 4096))"

definition copyin_page :: "vop_read \<Rightarrow> int \<Rightarrow> addrspace \<Rightarrow> int \<Rightarrow> int \<Rightarrow> vmsys \<Rightarrow> vmsys option" where
  "copyin_page vread junk as v dest vm =
     (if copycheck v 4096 \<noteq> (OK, 4096) then Some vm
      else (case tlb_lookup v (vm_tlb vm) of
              Some f \<Rightarrow> Some (vm\<lparr>ram := write_bytes (dest * 4096) (frame_bytes f vm) (ram vm)\<rparr>)
            | None \<Rightarrow> do {
                (r, vm1) \<leftarrow> vm_fault vread junk 0 v (Some as) vm;
                kassert (r = Returned OK);
                f \<leftarrow> tlb_lookup v (vm_tlb vm1);
                Some (vm1\<lparr>ram := write_bytes (dest * 4096) (frame_bytes f vm1) (ram vm1)\<rparr>)
              }))"

text \<open>The pages of one segment, from \<open>j\<close> on, into the new page table \<open>npt\<close>.\<close>

primrec copy_pages :: "nat \<Rightarrow> vop_read \<Rightarrow> int \<Rightarrow> addrspace \<Rightarrow> nat \<Rightarrow> nat \<Rightarrow> nat \<Rightarrow> vmsys \<Rightarrow> vmsys option" where
  "copy_pages 0 vread junk old opt npt j vm = Some vm"
| "copy_pages (Suc n) vread junk old opt npt j vm = do {
     pd \<leftarrow> get_pd (Pdref npt j) vm;
     opd \<leftarrow> get_pd (Pdref opt j) vm;
     vm' \<leftarrow> (if pd_dirty opd then do {
               vm1 \<leftarrow> upd_pd (Pdref npt j) (\<lambda>pd. pd\<lparr>pd_use := False, pd_valid := True\<rparr>) vm;
               (frame, vm2) \<leftarrow> cm_getppage vm1;
               vm3 \<leftarrow> upd_pd (Pdref npt j) (\<lambda>pd. pd\<lparr>pd_pfn := frame\<rparr>) vm2;
               vm4 \<leftarrow> copyin_page vread junk old (pd_vaddr pd) frame vm3;
               cm_finish_paging frame (Pdref npt j) vm4
             }
             else upd_pd (Pdref npt j) (\<lambda>pd. pd\<lparr>pd_use := False, pd_pfn := -1, pd_valid := False, pd_sfn := -1\<rparr>) vm);
     copy_pages n vread junk old opt npt (Suc j) vm'
   }"

text \<open>\<open>pts i\<close> is what \<^verbatim>\<open>kmalloc\<close> returns for the page table of segment \<open>i\<close> and its details.\<close>

primrec copy_segments :: "segment list \<Rightarrow> nat \<Rightarrow> (nat \<Rightarrow> nat option \<times> bool) \<Rightarrow> vop_read \<Rightarrow> int \<Rightarrow> addrspace \<Rightarrow> addrspace \<Rightarrow> vmsys \<Rightarrow> (addrspace \<times> vmsys) option" where
  "copy_segments [] i pts vread junk old new vm = Some (new, vm)"
| "copy_segments (s # ss) i pts vread junk old new vm = do {
     (new', vm') \<leftarrow> (if sg_active s \<noteq> 0 then do {
        n0 \<leftarrow> get_seg (int i) new;
        let n1 = n0\<lparr>sg_active := 1, sg_vbase := sg_vbase s, sg_size := sg_size s, sg_writeable := sg_writeable s, p_offset := p_offset s,
                   p_filesz := p_filesz s, p_memsz := p_memsz s, p_flags := p_flags s\<rparr>;
        (npt, vm1) \<leftarrow> pt_create (fst (pts i)) (snd (pts i)) n1 vm;
        new1 \<leftarrow> put_seg (int i) (n1\<lparr>sg_pt := Some npt\<rparr>) new;
        opt \<leftarrow> sg_pt s;
        vm2 \<leftarrow> copy_pages (nat (sg_size s)) vread junk old opt npt 0 vm1;
        Some (new1, vm2)
      } else Some (new, vm));
     copy_segments ss (Suc i) pts vread junk old new' vm'
   }"

definition as_copy_segments :: "(nat \<Rightarrow> nat option \<times> bool) \<Rightarrow> vop_read \<Rightarrow> int \<Rightarrow> addrspace \<Rightarrow> addrspace \<Rightarrow> vmsys \<Rightarrow> (addrspace \<times> vmsys) option" where
  "as_copy_segments pts vread junk old new vm =
     copy_segments (segments old) 0 pts vread junk old (new\<lparr>num_segments := num_segments old\<rparr>) vm"

definition as_copy :: "addrspace option \<Rightarrow> (nat \<Rightarrow> nat option \<times> bool) \<Rightarrow> vop_read \<Rightarrow> int \<Rightarrow> addrspace \<Rightarrow> vmsys \<Rightarrow> (errno \<times> addrspace option \<times> vmsys) option" where
  "as_copy mem pts vread junk old vm = do {
     r \<leftarrow> as_create mem;
     case r of None \<Rightarrow> Some (ENOMEM, None, vm)
     | Some new0 \<Rightarrow> do {
         kassert (as_file old \<noteq> None);
         (new, vm') \<leftarrow> as_copy_segments pts vread junk old (new0\<lparr>as_file := as_file old\<rparr>) vm;
         Some (OK, Some new, vm')
       }
   }"

section \<open>Executables\<close>

text \<open>
  The headers are the bytes the code reads into its structures, big-endian. \<open>kmem\<close> is the memory of the
  kernel stack the header is read to, from address 0 on.
\<close>

definition be_value :: "8 word list \<Rightarrow> int" where
  "be_value bs = foldl (\<lambda>v b. v * 256 + uint b) 0 bs"

definition field :: "nat \<Rightarrow> nat \<Rightarrow> 8 word list \<Rightarrow> int" where
  "field off len bs = be_value (take len (drop off bs))"

record Elf_Ehdr =
  e_ident :: "8 word list"
  e_type :: int
  e_machine :: int
  e_version :: int
  e_entry :: int
  e_phoff :: int
  e_phentsize :: int
  e_phnum :: int

record Elf_Phdr =
  ph_type :: int
  ph_offset :: int
  ph_vaddr :: int
  ph_filesz :: int
  ph_memsz :: int
  ph_flags :: int

definition ehdr_of :: "8 word list \<Rightarrow> Elf_Ehdr" where
  "ehdr_of bs = \<lparr>e_ident = take 16 bs, e_type = field 16 2 bs, e_machine = field 18 2 bs, e_version = field 20 4 bs,
     e_entry = field 24 4 bs, e_phoff = field 28 4 bs, e_phentsize = field 42 2 bs, e_phnum = field 44 2 bs\<rparr>"

definition phdr_of :: "8 word list \<Rightarrow> Elf_Phdr" where
  "phdr_of bs = \<lparr>ph_type = field 0 4 bs, ph_offset = field 4 4 bs, ph_vaddr = field 8 4 bs, ph_filesz = field 16 4 bs,
     ph_memsz = field 20 4 bs, ph_flags = field 24 4 bs\<rparr>"

definition elf_ok :: "Elf_Ehdr \<Rightarrow> bool" where
  "elf_ok eh \<longleftrightarrow> take 7 (e_ident eh) = [127, 69, 76, 70, 1, 2, 1] \<and> e_version eh = 1 \<and> e_type eh = 2 \<and> e_machine eh = 8"

text \<open>The error, whether the read was short, and the bytes.\<close>

definition read_header :: "vop_read \<Rightarrow> int \<Rightarrow> int \<Rightarrow> umem \<Rightarrow> (errno \<times> bool \<times> 8 word list) option" where
  "read_header vread len pos kmem = do {
     (result, ku, mem) \<leftarrow> vread (mk_kuio 0 len pos UIO_READ) kmem;
     Some (result, uio_resid ku \<noteq> 0, read_bytes 0 (nat len) (um_bytes mem))
   }"

text \<open>\<open>n\<close> headers from number \<open>i\<close> on; \<open>pts\<close> as in \<open>copy_segments\<close>, by the number of the header.\<close>

primrec load_regions :: "nat \<Rightarrow> int \<Rightarrow> (nat \<Rightarrow> nat option \<times> bool) \<Rightarrow> vop_read \<Rightarrow> umem \<Rightarrow> Elf_Ehdr \<Rightarrow> addrspace \<Rightarrow> vmsys \<Rightarrow> (errno \<times> addrspace \<times> vmsys) option" where
  "load_regions 0 i pts vread kmem eh as vm = Some (OK, as, vm)"
| "load_regions (Suc n) i pts vread kmem eh as vm = do {
     (result, short, bs) \<leftarrow> read_header vread 32 (s32 (e_phoff eh + i * e_phentsize eh)) kmem;
     if result \<noteq> OK then Some (result, as, vm)
     else if short then Some (ENOEXEC, as, vm)
     else let ph = phdr_of bs in
       if ph_type ph = 0 \<or> ph_type ph = 6 \<or> ph_type ph = 1879048192 then load_regions n (i + 1) pts vread kmem eh as vm
       else if ph_type ph \<noteq> 1 then Some (ENOEXEC, as, vm)
       else do {
         (r, as1, vm1) \<leftarrow> as_define_region (fst (pts (nat i))) (snd (pts (nat i))) (ph_vaddr ph) (ph_memsz ph) (s32 (ph_flags ph))
           (ph_offset ph) (ph_filesz ph) as vm;
         if r \<noteq> OK then Some (r, as1, vm1) else load_regions n (i + 1) pts vread kmem eh as1 vm1
       }
   }"

text \<open>\<open>opened\<close> is the result of \<^verbatim>\<open>vfs_open\<close>; the entry point is set only on success.\<close>

definition load_elf :: "errno + nat \<Rightarrow> (nat \<Rightarrow> nat option \<times> bool) \<Rightarrow> vop_read \<Rightarrow> umem \<Rightarrow> addrspace \<Rightarrow> vmsys \<Rightarrow> (errno \<times> int option \<times> addrspace \<times> vmsys) option" where
  "load_elf opened pts vread kmem as vm =
     (case opened of Inl e \<Rightarrow> Some (e, None, as, vm)
      | Inr v \<Rightarrow> do {
          let as0 = as\<lparr>as_file := Some v\<rparr>;
          (result, short, bs) \<leftarrow> read_header vread 52 0 kmem;
          let eh = ehdr_of bs;
          if result \<noteq> OK then Some (result, None, as0, vm)
          else if short then Some (ENOEXEC, None, as0, vm)
          else if \<not> elf_ok eh then Some (ENOEXEC, None, as0, vm)
          else do {
            (r, as1, vm1) \<leftarrow> load_regions (nat (e_phnum eh)) 0 pts vread kmem eh as0 vm;
            if r \<noteq> OK then Some (r, None, as1, vm1) else Some (OK, Some (e_entry eh), as1, vm1)
          }
        })"

section \<open>Releasing an address space\<close>

text \<open>
  The invariant while a page table is torn down: the pages \<open>R\<close> have given up their frame and swap place but
  are still in the table.
\<close>

definition vm_inv_but :: "pdref set \<Rightarrow> nat \<Rightarrow> nat list \<Rightarrow> nat list \<Rightarrow> vmsys \<Rightarrow> bool" where
  "vm_inv_but R k fs ss vm \<longleftrightarrow> tlb_ok k (vm_tlb vm) \<and> swap_list (vm_swap vm) ss \<and> cm_wf {} (vm_cm vm) fs \<and>
     (\<forall>r pd. r \<notin> R \<longrightarrow> get_pd r vm = Some pd \<longrightarrow> page_wf {} fs ss vm r pd) \<and>
     (\<forall>r r' pd pd'. r \<notin> R \<longrightarrow> r' \<notin> R \<longrightarrow> get_pd r vm = Some pd \<longrightarrow> get_pd r' vm = Some pd' \<longrightarrow> pd_sfn pd \<noteq> -1 \<longrightarrow> pd_sfn pd = pd_sfn pd' \<longrightarrow> r = r') \<and>
     (\<forall>i. in_core i vm \<longrightarrow> i \<notin> set fs \<longrightarrow> cd_kern (frame_at i vm) = 0 \<longrightarrow>
        (\<exists>r pd. r \<notin> R \<and> cd_pd (frame_at i vm) = Some r \<and> get_pd r vm = Some pd \<and> pd_pfn pd = int i))"

definition frames_of_pages :: "pdref set \<Rightarrow> vmsys \<Rightarrow> nat set" where
  "frames_of_pages R vm = {i. \<exists>r \<in> R. \<exists>pd. get_pd r vm = Some pd \<and> pd_pfn pd = int i}"

definition places_of_pages :: "pdref set \<Rightarrow> vmsys \<Rightarrow> nat set" where
  "places_of_pages R vm = {i. \<exists>r \<in> R. \<exists>pd. get_pd r vm = Some pd \<and> pd_sfn pd = int i}"

text \<open>The translation buffer, the bytes in memory and in the swap file, and the page tables.\<close>

definition same_store :: "vmsys \<Rightarrow> vmsys \<Rightarrow> bool" where
  "same_store vm vm' \<longleftrightarrow> vm_tlb vm' = vm_tlb vm \<and> ram vm' = ram vm \<and> swapdisk (vm_swap vm') = swapdisk (vm_swap vm)"

definition released :: "pdref set \<Rightarrow> nat list \<Rightarrow> nat list \<Rightarrow> vmsys \<Rightarrow> nat list \<Rightarrow> nat list \<Rightarrow> vmsys \<Rightarrow> bool" where
  "released R fs ss vm fs' ss' vm' \<longleftrightarrow> same_store vm vm' \<and> set fs' = set fs \<union> frames_of_pages R vm \<and> set ss' = set ss \<union> places_of_pages R vm"

lemma vm_inv_but_empty: "vm_inv_but {} k fs ss vm = vm_inv k {} fs ss vm"
  unfolding vm_inv_but_def vm_inv_def by simp blast

lemma vm_inv_butD:
  "vm_inv_but R k fs ss vm \<Longrightarrow> r \<notin> R \<Longrightarrow> get_pd r vm = Some pd \<Longrightarrow> page_wf {} fs ss vm r pd"
  "vm_inv_but R k fs ss vm \<Longrightarrow> r \<notin> R \<Longrightarrow> r' \<notin> R \<Longrightarrow> get_pd r vm = Some pd \<Longrightarrow> get_pd r' vm = Some pd' \<Longrightarrow> pd_sfn pd \<noteq> -1 \<Longrightarrow> pd_sfn pd = pd_sfn pd' \<Longrightarrow> r = r'"
  "vm_inv_but R k fs ss vm \<Longrightarrow> in_core i vm \<Longrightarrow> i \<notin> set fs \<Longrightarrow> cd_kern (frame_at i vm) = 0 \<Longrightarrow>
     \<exists>r pd. r \<notin> R \<and> cd_pd (frame_at i vm) = Some r \<and> get_pd r vm = Some pd \<and> pd_pfn pd = int i"
  "vm_inv_but R k fs ss vm \<Longrightarrow> tlb_ok k (vm_tlb vm)" "vm_inv_but R k fs ss vm \<Longrightarrow> swap_list (vm_swap vm) ss"
  "vm_inv_but R k fs ss vm \<Longrightarrow> cm_wf {} (vm_cm vm) fs"
  unfolding vm_inv_but_def by blast+

lemma vm_inv_butI:
  assumes "tlb_ok k (vm_tlb vm)" and "swap_list (vm_swap vm) ss" and "cm_wf {} (vm_cm vm) fs"
    and "\<And>r pd. r \<notin> R \<Longrightarrow> get_pd r vm = Some pd \<Longrightarrow> page_wf {} fs ss vm r pd"
    and "\<And>r r' pd pd'. r \<notin> R \<Longrightarrow> r' \<notin> R \<Longrightarrow> get_pd r vm = Some pd \<Longrightarrow> get_pd r' vm = Some pd' \<Longrightarrow> pd_sfn pd \<noteq> -1 \<Longrightarrow> pd_sfn pd = pd_sfn pd' \<Longrightarrow> r = r'"
    and "\<And>i. in_core i vm \<Longrightarrow> i \<notin> set fs \<Longrightarrow> cd_kern (frame_at i vm) = 0 \<Longrightarrow>
           \<exists>r pd. r \<notin> R \<and> cd_pd (frame_at i vm) = Some r \<and> get_pd r vm = Some pd \<and> pd_pfn pd = int i"
  shows "vm_inv_but R k fs ss vm"
  unfolding vm_inv_but_def using assms by simp

lemma free_page_frame:
  assumes inv: "vm_inv_but R k fs ss vm" and r: "r \<notin> R" "get_pd r vm = Some pd" and f: "pd_pfn pd = int f"
  shows "\<exists>cm. free_page r vm = Some (vm\<lparr>vm_cm := cm\<rparr>) \<and> vm_inv_but (insert r R) k (f # fs) ss (vm\<lparr>vm_cm := cm\<rparr>)"
proof -
  have pw: "page_wf {} fs ss vm r pd" by (rule vm_inv_butD(1)[OF inv r])
  have wf: "cm_wf {} (vm_cm vm) fs" by (rule vm_inv_butD(6)[OF inv])
  have "pd_pfn pd \<noteq> -1" using f by simp
  with pw have "in_core (nat (pd_pfn pd)) vm \<and> nat (pd_pfn pd) \<notin> set fs \<and> cd_pd (frame_at (nat (pd_pfn pd)) vm) = Some r \<and> pd_sfn pd = -1"
    unfolding page_wf_def by blast
  then have p: "in_core f vm" "f \<notin> set fs" "cd_pd (frame_at f vm) = Some r" "pd_sfn pd = -1" using f by simp_all
  have fl: "frame_list (vm_cm vm) fs" using wf by (simp add: cm_wf_def)
  have b: "f < length (core_details (vm_cm vm))" using p(1) by (simp add: in_core_def)
  obtain cm where cm: "free_frame_list_add f (vm_cm vm) = Some cm" "frame_list cm (f # fs)" "same_frames f (vm_cm vm) cm"
      "cd_kern (core_details cm ! f) = 0" "cd_free (core_details cm ! f)"
    using free_frame_list_add_spec[OF fl b p(2)] by blast
  let ?vm = "vm\<lparr>vm_cm := cm\<rparr>"
  have core: "in_core j ?vm = in_core j vm" for j using cm(3) by (simp add: in_core_def same_frames_def)
  have fr: "cd_pd (frame_at j ?vm) = cd_pd (frame_at j vm)" "j \<noteq> f \<Longrightarrow> cd_kern (frame_at j ?vm) = cd_kern (frame_at j vm)"
    if "in_core j vm" for j
    using cm(3) that by (simp_all add: frame_at_def same_frames_def in_core_def)
  have "lowest_frame (vm_cm vm) \<le> int f" using p(1) by (simp add: in_core_def nat_le_iff)
  then have "free_page r vm = Some ?vm"
    using r(2) f p(4) cm(1) by (simp add: free_page_def cm_release_frame_def)
  moreover have "vm_inv_but (insert r R) k (f # fs) ss ?vm"
  proof (rule vm_inv_butI)
    show "tlb_ok k (vm_tlb ?vm)" "swap_list (vm_swap ?vm) ss" using vm_inv_butD(4,5)[OF inv] by simp_all
    have "nat (lowest_frame (vm_cm vm)) \<le> f" using p(1) by (simp add: in_core_def)
    then show "cm_wf {} (vm_cm ?vm) (f # fs)"
      using cm_wf_add[OF wf cm(2) _ cm(3-5)] by simp
  next
    fix q pd' assume q: "q \<notin> insert r R" "get_pd q ?vm = Some pd'"
    then have w: "page_wf {} fs ss vm q pd'" using vm_inv_butD(1)[OF inv, of q pd'] by simp
    have n: "nat (pd_pfn pd') \<notin> set (f # fs) \<and> in_core (nat (pd_pfn pd')) ?vm \<and> cd_pd (frame_at (nat (pd_pfn pd')) ?vm) = Some q \<and>
        cd_kern (frame_at (nat (pd_pfn pd')) ?vm) = 0" if "pd_pfn pd' \<noteq> -1"
    proof -
      have m: "in_core (nat (pd_pfn pd')) vm" "nat (pd_pfn pd') \<notin> set fs" "cd_pd (frame_at (nat (pd_pfn pd')) vm) = Some q"
          "cd_kern (frame_at (nat (pd_pfn pd')) vm) = 0"
        using w that unfolding page_wf_def by blast+
      then have "nat (pd_pfn pd') \<noteq> f" using p(3) q(1) by auto
      with m show ?thesis using core fr[OF m(1)] by simp
    qed
    have sw: "vm_swap ?vm = vm_swap vm" by simp
    show "page_wf {} (f # fs) ss ?vm q pd'" using w n unfolding page_wf_def sw by blast
  next
    fix q q' a a' assume "q \<notin> insert r R" "q' \<notin> insert r R" "get_pd q ?vm = Some a" "get_pd q' ?vm = Some a'" "pd_sfn a \<noteq> -1" "pd_sfn a = pd_sfn a'"
    then show "q = q'" unfolding get_pd_fields using vm_inv_butD(2)[OF inv, of q q' a a'] by blast
  next
    fix j assume j: "in_core j ?vm" "j \<notin> set (f # fs)" "cd_kern (frame_at j ?vm) = 0"
    then have m: "in_core j vm" "j \<notin> set fs" "j \<noteq> f" using core[of j] by simp_all
    have "cd_kern (frame_at j vm) = 0" using fr(2)[OF m(1,3)] j(3) by simp
    then obtain q a where q: "q \<notin> R" "cd_pd (frame_at j vm) = Some q" "get_pd q vm = Some a" "pd_pfn a = int j"
      using vm_inv_butD(3)[OF inv m(1,2)] by blast
    then have "q \<noteq> r" using r(2) f m(3) by auto
    with q show "\<exists>q pd. q \<notin> insert r R \<and> cd_pd (frame_at j ?vm) = Some q \<and> get_pd q ?vm = Some pd \<and> pd_pfn pd = int j"
      using fr(1)[OF m(1)] by (intro exI[of _ q] exI[of _ a]) simp
  qed
  ultimately show ?thesis by blast
qed

lemma free_page_place:
  assumes inv: "vm_inv_but R k fs ss vm" and r: "r \<notin> R" "get_pd r vm = Some pd" and f: "pd_sfn pd = int n"
  shows "\<exists>sw. free_page r vm = Some (vm\<lparr>vm_swap := sw\<rparr>) \<and> swapdisk sw = swapdisk (vm_swap vm) \<and>
    vm_inv_but (insert r R) k fs (n # ss) (vm\<lparr>vm_swap := sw\<rparr>)"
proof -
  have pw: "page_wf {} fs ss vm r pd" by (rule vm_inv_butD(1)[OF inv r])
  have p: "pd_pfn pd = -1" "n < length (pageList (vm_swap vm))" "n \<notin> set ss" using pw f by (auto simp: page_wf_def)
  obtain sw where sw: "swap_free_page (int n) (vm_swap vm) = Some sw" "swap_list sw (n # ss)"
      "length (pageList sw) = length (pageList (vm_swap vm))" "swapdisk sw = swapdisk (vm_swap vm)"
    using swap_release_spec[OF vm_inv_butD(5)[OF inv] p(2,3)] by blast
  let ?vm = "vm\<lparr>vm_swap := sw\<rparr>"
  have same: "in_core j ?vm = in_core j vm" "frame_at j ?vm = frame_at j vm" for j by (simp_all add: in_core_def frame_at_def)
  have "free_page r vm = Some ?vm" using r(2) f p(1) sw(1) by (simp add: free_page_def)
  moreover have "vm_inv_but (insert r R) k fs (n # ss) ?vm"
  proof (rule vm_inv_butI)
    show "tlb_ok k (vm_tlb ?vm)" "swap_list (vm_swap ?vm) (n # ss)" "cm_wf {} (vm_cm ?vm) fs"
      using vm_inv_butD(4,6)[OF inv] sw(2) by simp_all
  next
    fix q pd' assume q: "q \<notin> insert r R" "get_pd q ?vm = Some pd'"
    then have w: "page_wf {} fs ss vm q pd'" using vm_inv_butD(1)[OF inv, of q pd'] by simp
    have "nat (pd_sfn pd') \<noteq> n" if "pd_sfn pd' \<noteq> -1"
    proof
      assume "nat (pd_sfn pd') = n"
      with w that f have "pd_sfn pd' = pd_sfn pd" by (auto simp: page_wf_def)
      with vm_inv_butD(2)[OF inv, of q r pd' pd] q r that show False by simp
    qed
    then have n: "pd_sfn pd' \<noteq> -1 \<longrightarrow> nat (pd_sfn pd') \<notin> set (n # ss)" using w by (simp add: page_wf_def)
    have sz: "length (pageList (vm_swap ?vm)) = length (pageList (vm_swap vm))" "swapdisk (vm_swap ?vm) = swapdisk (vm_swap vm)"
      using sw(3,4) by simp_all
    show "page_wf {} fs (n # ss) ?vm q pd'" using w n unfolding page_wf_def sz same by blast
  next
    fix q q' a a' assume "q \<notin> insert r R" "q' \<notin> insert r R" "get_pd q ?vm = Some a" "get_pd q' ?vm = Some a'" "pd_sfn a \<noteq> -1" "pd_sfn a = pd_sfn a'"
    then show "q = q'" unfolding get_pd_fields using vm_inv_butD(2)[OF inv, of q q' a a'] by blast
  next
    fix j assume j: "in_core j ?vm" "j \<notin> set fs" "cd_kern (frame_at j ?vm) = 0"
    then obtain q a where q: "q \<notin> R" "cd_pd (frame_at j vm) = Some q" "get_pd q vm = Some a" "pd_pfn a = int j"
      using vm_inv_butD(3)[OF inv, of j] by (auto simp: same)
    moreover from q r(2) p(1) have "q \<noteq> r" by auto
    ultimately show "\<exists>q pd. q \<notin> insert r R \<and> cd_pd (frame_at j ?vm) = Some q \<and> get_pd q ?vm = Some pd \<and> pd_pfn pd = int j"
      by (auto simp: same)
  qed
  ultimately show ?thesis using sw(4) by blast
qed

lemma free_page_none:
  assumes inv: "vm_inv_but R k fs ss vm" and r: "r \<notin> R" "get_pd r vm = Some pd" and f: "pd_pfn pd = -1" "pd_sfn pd = -1"
  shows "free_page r vm = Some vm \<and> vm_inv_but (insert r R) k fs ss vm"
proof
  show "free_page r vm = Some vm" using r f by (simp add: free_page_def)
  have "\<exists>q pd. q \<notin> insert r R \<and> cd_pd (frame_at j vm) = Some q \<and> get_pd q vm = Some pd \<and> pd_pfn pd = int j"
    if "in_core j vm" "j \<notin> set fs" "cd_kern (frame_at j vm) = 0" for j
    using vm_inv_butD(3)[OF inv that] r f by fastforce
  then show "vm_inv_but (insert r R) k fs ss vm" using inv unfolding vm_inv_but_def by blast
qed

lemma free_page_spec:
  assumes inv: "vm_inv_but R k fs ss vm" and r: "r \<notin> R" "get_pd r vm = Some pd"
  shows "\<exists>vm' fs' ss'. free_page r vm = Some vm' \<and> vm_inv_but (insert r R) k fs' ss' vm' \<and> released {r} fs ss vm fs' ss' vm' \<and>
    page_tables vm' = page_tables vm"
proof -
  have pw: "page_wf {} fs ss vm r pd" by (rule vm_inv_butD(1)[OF inv r])
  consider f where "pd_pfn pd = int f" "pd_sfn pd = -1" | n where "pd_pfn pd = -1" "pd_sfn pd = int n" | "pd_pfn pd = -1" "pd_sfn pd = -1"
    using pw unfolding page_wf_def by (metis nonneg_int_cases)
  then show ?thesis
  proof cases
    case 1
    with free_page_frame[OF inv r 1(1)] r(2) show ?thesis
      by (fastforce simp: released_def same_store_def frames_of_pages_def places_of_pages_def)
  next
    case 2
    with free_page_place[OF inv r 2(2)] r(2) show ?thesis
      by (fastforce simp: released_def same_store_def frames_of_pages_def places_of_pages_def)
  next
    case 3
    with free_page_none[OF inv r 3] r(2) show ?thesis
      by (fastforce simp: released_def same_store_def frames_of_pages_def places_of_pages_def)
  qed
qed

lemma page_tables_get_pd: "page_tables vm' = page_tables vm \<Longrightarrow> get_pd r vm' = get_pd r vm"
  by (simp add: get_pd_def)

lemma released_trans:
  assumes "released A fs ss vm fs1 ss1 vm1" and "released B fs1 ss1 vm1 fs2 ss2 vm2" and "\<And>r. r \<in> B \<Longrightarrow> get_pd r vm1 = get_pd r vm"
  shows "released (A \<union> B) fs ss vm fs2 ss2 vm2"
proof -
  have "frames_of_pages B vm1 = frames_of_pages B vm" "places_of_pages B vm1 = places_of_pages B vm"
    using assms(3) by (auto simp: frames_of_pages_def places_of_pages_def)
  moreover have "frames_of_pages (A \<union> B) vm = frames_of_pages A vm \<union> frames_of_pages B vm"
    "places_of_pages (A \<union> B) vm = places_of_pages A vm \<union> places_of_pages B vm"
    by (auto simp: frames_of_pages_def places_of_pages_def)
  ultimately show ?thesis using assms(1,2) unfolding released_def same_store_def by (simp add: Un_assoc)
qed

lemma free_pages_spec:
  assumes "vm_inv_but R k fs ss vm" and "\<forall>i. j \<le> i \<and> i < j + n \<longrightarrow> Pdref pt i \<notin> R \<and> get_pd (Pdref pt i) vm \<noteq> None"
  shows "\<exists>vm' fs' ss'. free_pages n pt j vm = Some vm' \<and> vm_inv_but (R \<union> Pdref pt ` {j..<j + n}) k fs' ss' vm' \<and>
    released (Pdref pt ` {j..<j + n}) fs ss vm fs' ss' vm' \<and> page_tables vm' = page_tables vm"
  using assms
proof (induction n arbitrary: j R fs ss vm)
  case 0
  then show ?case by (auto simp: released_def same_store_def frames_of_pages_def places_of_pages_def)
next
  case (Suc n)
  have "Pdref pt j \<notin> R" "get_pd (Pdref pt j) vm \<noteq> None" using Suc.prems(2) by auto
  then obtain vm1 fs1 ss1 where s: "free_page (Pdref pt j) vm = Some vm1" "vm_inv_but (insert (Pdref pt j) R) k fs1 ss1 vm1"
      "released {Pdref pt j} fs ss vm fs1 ss1 vm1" "page_tables vm1 = page_tables vm"
    using free_page_spec[OF Suc.prems(1)] by blast
  have "\<forall>i. Suc j \<le> i \<and> i < Suc j + n \<longrightarrow> Pdref pt i \<notin> insert (Pdref pt j) R \<and> get_pd (Pdref pt i) vm1 \<noteq> None"
    using Suc.prems(2) page_tables_get_pd[OF s(4)] by auto
  from Suc.IH[OF s(2) this] obtain vm2 fs2 ss2 where t: "free_pages n pt (Suc j) vm1 = Some vm2"
      "vm_inv_but (insert (Pdref pt j) R \<union> Pdref pt ` {Suc j..<Suc j + n}) k fs2 ss2 vm2"
      "released (Pdref pt ` {Suc j..<Suc j + n}) fs1 ss1 vm1 fs2 ss2 vm2" "page_tables vm2 = page_tables vm1"
    by blast
  have ivl: "{j..<j + Suc n} = insert j {Suc j..<Suc j + n}" by auto
  have "released ({Pdref pt j} \<union> Pdref pt ` {Suc j..<Suc j + n}) fs ss vm fs2 ss2 vm2"
    by (rule released_trans[OF s(3) t(3)]) (rule page_tables_get_pd[OF s(4)])
  then show ?case using s t unfolding ivl by (simp, blast)
qed

text \<open>Once all its pages are given up, the table can go.\<close>

lemma vm_inv_but_destroy:
  assumes inv: "vm_inv_but R k fs ss vm" and R: "\<And>r. r \<in> R \<Longrightarrow> pd_table r = pt" and all: "\<And>r. pd_table r = pt \<Longrightarrow> get_pd r vm \<noteq> None \<Longrightarrow> r \<in> R"
  shows "vm_inv k {} fs ss (pt_destroy (Some pt) vm)"
proof -
  let ?vm = "pt_destroy (Some pt) vm"
  have f: "vm_tlb ?vm = vm_tlb vm" "vm_swap ?vm = vm_swap vm" "vm_cm ?vm = vm_cm vm" by (simp_all add: pt_destroy_def)
  have c: "in_core i ?vm = in_core i vm" "frame_at i ?vm = frame_at i vm" for i by (simp_all add: in_core_def frame_at_def f)
  have g: "get_pd r ?vm = (if pd_table r = pt then None else get_pd r vm)" for r by (simp add: get_pd_def pt_destroy_def)
  have old: "r \<notin> R" "get_pd r vm = Some pd" if "get_pd r ?vm = Some pd" for r pd using that R[of r] by (auto simp: g split: if_splits)
  have new: "get_pd r ?vm = Some pd" if "r \<notin> R" "get_pd r vm = Some pd" for r pd using that all[of r] by (auto simp: g)
  have "page_wf {} fs ss ?vm r pd" if "get_pd r ?vm = Some pd" for r pd
    using vm_inv_butD(1)[OF inv old[OF that]] unfolding page_wf_def f c .
  moreover have "r = r'" if "get_pd r ?vm = Some pd" "get_pd r' ?vm = Some pd'" "pd_sfn pd \<noteq> -1" "pd_sfn pd = pd_sfn pd'" for r r' pd pd'
    using vm_inv_butD(2)[OF inv old(1)[OF that(1)] old(1)[OF that(2)] old(2)[OF that(1)] old(2)[OF that(2)] that(3,4)] .
  moreover have "\<exists>r pd. cd_pd (frame_at i ?vm) = Some r \<and> get_pd r ?vm = Some pd \<and> pd_pfn pd = int i"
    if "in_core i ?vm" "i \<notin> set fs" "cd_kern (frame_at i ?vm) = 0" for i
    using vm_inv_butD(3)[OF inv that(1)[unfolded c] that(2) that(3)[unfolded c]] new unfolding c by blast
  ultimately show ?thesis using vm_inv_butD(4-6)[OF inv] by (intro vm_invI) (simp_all add: f)
qed

definition table_pages :: "nat \<Rightarrow> vmsys \<Rightarrow> pdref set" where
  "table_pages pt vm = {r. pd_table r = pt \<and> get_pd r vm \<noteq> None}"

lemma table_pages_image: "page_tables vm pt = Some pds \<Longrightarrow> table_pages pt vm = Pdref pt ` {0..<0 + length pds}"
proof (intro set_eqI)
  fix r assume "page_tables vm pt = Some pds"
  then show "r \<in> table_pages pt vm \<longleftrightarrow> r \<in> Pdref pt ` {0..<0 + length pds}"
    by (cases r) (auto simp: table_pages_def get_pd_def split: if_splits)
qed

lemma free_table_spec:
  assumes inv: "vm_inv k {} fs ss vm" and pt: "page_tables vm pt = Some pds"
  shows "\<exists>vm' fs' ss'. free_pages (length pds) pt 0 vm = Some vm' \<and> vm_inv k {} fs' ss' (pt_destroy (Some pt) vm') \<and>
    released (table_pages pt vm) fs ss vm fs' ss' (pt_destroy (Some pt) vm') \<and>
    page_tables (pt_destroy (Some pt) vm') = (page_tables vm)(pt := None)"
proof -
  have img: "table_pages pt vm = Pdref pt ` {0..<0 + length pds}" by (rule table_pages_image[OF pt])
  have b: "vm_inv_but {} k fs ss vm" using inv by (simp add: vm_inv_but_empty)
  have "\<forall>i. 0 \<le> i \<and> i < 0 + length pds \<longrightarrow> Pdref pt i \<notin> {} \<and> get_pd (Pdref pt i) vm \<noteq> None" by (simp add: get_pd_def pt)
  from free_pages_spec[OF b this] obtain vm1 fs1 ss1 where s: "free_pages (length pds) pt 0 vm = Some vm1"
      "vm_inv_but (table_pages pt vm) k fs1 ss1 vm1" "released (table_pages pt vm) fs ss vm fs1 ss1 vm1" "page_tables vm1 = page_tables vm"
    unfolding img by auto
  have "vm_inv k {} fs1 ss1 (pt_destroy (Some pt) vm1)"
    by (rule vm_inv_but_destroy[OF s(2)]) (simp_all add: table_pages_def page_tables_get_pd[OF s(4)])
  moreover have "released (table_pages pt vm) fs ss vm fs1 ss1 (pt_destroy (Some pt) vm1)"
    using s(3) by (simp add: released_def same_store_def pt_destroy_def)
  moreover have "page_tables (pt_destroy (Some pt) vm1) = (page_tables vm)(pt := None)" using s(4) by (simp add: pt_destroy_def)
  ultimately show ?thesis using s(1) by blast
qed

text \<open>The page tables of the active segments, and the pages in them.\<close>

definition seg_tables :: "segment list \<Rightarrow> nat list" where
  "seg_tables sgs = concat (map (\<lambda>s. if sg_active s \<noteq> 0 then (case sg_pt s of None \<Rightarrow> [] | Some pt \<Rightarrow> [pt]) else []) sgs)"

definition tables_pages :: "nat list \<Rightarrow> vmsys \<Rightarrow> pdref set" where
  "tables_pages pts vm = {r. pd_table r \<in> set pts \<and> get_pd r vm \<noteq> None}"

lemma seg_tables_simps [simp]:
  "seg_tables [] = []"
  "seg_tables (s # sgs) = (if sg_active s \<noteq> 0 then (case sg_pt s of None \<Rightarrow> [] | Some pt \<Rightarrow> [pt]) else []) @ seg_tables sgs"
  by (simp_all add: seg_tables_def)

lemma free_segments_spec:
  assumes "vm_inv k {} fs ss vm" and "distinct (seg_tables sgs)" and "\<forall>pt \<in> set (seg_tables sgs). page_tables vm pt \<noteq> None"
  shows "\<exists>vm' fs' ss'. free_segments sgs vm = Some vm' \<and> vm_inv k {} fs' ss' vm' \<and>
    released (tables_pages (seg_tables sgs) vm) fs ss vm fs' ss' vm' \<and>
    page_tables vm' = (\<lambda>p. if p \<in> set (seg_tables sgs) then None else page_tables vm p)"
  using assms
proof (induction sgs arbitrary: fs ss vm)
  case Nil
  then show ?case by (auto simp: released_def same_store_def frames_of_pages_def places_of_pages_def tables_pages_def)
next
  case (Cons s sgs)
  show ?case
  proof (cases "sg_active s \<noteq> 0 \<and> sg_pt s \<noteq> None")
    case False
    then have t: "seg_tables (s # sgs) = seg_tables sgs" and f: "free_segments (s # sgs) vm = free_segments sgs vm" by auto
    show ?thesis unfolding t f by (rule Cons.IH[OF Cons.prems(1) Cons.prems(2,3)[unfolded t]])
  next
    case True
    then obtain pt where a: "sg_active s \<noteq> 0" "sg_pt s = Some pt" by blast
    then have t: "seg_tables (s # sgs) = pt # seg_tables sgs" by simp
    obtain pds where pds: "page_tables vm pt = Some pds" using Cons.prems(3) unfolding t by auto
    obtain vm1 fs1 ss1 where s1: "free_pages (length pds) pt 0 vm = Some vm1" "vm_inv k {} fs1 ss1 (pt_destroy (Some pt) vm1)"
        "released (table_pages pt vm) fs ss vm fs1 ss1 (pt_destroy (Some pt) vm1)"
        "page_tables (pt_destroy (Some pt) vm1) = (page_tables vm)(pt := None)"
      using free_table_spec[OF Cons.prems(1) pds] by blast
    let ?vm1 = "pt_destroy (Some pt) vm1"
    have d: "distinct (seg_tables sgs)" "pt \<notin> set (seg_tables sgs)" using Cons.prems(2) unfolding t by simp_all
    have "\<forall>p \<in> set (seg_tables sgs). page_tables ?vm1 p \<noteq> None" using Cons.prems(3) d(2) unfolding t s1(4) by auto
    from Cons.IH[OF s1(2) d(1) this] obtain vm2 fs2 ss2 where s2: "free_segments sgs ?vm1 = Some vm2" "vm_inv k {} fs2 ss2 vm2"
        "released (tables_pages (seg_tables sgs) ?vm1) fs1 ss1 ?vm1 fs2 ss2 vm2"
        "page_tables vm2 = (\<lambda>p. if p \<in> set (seg_tables sgs) then None else page_tables ?vm1 p)"
      by blast
    have same: "get_pd r ?vm1 = get_pd r vm" if "pd_table r \<in> set (seg_tables sgs)" for r
      using that s1(4) d(2) by (auto simp: get_pd_def)
    have tp: "tables_pages (seg_tables sgs) ?vm1 = tables_pages (seg_tables sgs) vm"
      unfolding tables_pages_def using same by (intro Collect_cong conj_cong) simp_all
    have "released (table_pages pt vm \<union> tables_pages (seg_tables sgs) vm) fs ss vm fs2 ss2 vm2"
      by (rule released_trans[OF s1(3) s2(3)[unfolded tp]]) (use same in \<open>simp add: tables_pages_def\<close>)
    moreover have "table_pages pt vm \<union> tables_pages (seg_tables sgs) vm = tables_pages (pt # seg_tables sgs) vm"
      unfolding table_pages_def tables_pages_def by auto
    ultimately have rel: "released (tables_pages (pt # seg_tables sgs) vm) fs ss vm fs2 ss2 vm2" by simp
    have tabs: "page_tables vm2 = (\<lambda>p. if p \<in> set (pt # seg_tables sgs) then None else page_tables vm p)"
      unfolding s2(4) s1(4) by (rule ext) simp
    have "free_segments (s # sgs) vm = Some vm2" using a pds s1(1) s2(1) by simp
    with s2(2) rel tabs show ?thesis unfolding t by blast
  qed
qed

section \<open>Regions and the check of addresses\<close>

lemma PAGE_FRAME_bounds: "PAGE_FRAME_of a \<le> a" "a < PAGE_FRAME_of a + 4096" "PAGE_FRAME_of a mod 4096 = 0"
proof -
  show "PAGE_FRAME_of a mod 4096 = 0" unfolding PAGE_FRAME_of_def by (simp add: minus_mod_eq_mult_div)
  show "PAGE_FRAME_of a \<le> a" "a < PAGE_FRAME_of a + 4096"
    unfolding PAGE_FRAME_of_def using pos_mod_bound[of 4096 a] pos_mod_sign[of 4096 a] by linarith+
qed

lemma PAGE_FRAME_mono: "a \<le> b \<Longrightarrow> PAGE_FRAME_of a \<le> PAGE_FRAME_of b"
  unfolding PAGE_FRAME_of_def minus_mod_eq_mult_div by (simp add: zdiv_mono1)

definition region_pages :: "int \<Rightarrow> int \<Rightarrow> int" where
  "region_pages vaddr sz = (vaddr mod 4096 + sz + 4095) div 4096"

lemma region_pages_cover:
  assumes "0 \<le> vaddr" and "vaddr \<le> a" and "a < vaddr + sz"
  shows "PAGE_FRAME_of vaddr \<le> PAGE_FRAME_of a" and "PAGE_FRAME_of a + 4096 \<le> PAGE_FRAME_of vaddr + 4096 * region_pages vaddr sz"
proof -
  show "PAGE_FRAME_of vaddr \<le> PAGE_FRAME_of a" using assms by (simp add: PAGE_FRAME_mono)
  define q where "q = region_pages vaddr sz"
  have "4096 * q = (vaddr mod 4096 + sz + 4095) - (vaddr mod 4096 + sz + 4095) mod 4096"
    unfolding q_def region_pages_def by (simp add: minus_mod_eq_mult_div)
  with pos_mod_bound[of 4096 "vaddr mod 4096 + sz + 4095"] assms have "a < vaddr - vaddr mod 4096 + 4096 * q" by linarith
  moreover have "PAGE_FRAME_of a = 4096 * (a div 4096)" "vaddr - vaddr mod 4096 = 4096 * (vaddr div 4096)"
    by (simp_all add: PAGE_FRAME_of_def minus_mod_eq_mult_div)
  ultimately have "a < 4096 * (vaddr div 4096 + q)" by simp
  moreover have "4096 * (a div 4096) \<le> a" using mult_div_mod_eq[of 4096 a] pos_mod_sign[of 4096 a] by linarith
  ultimately have "4096 * (a div 4096) < 4096 * (vaddr div 4096 + q)" by (rule order.strict_trans1[rotated])
  then have "a div 4096 < vaddr div 4096 + q" by simp
  then show "PAGE_FRAME_of a + 4096 \<le> PAGE_FRAME_of vaddr + 4096 * region_pages vaddr sz"
    by (simp add: PAGE_FRAME_of_def minus_mod_eq_mult_div q_def[symmetric])
qed

lemma region_pages_bounds:
  assumes "0 \<le> vaddr" and "0 < sz" and "vaddr + sz \<le> USERTOP"
  shows "0 < region_pages vaddr sz" and "4096 * region_pages vaddr sz \<le> 2147487743"
proof -
  have m: "0 \<le> vaddr mod 4096" "vaddr mod 4096 \<le> vaddr" "vaddr mod 4096 < 4096" using assms(1) by (simp_all add: zmod_le_nonneg_dividend)
  show "0 < region_pages vaddr sz" unfolding region_pages_def using m assms(2) by (simp add: pos_imp_zdiv_pos_iff)
  have "4096 * region_pages vaddr sz \<le> vaddr mod 4096 + sz + 4095" unfolding region_pages_def
    using mult_div_mod_eq[of 4096 "vaddr mod 4096 + sz + 4095"] pos_mod_sign[of 4096 "vaddr mod 4096 + sz + 4095"] by linarith
  then show "4096 * region_pages vaddr sz \<le> 2147487743" using m assms(3) by (simp add: USERTOP_def)
qed

text \<open>The segment \<open>as_define_region\<close> fills in.\<close>

definition region_segment :: "nat \<Rightarrow> int \<Rightarrow> int \<Rightarrow> int \<Rightarrow> int \<Rightarrow> int \<Rightarrow> segment" where
  "region_segment p vaddr sz flags offset filesz = \<lparr>sg_active = 1, sg_vbase = PAGE_FRAME_of vaddr, sg_size = region_pages vaddr sz,
     sg_writeable = (and flags 2 \<noteq> 0), sg_pt = Some p, p_offset = offset, p_filesz = filesz, p_memsz = sz, p_flags = and flags 1\<rparr>"

lemma segment_filled:
  "s\<lparr>sg_active := a, sg_vbase := b, sg_size := c, sg_writeable := w, p_offset := o', p_memsz := m, p_filesz := f, p_flags := g, sg_pt := p\<rparr> =
   \<lparr>sg_active = a, sg_vbase = b, sg_size = c, sg_writeable = w, sg_pt = p, p_offset = o', p_filesz = f, p_memsz = m, p_flags = g\<rparr>"
  by (cases s) simp

lemma fresh_page_filled:
  "fresh_page (s\<lparr>sg_active := a, sg_vbase := b, sg_size := c, sg_writeable := w, p_offset := o', p_memsz := m, p_filesz := f, p_flags := g\<rparr>) =
   fresh_page \<lparr>sg_active = a, sg_vbase = b, sg_size = c, sg_writeable = w, sg_pt = p, p_offset = o', p_filesz = f, p_memsz = m, p_flags = g\<rparr>"
  by (simp add: fresh_page_def fun_eq_iff)

lemma as_define_region_eq:
  assumes "0 \<le> vaddr" and "0 < sz" and "vaddr + sz \<le> USERTOP" and "length (segments as) = 3"
    and "num_segments as = int n" and "n < 2" and "sg_active (segments as ! n) = 0"
  shows "as_define_region (Some p) True vaddr sz flags offset filesz as vm =
    (let s = region_segment p vaddr sz flags offset filesz in
     Some (OK, as\<lparr>segments := (segments as)[n := s], num_segments := int n + 1\<rparr>,
       vm\<lparr>page_tables := (page_tables vm)(p := Some (map (fresh_page s) [0..<nat (sg_size s)]))\<rparr>))"
proof -
  have m: "0 \<le> vaddr mod 4096" "vaddr mod 4096 \<le> vaddr" using assms(1) by (simp_all add: zmod_le_nonneg_dividend)
  have "u32 (sz + vaddr mod 4096) = sz + vaddr mod 4096" using m assms(2,3) by (simp add: USERTOP_def)
  moreover have "u32 (sz + vaddr mod 4096 + 4096 - 1) = vaddr mod 4096 + sz + 4095" using m assms(2,3) by (simp add: USERTOP_def)
  moreover have "PAGE_FRAME_of (vaddr mod 4096 + sz + 4095) div 4096 = region_pages vaddr sz"
    by (simp add: PAGE_FRAME_of_def region_pages_def minus_mod_eq_mult_div)
  ultimately have n: "PAGE_FRAME_of (u32 (4095 + u32 (sz + vaddr mod 4096))) div 4096 = region_pages vaddr sz" by (simp add: add_ac)
  show ?thesis using assms(4-7)
    by (simp add: as_define_region_def n get_seg_def put_seg_def pt_create_def Let_def region_segment_def segment_filled fresh_page_filled[where p = "Some p"])
qed

lemma find_segment_update:
  assumes "find_segment sgs v = None" and "n < length sgs" and "sg_active s = 1" and "sg_vbase s \<le> v" and "v < u32 (sg_vbase s + sg_size s * 4096)"
  shows "find_segment (sgs[n := s]) v = Some s"
  using assms
proof (induction sgs arbitrary: n)
  case (Cons x sgs)
  then show ?case by (cases n) (auto split: if_splits)
qed simp

lemma valid_addrI:
  assumes "s \<in> set (segments as)" and "sg_active s \<noteq> 0" and "sg_vbase s \<le> v" and "v < u32 (sg_vbase s + 4 * u32 (4096 * sg_size s))" and "v < USERTOP"
  shows "as_valid_read_addr as v \<and> as_valid_write_addr as v"
  using assms unfolding as_valid_read_addr_def as_valid_write_addr_def list_ex_iff by blast

lemma region_fault:
  assumes a: "0 \<le> vaddr" "vaddr \<le> a" "a < vaddr + sz" "vaddr + sz \<le> USERTOP" and w: "PAGE_FRAME_of vaddr + 16384 * region_pages vaddr sz < 4294967296"
    and n: "n < length (segments as)" and free: "as_get_segment as (PAGE_FRAME_of a) = None" and t: "t = 0 \<or> t = 1"
    and s: "s = region_segment p vaddr sz flags offset filesz" and as': "segments as' = (segments as)[n := s]"
  shows "as_get_segment as' (PAGE_FRAME_of a) = Some s"
    and "vm_fault vread junk t a (Some as') vm = map_option (Pair (Returned OK)) (pt_page_in vread junk (PAGE_FRAME_of a) s vm)"
proof -
  let ?v = "PAGE_FRAME_of a"
  have "0 < sz" using a by simp
  note q = region_pages_bounds[OF a(1) this a(4)]
  have base: "0 \<le> PAGE_FRAME_of vaddr" using PAGE_FRAME_mono[OF a(1)] by (simp add: PAGE_FRAME_of_def)
  have sg: "sg_active s = 1" "sg_vbase s = PAGE_FRAME_of vaddr" "sg_size s = region_pages vaddr sz" by (simp_all add: s region_segment_def)
  have v: "sg_vbase s \<le> ?v" "?v < sg_vbase s + sg_size s * 4096" using region_pages_cover[OF a(1-3)] by (simp_all add: sg)
  have u: "u32 (sg_vbase s + sg_size s * 4096) = sg_vbase s + sg_size s * 4096" "u32 (4096 * sg_size s) = 4096 * sg_size s"
      "u32 (sg_vbase s + 4 * (4096 * sg_size s)) = sg_vbase s + 16384 * sg_size s"
    using q base w by (simp_all add: sg)
  show g: "as_get_segment as' ?v = Some s"
    using find_segment_update[OF free[unfolded as_get_segment_def] n sg(1) v(1)] v(2) u(1) by (simp add: as_get_segment_def as')
  have "s \<in> set (segments as')" using n by (simp add: as' set_update_memI)
  moreover have "?v < u32 (sg_vbase s + 4 * u32 (4096 * sg_size s))" using v(2) q(1) unfolding u by (simp add: sg)
  moreover have "?v < USERTOP" using PAGE_FRAME_bounds(1)[of a] a by simp
  ultimately have "as_valid_read_addr as' ?v" "as_valid_write_addr as' ?v"
    using valid_addrI[of s as' ?v] sg(1) v(1) by simp_all
  then show "vm_fault vread junk t a (Some as') vm = map_option (Pair (Returned OK)) (pt_page_in vread junk ?v s vm)"
    using t g by (cases "pt_page_in vread junk ?v s vm") (auto simp: vm_fault_def)
qed

lemma region_page_fresh:
  assumes "0 \<le> vaddr" "vaddr \<le> a" "a < vaddr + sz" "vaddr + sz \<le> USERTOP" and s: "s = region_segment p vaddr sz flags offset filesz"
    and pt: "page_tables vm p = Some (map (fresh_page s) [0..<nat (sg_size s)])"
  shows "\<exists>pd. get_pd (page_of s p (PAGE_FRAME_of a)) vm = Some pd \<and> pd_vaddr pd = PAGE_FRAME_of a \<and> pd_pfn pd = -1 \<and> pd_sfn pd = -1"
proof -
  let ?v = "PAGE_FRAME_of a" and ?b = "PAGE_FRAME_of vaddr"
  have c: "?b \<le> ?v" "?v + 4096 \<le> ?b + 4096 * region_pages vaddr sz" using region_pages_cover[OF assms(1-3)] by simp_all
  have bt: "0 \<le> ?b" "?v < USERTOP" using PAGE_FRAME_mono[OF assms(1)] PAGE_FRAME_bounds(1)[of a] assms by (simp_all add: PAGE_FRAME_of_def)
  obtain x y where xy: "?v = 4096 * x" "?b = 4096 * y" by (metis PAGE_FRAME_of_def minus_mod_eq_mult_div)
  have u: "u32 (?v - ?b) = ?v - ?b" "u32 ?v = ?v" using c(1) bt by (simp_all add: USERTOP_def)
  have "?v - ?b = 4096 * (x - y)" using xy by simp
  then have j: "u32 (?v - ?b) div 4096 = x - y" unfolding u(1) by simp
  have "y \<le> x" "x - y < region_pages vaddr sz" using c unfolding xy by simp_all
  then have "get_pd (page_of s p ?v) vm = Some (fresh_page s (nat (x - y)))"
    using pt by (simp add: get_pd_def page_of_def s region_segment_def j[unfolded s])
  moreover have "?b + 4096 * int (nat (x - y)) = ?v" using \<open>y \<le> x\<close> unfolding xy by simp
  then have "pd_vaddr (fresh_page s (nat (x - y))) = ?v" using u(2) by (simp add: fresh_page_def s region_segment_def)
  ultimately show ?thesis by (simp add: fresh_page_def)
qed

section \<open>Properties\<close>

definition demo_as :: addrspace where
  "demo_as = \<lparr>segments = [demo_segment, clear_segment, clear_segment], as_file = Some 0, num_segments = 1\<rparr>"

text \<open>
  C31. Destroying an address space gives back exactly what its pages hold: every frame and every swap place of a page
  of its segments becomes free, nothing else does, its page tables are gone, the other page tables, the
  contents of memory and of the swap file are untouched, and the invariant of the paging system holds
  again.
\<close>

theorem as_free_segments_correct:
  assumes "vm_inv k {} fs ss vm" and "distinct (seg_tables (segments as))" and "\<forall>pt \<in> set (seg_tables (segments as)). page_tables vm pt \<noteq> None"
  shows "\<exists>vm' fs' ss'. as_free_segments as vm = Some vm' \<and> vm_inv k {} fs' ss' vm' \<and> same_store vm vm' \<and>
    set fs' = set fs \<union> frames_of_pages (tables_pages (seg_tables (segments as)) vm) vm \<and>
    set ss' = set ss \<union> places_of_pages (tables_pages (seg_tables (segments as)) vm) vm \<and>
    page_tables vm' = (\<lambda>p. if p \<in> set (seg_tables (segments as)) then None else page_tables vm p)"
  using free_segments_spec[OF assms] unfolding as_free_segments_def released_def by blast

theorem as_free_segments_correct_witness:
  "\<exists>vm' fs' ss'. as_free_segments demo_as demo_vm = Some vm' \<and> vm_inv 1 {} fs' ss' vm' \<and> 1 \<in> set fs' \<and> 0 \<in> set ss' \<and> page_tables vm' 0 = None"
proof -
  have t: "seg_tables (segments demo_as) = [0]" by (simp add: demo_as_def demo_segment_def clear_segment_def)
  have "page_tables demo_vm 0 \<noteq> None" by (simp add: demo_vm_def)
  then obtain vm' fs' ss' where r: "as_free_segments demo_as demo_vm = Some vm'" "vm_inv 1 {} fs' ss' vm'"
      "set fs' = set [] \<union> frames_of_pages (tables_pages [0] demo_vm) demo_vm" "set ss' = set [1, 2] \<union> places_of_pages (tables_pages [0] demo_vm) demo_vm"
      "page_tables vm' = (\<lambda>p. if p \<in> set [0] then None else page_tables demo_vm p)"
    using as_free_segments_correct[OF demo_inv, of demo_as] unfolding t by auto
  have "1 \<in> frames_of_pages (tables_pages [0] demo_vm) demo_vm"
    unfolding frames_of_pages_def by (simp, rule bexI[of _ "Pdref 0 0"]) (simp_all add: tables_pages_def demo_get_pd demo_pd_def)
  moreover have "0 \<in> places_of_pages (tables_pages [0] demo_vm) demo_vm"
    unfolding places_of_pages_def by (simp, rule bexI[of _ "Pdref 0 1"]) (simp_all add: tables_pages_def demo_get_pd demo_pd_def)
  ultimately show ?thesis using r by auto
qed

text \<open>
  C32. A region that is defined can be used: after \<^verbatim>\<open>as_define_region\<close> a fault at any address of the region, on any
  page the region only touches, finds the new segment and a page that is not loaded yet for exactly that address,
  and \<^verbatim>\<open>vm_fault\<close> pages it in. Four times the length of the region must not reach the end of the 32-bit
  addresses, which the check of the address needs.
\<close>

theorem region_serves_faults:
  assumes "0 \<le> vaddr" and "vaddr \<le> a" and "a < vaddr + sz" and "vaddr + sz \<le> USERTOP"
    and "PAGE_FRAME_of vaddr + 16384 * region_pages vaddr sz < 4294967296"
    and "length (segments as) = 3" and "num_segments as = int n" and "n < 2" and "sg_active (segments as ! n) = 0"
    and "as_get_segment as (PAGE_FRAME_of a) = None" and "t = 0 \<or> t = 1"
  shows "\<exists>as' vm' s pd. as_define_region (Some p) True vaddr sz flags offset filesz as vm = Some (OK, as', vm') \<and>
    as_get_segment as' (PAGE_FRAME_of a) = Some s \<and> sg_pt s = Some p \<and> get_pd (page_of s p (PAGE_FRAME_of a)) vm' = Some pd \<and>
    pd_vaddr pd = PAGE_FRAME_of a \<and> pd_pfn pd = -1 \<and> pd_sfn pd = -1 \<and>
    vm_fault vread junk t a (Some as') vm' = map_option (Pair (Returned OK)) (pt_page_in vread junk (PAGE_FRAME_of a) s vm')"
proof -
  define s where "s = region_segment p vaddr sz flags offset filesz"
  define as' where "as' = as\<lparr>segments := (segments as)[n := s], num_segments := int n + 1\<rparr>"
  define vm' where "vm' = vm\<lparr>page_tables := (page_tables vm)(p := Some (map (fresh_page s) [0..<nat (sg_size s)]))\<rparr>"
  have sz: "0 < sz" using assms by simp
  have n: "n < length (segments as)" using assms by simp
  have "as_define_region (Some p) True vaddr sz flags offset filesz as vm = Some (OK, as', vm')"
    using as_define_region_eq[OF assms(1) sz assms(4,6-9)] by (simp add: s_def as'_def vm'_def Let_def)
  moreover obtain pd where "get_pd (page_of s p (PAGE_FRAME_of a)) vm' = Some pd" "pd_vaddr pd = PAGE_FRAME_of a" "pd_pfn pd = -1" "pd_sfn pd = -1"
    using region_page_fresh[OF assms(1-4) s_def, of vm'] by (auto simp: vm'_def)
  moreover have "sg_pt s = Some p" by (simp add: s_def region_segment_def)
  moreover have "segments as' = (segments as)[n := s]" by (simp add: as'_def)
  note region_fault(1)[OF assms(1-5) n assms(10,11) s_def this] region_fault(2)[OF assms(1-5) n assms(10,11) s_def this, where vread = vread and junk = junk and vm = vm']
  ultimately show ?thesis by blast
qed

theorem region_serves_faults_witness:
  "\<exists>as' vm' s. as_define_region (Some 7) True 4194400 5000 6 0 100 demo_as demo_vm = Some (OK, as', vm') \<and>
    as_get_segment as' 4198400 = Some s \<and> sg_pt s = Some 7 \<and>
    vm_fault empty_read 0 0 4199000 (Some as') vm' = map_option (Pair (Returned OK)) (pt_page_in empty_read 0 4198400 s vm')"
proof -
  have v: "PAGE_FRAME_of 4199000 = 4198400" by (simp add: PAGE_FRAME_of_def)
  have "as_get_segment demo_as (PAGE_FRAME_of 4199000) = None"
    by (simp add: v as_get_segment_def demo_as_def demo_segment_def clear_segment_def)
  moreover have "segments demo_as ! 1 = clear_segment" "length (segments demo_as) = 3" "num_segments demo_as = int 1" by (simp_all add: demo_as_def)
  moreover have "region_pages 4194400 5000 = 2" "PAGE_FRAME_of 4194400 = 4194304" by (simp_all add: region_pages_def PAGE_FRAME_of_def)
  ultimately obtain as' vm' s where "as_define_region (Some 7) True 4194400 5000 6 0 100 demo_as demo_vm = Some (OK, as', vm')"
      "as_get_segment as' (PAGE_FRAME_of 4199000) = Some s" "sg_pt s = Some 7"
      "vm_fault empty_read 0 0 4199000 (Some as') vm' = map_option (Pair (Returned OK)) (pt_page_in empty_read 0 (PAGE_FRAME_of 4199000) s vm')"
    using region_serves_faults[where vaddr = 4194400 and a = 4199000 and sz = 5000 and as = demo_as and n = 1 and t = 0 and p = 7
        and flags = 6 and offset = 0 and filesz = 100 and vm = demo_vm and vread = empty_read and junk = 0]
    by (auto simp: USERTOP_def clear_segment_def)
  then show ?thesis unfolding v by blast
qed

text \<open>
  C33. The check of fault addresses accepts too much: it compares pointers to words, so that an address up to four
  times the length of a segment above its base passes. If no segment holds it, \<^verbatim>\<open>as_get_segment\<close> returns
  NULL and the assertion in \<^verbatim>\<open>vm_fault\<close> stops the kernel, where an access outside the segments should only
  end the process.
\<close>

theorem fault_check_overreach:
  assumes "s \<in> set (segments as)" and "sg_active s \<noteq> 0" and "0 \<le> sg_vbase s" and "0 \<le> sg_size s"
    and "sg_vbase s \<le> PAGE_FRAME_of a" and "PAGE_FRAME_of a < sg_vbase s + 4 * (4096 * sg_size s)"
    and "sg_vbase s + 4 * (4096 * sg_size s) < 4294967296" and "PAGE_FRAME_of a < USERTOP"
    and "as_get_segment as (PAGE_FRAME_of a) = None" and "t = 0 \<or> t = 1"
  shows "vm_fault vread junk t a (Some as) vm = None"
proof -
  have "u32 (4096 * sg_size s) = 4096 * sg_size s" using assms(3,4,7) by simp
  then have "PAGE_FRAME_of a < u32 (sg_vbase s + 4 * u32 (4096 * sg_size s))" using assms(3,4,6,7) by simp
  then have "as_valid_read_addr as (PAGE_FRAME_of a)" "as_valid_write_addr as (PAGE_FRAME_of a)"
    using valid_addrI[OF assms(1,2,5) _ assms(8)] by simp_all
  then show ?thesis using assms(9,10) by (auto simp: vm_fault_def)
qed

theorem fault_check_overreach_witness: "vm_fault empty_read 0 0 20480 (Some demo_as) demo_vm = None"
  by (rule fault_check_overreach[where s = demo_segment])
    (simp_all add: demo_as_def demo_segment_def clear_segment_def PAGE_FRAME_of_def USERTOP_def as_get_segment_def)

end
