(* ===== verification/Kernel_Heap.thy ===== *)
theory Kernel_Heap
  imports Vm_Paging
begin

text \<open>
  The kernel heap, \<^verbatim>\<open>kern/lib/kheap.c\<close>, on top of the page allocator, and the memory handed out before there
  is one, \<^verbatim>\<open>kern/arch/mips/mips/ram.c\<close>.

  A pointer to a \<^verbatim>\<open>struct pageref\<close> is its index in \<open>pagerefs\<close>. \<open>hmem\<close> holds the words in the pages of the
  heap, where the free blocks are linked through their first word; 0 is \<^verbatim>\<open>NULL\<close>. The walks along the lists
  of pages are partial functions: on a list with a cycle they would not return.
\<close>

section \<open>Model of the memory before the page allocator\<close>

record ramsys =
  firstpaddr :: int
  lastpaddr :: int
  first_vm_addr :: int

definition ram_bootstrap :: "int \<Rightarrow> int \<Rightarrow> ramsys \<Rightarrow> ramsys" where
  "ram_bootstrap mips_ramsize firstfree r =
     (let ramsize = (if mips_ramsize > 508 * 1024 * 1024 then 508 * 1024 * 1024 else mips_ramsize)
      in r\<lparr>lastpaddr := ramsize, firstpaddr := u32 (firstfree - 2147483648)\<rparr>)"

definition ram_stealmem :: "int \<Rightarrow> ramsys \<Rightarrow> int \<times> ramsys" where
  "ram_stealmem npages r =
     (let sz = u32 (npages * 4096) in
      if u32 (firstpaddr r + sz) > lastpaddr r then (0, r)
      else (firstpaddr r, r\<lparr>firstpaddr := u32 (firstpaddr r + sz)\<rparr>))"

definition ram_getsize :: "ramsys \<Rightarrow> (int \<times> int) \<times> ramsys" where
  "ram_getsize r = ((firstpaddr r, lastpaddr r),
     r\<lparr>first_vm_addr := s32 (firstpaddr r + 2147483648), firstpaddr := 0, lastpaddr := 0\<rparr>)"

definition is_vm_setup :: "ramsys \<Rightarrow> bool" where
  "is_vm_setup r \<longleftrightarrow> lastpaddr r = 0"

definition was_vm_alloced :: "int \<Rightarrow> ramsys \<Rightarrow> bool" where
  "was_vm_alloced ptr r \<longleftrightarrow> s32 ptr \<ge> first_vm_addr r"

section \<open>Model of the heap\<close>

definition sizes :: "int list" where
  "sizes = [16, 32, 64, 128, 256, 512, 1024, 2048]"

record pageref =
  next_samesize :: "nat option"
  next_all :: "nat option"
  pageaddr_and_blocktype :: int
  freelist_offset :: int
  nfree :: int

definition PR_PAGEADDR :: "pageref \<Rightarrow> int" where
  "PR_PAGEADDR pr = pageaddr_and_blocktype pr - pageaddr_and_blocktype pr mod 4096"

definition PR_BLOCKTYPE :: "pageref \<Rightarrow> int" where
  "PR_BLOCKTYPE pr = pageaddr_and_blocktype pr mod 4096"

definition MKPAB :: "int \<Rightarrow> int \<Rightarrow> int" where
  "MKPAB pa blk = (pa - pa mod 4096) + blk mod 4096"

record kheap =
  pagerefs :: "pageref list"
  pagerefs_inuse :: "32 word list"
  sizebases :: "nat option list"
  allbase :: "nat option"
  hmem :: "int \<Rightarrow> int"
  hvm :: vmsys
  hram :: ramsys

definition get_pr :: "nat \<Rightarrow> kheap \<Rightarrow> pageref option" where
  "get_pr i h = load (Some (pagerefs h)) (int i)"

definition upd_pr :: "nat \<Rightarrow> (pageref \<Rightarrow> pageref) \<Rightarrow> kheap \<Rightarrow> kheap option" where
  "upd_pr i f h = do { pr \<leftarrow> get_pr i h; Some (h\<lparr>pagerefs := (pagerefs h)[i := f pr]\<rparr>) }"

text \<open>The loops of \<open>allocpageref\<close>: the first clear bit of a word, and the first word that has one.\<close>

function inuse_bit :: "32 word \<Rightarrow> nat \<Rightarrow> nat option" where
  "inuse_bit w j = (if j < 32 then if \<not> bit w j then Some j else inuse_bit w (Suc j) else None)"
  by pat_completeness auto
termination by (relation "measure (\<lambda>(w, j). 32 - j)") auto

declare inuse_bit.simps [simp del]

fun inuse_find :: "32 word list \<Rightarrow> nat \<Rightarrow> (nat \<times> nat) option option" where
  "inuse_find [] i = Some None"
| "inuse_find (w # ws) i =
     (if w = -1 then inuse_find ws (Suc i) else do { j \<leftarrow> inuse_bit w 0; Some (Some (i, j)) })"

definition allocpageref :: "kheap \<Rightarrow> (nat option \<times> kheap) option" where
  "allocpageref h = do {
     r \<leftarrow> inuse_find (pagerefs_inuse h) 0;
     case r of None \<Rightarrow> Some (None, h)
     | Some (i, j) \<Rightarrow> Some (Some (i * 32 + j), h\<lparr>pagerefs_inuse := (pagerefs_inuse h)[i := set_bit j (pagerefs_inuse h ! i)]\<rparr>)
   }"

definition freepageref :: "nat \<Rightarrow> kheap \<Rightarrow> kheap option" where
  "freepageref j h = do {
     kassert (j < 256);
     w \<leftarrow> load (Some (pagerefs_inuse h)) (int (j div 32));
     kassert (bit w (j mod 32));
     Some (h\<lparr>pagerefs_inuse := (pagerefs_inuse h)[j div 32 := unset_bit (j mod 32) w]\<rparr>)
   }"

text \<open>
  \<open>remove_lists\<close>: the result of the walks is the new value of the pointer they start from; on the way back
  each link is stored again, all but the one to the removed page with its old value.
\<close>

partial_function (option) unlink :: "(pageref \<Rightarrow> nat option) \<Rightarrow> (nat option \<Rightarrow> pageref \<Rightarrow> pageref) \<Rightarrow> nat \<Rightarrow> nat option \<Rightarrow> pageref list \<Rightarrow> (nat option \<times> pageref list) option" where
  "unlink nx set_nx target g prs = (case g of None \<Rightarrow> Some (None, prs)
     | Some i \<Rightarrow> do {
         pr \<leftarrow> load (Some prs) (int i);
         if i = target then Some (nx pr, prs)
         else do {
           (g', prs') \<leftarrow> unlink nx set_nx target (nx pr) prs;
           Some (Some i, prs'[i := set_nx g' (prs' ! i)])
         }
       })"

definition remove_lists :: "nat \<Rightarrow> int \<Rightarrow> kheap \<Rightarrow> kheap option" where
  "remove_lists p blktype h = do {
     kassert (0 \<le> blktype \<and> blktype < 8);
     base \<leftarrow> load (Some (sizebases h)) blktype;
     (g, prs) \<leftarrow> unlink next_samesize (\<lambda>g pr. pr\<lparr>next_samesize := g\<rparr>) p base (pagerefs h);
     (a, prs') \<leftarrow> unlink next_all (\<lambda>g pr. pr\<lparr>next_all := g\<rparr>) p (allbase h) prs;
     Some (h\<lparr>pagerefs := prs', sizebases := (sizebases h)[nat blktype := g], allbase := a\<rparr>)
   }"

fun blocktype_from :: "int \<Rightarrow> int list \<Rightarrow> nat \<Rightarrow> nat option" where
  "blocktype_from sz [] i = None"
| "blocktype_from sz (s # ss) i = (if sz \<le> s then Some i else blocktype_from sz ss (Suc i))"

definition blocktype :: "int \<Rightarrow> nat option" where
  "blocktype sz = blocktype_from sz sizes 0"

partial_function (option) find_page :: "nat \<Rightarrow> nat option \<Rightarrow> kheap \<Rightarrow> nat option option" where
  "find_page blktype g h = (case g of None \<Rightarrow> Some None
     | Some i \<Rightarrow> do {
         pr \<leftarrow> get_pr i h;
         kassert (PR_BLOCKTYPE pr = int blktype);
         if nfree pr > 0 then Some (Some i) else find_page blktype (next_samesize pr) h
       })"

text \<open>From the label \<^verbatim>\<open>doalloc\<close> on.\<close>

definition doalloc :: "nat \<Rightarrow> kheap \<Rightarrow> (int \<times> kheap) option" where
  "doalloc i h = do {
     pr \<leftarrow> get_pr i h;
     kassert (freelist_offset pr < 4096);
     let prpage = PR_PAGEADDR pr;
     let retptr = prpage + freelist_offset pr;
     let fl = hmem h retptr;
     let left = nfree pr - 1;
     if fl \<noteq> 0 then do {
       kassert (left > 0);
       kassert (u32 (fl - prpage) < 4096);
       h' \<leftarrow> upd_pr i (\<lambda>pr. pr\<lparr>freelist_offset := u32 (fl - prpage), nfree := left\<rparr>) h;
       Some (retptr, h')
     }
     else do {
       kassert (left = 0);
       h' \<leftarrow> upd_pr i (\<lambda>pr. pr\<lparr>freelist_offset := 65535, nfree := left\<rparr>) h;
       Some (retptr, h')
     }
   }"

text \<open>The loop that links the blocks of a new page; \<open>n\<close> blocks are left, the next one is number \<open>i\<close>.\<close>

primrec link_blocks :: "nat \<Rightarrow> nat \<Rightarrow> int \<Rightarrow> int \<Rightarrow> (int \<Rightarrow> int) \<Rightarrow> (int \<Rightarrow> int)" where
  "link_blocks 0 i fla sz mem = mem"
| "link_blocks (Suc n) i fla sz mem = link_blocks n (Suc i) fla sz (mem(fla + int i * sz := fla + (int i - 1) * sz))"

definition newpage :: "nat \<Rightarrow> nat \<Rightarrow> int \<Rightarrow> kheap \<Rightarrow> kheap option" where
  "newpage pr blktype prpage h = do {
     let sz = sizes ! blktype;
     let n = 4096 div sz;
     let mem = link_blocks (nat n - 1) 1 prpage sz ((hmem h)(prpage := 0));
     base \<leftarrow> load (Some (sizebases h)) (int blktype);
     h' \<leftarrow> upd_pr pr (\<lambda>p. p\<lparr>next_samesize := base, next_all := allbase h, pageaddr_and_blocktype := MKPAB prpage (int blktype),
            freelist_offset := (n - 1) * sz, nfree := n\<rparr>) h;
     Some (h'\<lparr>hmem := mem, sizebases := (sizebases h)[blktype := Some pr], allbase := Some pr\<rparr>)
   }"

definition subpage_kmalloc :: "int \<Rightarrow> kheap \<Rightarrow> (int \<times> kheap) option" where
  "subpage_kmalloc sz h = do {
     blktype \<leftarrow> blocktype sz;
     base \<leftarrow> load (Some (sizebases h)) (int blktype);
     found \<leftarrow> find_page blktype base h;
     case found of Some i \<Rightarrow> doalloc i h
     | None \<Rightarrow> do {
         (p, h1) \<leftarrow> allocpageref h;
         case p of None \<Rightarrow> Some (0, h1)
         | Some pr \<Rightarrow> do {
             (prpage, vm) \<leftarrow> alloc_kpages 1 (hvm h1);
             if prpage = 0 then do { h2 \<leftarrow> freepageref pr (h1\<lparr>hvm := vm\<rparr>); Some (0, h2) }
             else do {
               h2 \<leftarrow> newpage pr blktype prpage (h1\<lparr>hvm := vm\<rparr>);
               doalloc pr h2
             }
           }
       }
   }"

text \<open>The words of a freed block are overwritten; the first one becomes the link.\<close>

definition fill_deadbeef :: "int \<Rightarrow> int \<Rightarrow> (int \<Rightarrow> int) \<Rightarrow> (int \<Rightarrow> int)" where
  "fill_deadbeef ptr len mem = (\<lambda>a. if ptr \<le> a \<and> a < ptr + len div 4 * 4 \<and> (a - ptr) mod 4 = 0 then 3735928559 else mem a)"

partial_function (option) page_holding :: "int \<Rightarrow> nat option \<Rightarrow> kheap \<Rightarrow> nat option option" where
  "page_holding ptraddr g h = (case g of None \<Rightarrow> Some None
     | Some i \<Rightarrow> do {
         pr \<leftarrow> get_pr i h;
         kassert (0 \<le> PR_BLOCKTYPE pr \<and> PR_BLOCKTYPE pr < 8);
         if PR_PAGEADDR pr \<le> ptraddr \<and> ptraddr < u32 (PR_PAGEADDR pr + 4096) then Some (Some i)
         else page_holding ptraddr (next_all pr) h
       })"

text \<open>\<open>None\<close> inside the result: not a block of the subpage allocator.\<close>

definition subpage_kfree :: "int \<Rightarrow> kheap \<Rightarrow> kheap option option" where
  "subpage_kfree ptraddr h = do {
     found \<leftarrow> page_holding ptraddr (allbase h) h;
     case found of None \<Rightarrow> Some None
     | Some i \<Rightarrow> do {
         pr \<leftarrow> get_pr i h;
         let prpage = PR_PAGEADDR pr;
         let blktype = PR_BLOCKTYPE pr;
         let sz = sizes ! nat blktype;
         let offset = ptraddr - prpage;
         kassert (offset < 4096 \<and> offset mod sz = 0);
         let mem = fill_deadbeef ptraddr sz (hmem h);
         let mem' = mem(ptraddr := (if freelist_offset pr = 65535 then 0 else prpage + freelist_offset pr));
         h1 \<leftarrow> upd_pr i (\<lambda>p. p\<lparr>freelist_offset := offset, nfree := nfree p + 1\<rparr>) (h\<lparr>hmem := mem'\<rparr>);
         kassert (nfree pr + 1 \<le> 4096 div sz);
         if nfree pr + 1 = 4096 div sz then do {
           h2 \<leftarrow> remove_lists i blktype h1;
           vm \<leftarrow> free_kpages prpage (hvm h2);
           h3 \<leftarrow> freepageref i (h2\<lparr>hvm := vm\<rparr>);
           Some (Some h3)
         }
         else Some (Some h1)
       }
   }"

definition kmalloc :: "int \<Rightarrow> kheap \<Rightarrow> (int \<times> kheap) option" where
  "kmalloc sz h =
     (if \<not> is_vm_setup (hram h) then
        (case ram_stealmem (u32 (sz + 4095) div 4096) (hram h) of (phys, r) \<Rightarrow>
           if phys = 0 then None else Some (u32 (phys + 2147483648), h\<lparr>hram := r\<rparr>))
      else if sz \<ge> 2048 then do {
        (address, vm) \<leftarrow> alloc_kpages (u32 (sz + 4095) div 4096) (hvm h);
        Some (address, h\<lparr>hvm := vm\<rparr>)
      }
      else subpage_kmalloc sz h)"

definition kfree :: "int \<Rightarrow> kheap \<Rightarrow> kheap option" where
  "kfree ptr h =
     (if ptr = 0 then Some h
      else do {
        r \<leftarrow> subpage_kfree ptr h;
        case r of Some h' \<Rightarrow> Some h'
        | None \<Rightarrow> do {
            kassert (ptr mod 4096 = 0);
            vm \<leftarrow> free_kpages ptr (hvm h);
            Some (h\<lparr>hvm := vm\<rparr>)
          }
      })"

section \<open>Invariant\<close>

text \<open>A list of pages linked by \<open>nx\<close>, and the free blocks of one page, by their offsets.\<close>

fun chain :: "(nat \<Rightarrow> nat option) \<Rightarrow> nat option \<Rightarrow> nat list \<Rightarrow> bool" where
  "chain nx g [] \<longleftrightarrow> g = None"
| "chain nx g (x # xs) \<longleftrightarrow> g = Some x \<and> chain nx (nx x) xs"

fun fl_chain :: "(int \<Rightarrow> int) \<Rightarrow> int \<Rightarrow> int list \<Rightarrow> bool" where
  "fl_chain mem pg [] \<longleftrightarrow> True"
| "fl_chain mem pg (x # xs) \<longleftrightarrow> mem (pg + x) = (case xs of [] \<Rightarrow> 0 | y # _ \<Rightarrow> pg + y) \<and> fl_chain mem pg xs"

definition block_offsets :: "int \<Rightarrow> int set" where
  "block_offsets sz = {x. 0 \<le> x \<and> x < 4096 \<and> x mod sz = 0}"

abbreviation pg :: "kheap \<Rightarrow> nat \<Rightarrow> int" where
  "pg h i \<equiv> PR_PAGEADDR (pagerefs h ! i)"

abbreviation bt :: "kheap \<Rightarrow> nat \<Rightarrow> nat" where
  "bt h i \<equiv> nat (PR_BLOCKTYPE (pagerefs h ! i))"

definition free_list :: "(int \<Rightarrow> int) \<Rightarrow> pageref \<Rightarrow> int list \<Rightarrow> bool" where
  "free_list mem pr offs \<longleftrightarrow> PR_BLOCKTYPE pr < 8 \<and> set offs \<subseteq> block_offsets (sizes ! nat (PR_BLOCKTYPE pr)) \<and> distinct offs \<and>
     nfree pr = int (length offs) \<and> freelist_offset pr = (case offs of [] \<Rightarrow> 65535 | x # _ \<Rightarrow> x) \<and> fl_chain mem (PR_PAGEADDR pr) offs"

definition page_frame :: "vmsys \<Rightarrow> int \<Rightarrow> bool" where
  "page_frame vm p \<longleftrightarrow> (\<exists>f. p = int f * 4096 + 2147483648 \<and> p + 4096 < 4294967296 \<and> in_core f vm \<and> cd_kern (frame_at f vm) = 1)"

text \<open>
  \<open>xs\<close> are the pages of the heap, \<open>ys b\<close> those with blocks of type \<open>b\<close>, \<open>fl i\<close> the offsets of the free
  blocks of page \<open>i\<close>; the words \<open>inuse\<close> mark exactly the pages in \<open>xs\<close>, and every page is a frame of the kernel.
\<close>

definition heap_lists :: "nat list \<Rightarrow> (nat \<Rightarrow> nat list) \<Rightarrow> kheap \<Rightarrow> bool" where
  "heap_lists xs ys h \<longleftrightarrow> length (pagerefs h) = 256 \<and> length (pagerefs_inuse h) = 8 \<and> length (sizebases h) = 8 \<and>
     distinct xs \<and> (\<forall>i \<in> set xs. i < 256) \<and> chain (\<lambda>i. next_all (pagerefs h ! i)) (allbase h) xs \<and>
     (\<forall>b < 8. chain (\<lambda>i. next_samesize (pagerefs h ! i)) (sizebases h ! b) (ys b) \<and> distinct (ys b) \<and>
        set (ys b) = {i \<in> set xs. bt h i = b})"

definition heap_inuse :: "nat list \<Rightarrow> kheap \<Rightarrow> bool" where
  "heap_inuse xs h \<longleftrightarrow> (\<forall>i < 256. bit (pagerefs_inuse h ! (i div 32)) (i mod 32) \<longleftrightarrow> i \<in> set xs)"

definition heap_pages :: "nat list \<Rightarrow> (nat \<Rightarrow> int list) \<Rightarrow> kheap \<Rightarrow> bool" where
  "heap_pages xs fl h \<longleftrightarrow> (\<forall>i \<in> set xs. free_list (hmem h) (pagerefs h ! i) (fl i) \<and> page_frame (hvm h) (pg h i)) \<and> inj_on (pg h) (set xs)"

definition heap_inv :: "nat list \<Rightarrow> (nat \<Rightarrow> nat list) \<Rightarrow> (nat \<Rightarrow> int list) \<Rightarrow> kheap \<Rightarrow> bool" where
  "heap_inv xs ys fl h \<longleftrightarrow> heap_lists xs ys h \<and> heap_inuse xs h \<and> heap_pages xs fl h"

text \<open>The blocks that are handed out: address and size.\<close>

definition live_blocks :: "nat list \<Rightarrow> (nat \<Rightarrow> int list) \<Rightarrow> kheap \<Rightarrow> (int \<times> int) set" where
  "live_blocks xs fl h = {(a, s). \<exists>i \<in> set xs. s = sizes ! bt h i \<and> a - pg h i \<in> block_offsets s \<and> a - pg h i \<notin> set (fl i)}"

section \<open>Sizes and blocks\<close>

lemma sizes_cases: "b < 8 \<Longrightarrow> sizes ! b \<in> {16, 32, 64, 128, 256, 512, 1024, 2048}"
  using nth_mem[of b sizes] by (simp add: sizes_def)

lemma sizes_facts:
  assumes "b < 8"
  shows "0 < sizes ! b" "sizes ! b < 4096" "4096 mod (sizes ! b) = 0" "2 \<le> 4096 div (sizes ! b)" "4096 div (sizes ! b) * sizes ! b = 4096"
  using sizes_cases[OF assms] by auto

lemma sizes_mod4: "b < 8 \<Longrightarrow> sizes ! b mod 4 = 0"
  using sizes_cases[of b] by auto

lemma block_offsets_image:
  assumes "b < 8"
  shows "block_offsets (sizes ! b) = (\<lambda>k. int k * sizes ! b) ` {0..<nat (4096 div sizes ! b)}"
proof -
  let ?s = "sizes ! b"
  have pos: "0 < ?s" and n: "4096 div ?s * ?s = 4096" using sizes_facts[OF assms] by auto
  have "x \<in> block_offsets ?s \<longleftrightarrow> (\<exists>k. x = int k * ?s \<and> k < nat (4096 div ?s))" for x
  proof
    assume x: "x \<in> block_offsets ?s"
    then have e: "x = x div ?s * ?s" and d: "0 \<le> x div ?s" using pos by (auto simp: block_offsets_def pos_imp_zdiv_nonneg_iff)
    have "x div ?s * ?s < 4096 div ?s * ?s" using x e n by (simp add: block_offsets_def)
    then have "x div ?s < 4096 div ?s" using pos by (simp add: mult_less_cancel_right)
    then show "\<exists>k. x = int k * ?s \<and> k < nat (4096 div ?s)" using e d by (intro exI[of _ "nat (x div ?s)"]) auto
  next
    assume "\<exists>k. x = int k * ?s \<and> k < nat (4096 div ?s)"
    then obtain k where k: "x = int k * ?s" "k < nat (4096 div ?s)" by blast
    then have "int k < 4096 div ?s" by (simp add: zless_nat_eq_int_zless)
    then have "int k * ?s < 4096 div ?s * ?s" using pos by simp
    then show "x \<in> block_offsets ?s" using k pos n by (simp add: block_offsets_def)
  qed
  then show ?thesis unfolding image_def by fastforce
qed

lemma card_block_offsets: "b < 8 \<Longrightarrow> finite (block_offsets (sizes ! b)) \<and> int (card (block_offsets (sizes ! b))) = 4096 div sizes ! b"
proof -
  assume b: "b < 8"
  have "inj_on (\<lambda>k. int k * sizes ! b) {0..<nat (4096 div sizes ! b)}" using sizes_facts(1)[OF b] by (auto simp: inj_on_def)
  then show ?thesis using sizes_facts(4)[OF b] unfolding block_offsets_image[OF b] by (simp add: card_image)
qed

lemma blocktype_spec: "sz \<le> 2048 \<Longrightarrow> \<exists>b. blocktype sz = Some b \<and> b < 8 \<and> sz \<le> sizes ! b"
  by (auto simp: blocktype_def sizes_def)

text \<open>Different blocks do not overlap.\<close>

lemma mult_apart:
  assumes "0 < s" and "x mod s = 0" and "y mod s = 0" and "x < y"
  shows "x + s \<le> (y :: int)"
proof -
  obtain k m where km: "x = s * k" "y = s * m" using assms(2,3) by (meson dvdE mod_eq_0_iff_dvd)
  then have "k + 1 \<le> m" using assms(1,4) by simp
  then have "s * (k + 1) \<le> s * m" using assms(1) by simp
  then show ?thesis using km by (simp add: algebra_simps)
qed

section \<open>The lists of pages\<close>

lemma chain_cong: "(\<And>x. x \<in> set xs \<Longrightarrow> nx x = nx' x) \<Longrightarrow> chain nx g xs = chain nx' g xs"
  by (induction xs arbitrary: g) auto

lemma fl_chain_cong: "(\<And>x. x \<in> set xs \<Longrightarrow> mem (p + x) = mem' (p + x)) \<Longrightarrow> fl_chain mem p xs = fl_chain mem' p xs"
  by (induction xs) auto

lemma get_pr_Some: "i < length (pagerefs h) \<Longrightarrow> get_pr i h = Some (pagerefs h ! i)"
  by (simp add: get_pr_def)

lemma find_page_chain:
  assumes "chain (\<lambda>i. next_samesize (pagerefs h ! i)) g zs" and "\<forall>i \<in> set zs. i < length (pagerefs h) \<and> PR_BLOCKTYPE (pagerefs h ! i) = int b"
  shows "find_page b g h = Some (find (\<lambda>i. nfree (pagerefs h ! i) > 0) zs)"
  using assms
proof (induction zs arbitrary: g)
  case Nil
  then show ?case by (simp add: find_page.simps)
next
  case (Cons i zs)
  then show ?case by (subst find_page.simps) (simp add: get_pr_Some)
qed

lemma page_holding_chain:
  assumes "chain (\<lambda>i. next_all (pagerefs h ! i)) g zs"
    and "\<forall>i \<in> set zs. i < length (pagerefs h) \<and> 0 \<le> PR_BLOCKTYPE (pagerefs h ! i) \<and> PR_BLOCKTYPE (pagerefs h ! i) < 8"
  shows "page_holding a g h = Some (find (\<lambda>i. pg h i \<le> a \<and> a < u32 (pg h i + 4096)) zs)"
  using assms
proof (induction zs arbitrary: g)
  case Nil
  then show ?case by (simp add: page_holding.simps)
next
  case (Cons i zs)
  then show ?case by (subst page_holding.simps) (simp add: get_pr_Some)
qed

text \<open>Taking a page out of a list changes links of pages in that list only.\<close>

definition same_but :: "(nat option \<Rightarrow> pageref \<Rightarrow> pageref) \<Rightarrow> nat set \<Rightarrow> pageref list \<Rightarrow> pageref list \<Rightarrow> bool" where
  "same_but set_nx A prs prs' \<longleftrightarrow> length prs' = length prs \<and>
     (\<forall>i < length prs. prs' ! i = prs ! i \<or> i \<in> A \<and> (\<exists>g. prs' ! i = set_nx g (prs ! i)))"

lemma unlink_spec:
  assumes "\<And>g pr. nx (set_nx g pr) = g" and "chain (\<lambda>i. nx (prs ! i)) g zs" and "distinct zs" and "\<forall>i \<in> set zs. i < length prs"
  shows "\<exists>g' prs'. unlink nx set_nx p g prs = Some (g', prs') \<and> chain (\<lambda>i. nx (prs' ! i)) g' (remove1 p zs) \<and> same_but set_nx (set zs) prs prs'"
  using assms(2-4)
proof (induction zs arbitrary: g)
  case Nil
  then show ?case by (simp add: unlink.simps same_but_def)
next
  case (Cons i zs)
  have g: "g = Some i" "i < length prs" "i \<notin> set zs" using Cons.prems by simp_all
  show ?case
  proof (cases "i = p")
    case True
    then show ?thesis using Cons.prems by (subst unlink.simps) (simp add: same_but_def)
  next
    case False
    have "chain (\<lambda>i. nx (prs ! i)) (nx (prs ! i)) zs" "distinct zs" "\<forall>i \<in> set zs. i < length prs" using Cons.prems by simp_all
    from Cons.IH[OF this] obtain g1 prs1 where 1: "unlink nx set_nx p (nx (prs ! i)) prs = Some (g1, prs1)"
        "chain (\<lambda>i. nx (prs1 ! i)) g1 (remove1 p zs)" "same_but set_nx (set zs) prs prs1"
      by blast
    let ?prs = "prs1[i := set_nx g1 (prs1 ! i)]"
    have len: "length prs1 = length prs" and keep: "prs1 ! i = prs ! i" using 1(3) g(2,3) by (auto simp: same_but_def)
    have "nx (?prs ! j) = nx (prs1 ! j)" if "j \<in> set (remove1 p zs)" for j
    proof -
      have "j \<noteq> i" using notin_set_remove1[OF g(3)] that by blast
      then show ?thesis by simp
    qed
    then have c: "chain (\<lambda>j. nx (?prs ! j)) g1 (remove1 p zs)" using 1(2) chain_cong[of "remove1 p zs" "\<lambda>j. nx (?prs ! j)" "\<lambda>j. nx (prs1 ! j)"] by blast
    have s: "same_but set_nx (set (i # zs)) prs ?prs"
      unfolding same_but_def
    proof (intro conjI allI impI)
      fix j assume j: "j < length prs"
      show "?prs ! j = prs ! j \<or> j \<in> set (i # zs) \<and> (\<exists>g. ?prs ! j = set_nx g (prs ! j))"
        using 1(3) j len keep unfolding same_but_def by (cases "j = i") auto
    qed (simp add: len)
    have "unlink nx set_nx p g prs = Some (Some i, ?prs)" using g(1,2) False 1(1) by (subst unlink.simps) simp
    moreover have "chain (\<lambda>j. nx (?prs ! j)) (Some i) (remove1 p (i # zs))" using c False g(2) len assms(1) by simp
    ultimately show ?thesis using s by blast
  qed
qed

section \<open>Taking and giving back a block of a page\<close>

lemma heap_inv_length: "heap_inv xs ys fl h \<Longrightarrow> length (pagerefs h) = 256" "heap_inv xs ys fl h \<Longrightarrow> i \<in> set xs \<Longrightarrow> i < 256"
  "heap_inv xs ys fl h \<Longrightarrow> length (sizebases h) = 8" "heap_inv xs ys fl h \<Longrightarrow> length (pagerefs_inuse h) = 8"
  by (simp_all add: heap_inv_def heap_lists_def)

lemma heap_inv_page: "heap_inv xs ys fl h \<Longrightarrow> i \<in> set xs \<Longrightarrow> free_list (hmem h) (pagerefs h ! i) (fl i)"
  "heap_inv xs ys fl h \<Longrightarrow> i \<in> set xs \<Longrightarrow> page_frame (hvm h) (pg h i)"
  by (simp_all add: heap_inv_def heap_pages_def)

lemma blocktype_nonneg [simp]: "0 \<le> PR_BLOCKTYPE pr"
  by (simp add: PR_BLOCKTYPE_def)

lemma heap_inv_bt: "heap_inv xs ys fl h \<Longrightarrow> i \<in> set xs \<Longrightarrow> bt h i < 8"
  using heap_inv_page(1) by (fastforce simp: free_list_def)

lemma page_frame_unique:
  assumes "page_frame vm p" and "page_frame vm' q" and "0 \<le> a - p" and "a - p < 4096" and "0 \<le> a - q" and "a - q < 4096"
  shows "p = q"
proof -
  obtain f g where "p = int f * 4096 + 2147483648" "q = int g * 4096 + 2147483648" using assms(1,2) by (auto simp: page_frame_def)
  moreover from this assms(3-6) have "int f < int g + 1" "int g < int f + 1" by linarith+
  ultimately show ?thesis by simp
qed

text \<open>A state in which only the free list of page \<open>i\<close> changes.\<close>

lemma heap_inv_change:
  assumes inv: "heap_inv xs ys fl h" and i: "i \<in> set xs"
    and prs: "pagerefs h' = (pagerefs h)[i := pr]" and same: "next_samesize pr = next_samesize (pagerefs h ! i)" "next_all pr = next_all (pagerefs h ! i)"
      "pageaddr_and_blocktype pr = pageaddr_and_blocktype (pagerefs h ! i)"
    and rest: "pagerefs_inuse h' = pagerefs_inuse h" "sizebases h' = sizebases h" "allbase h' = allbase h" "hvm h' = hvm h"
    and fl: "free_list (hmem h') pr offs" and others: "\<And>j. j \<in> set xs \<Longrightarrow> j \<noteq> i \<Longrightarrow> fl_chain (hmem h') (pg h j) (fl j)"
  shows "heap_inv xs ys (fl(i := offs)) h'" and "pg h' j = pg h j" and "bt h' j = bt h j"
proof -
  have len: "length (pagerefs h) = 256" and ib: "i < 256" using heap_inv_length[OF inv] i by auto
  have nx: "next_samesize (pagerefs h' ! j) = next_samesize (pagerefs h ! j)" "next_all (pagerefs h' ! j) = next_all (pagerefs h ! j)"
    "pageaddr_and_blocktype (pagerefs h' ! j) = pageaddr_and_blocktype (pagerefs h ! j)" for j
    using same len ib by (cases "j = i"; simp add: prs)+
  then have pb: "pg h' j = pg h j" "PR_BLOCKTYPE (pagerefs h' ! j) = PR_BLOCKTYPE (pagerefs h ! j)" for j
    by (simp_all add: PR_PAGEADDR_def PR_BLOCKTYPE_def)
  then show "pg h' j = pg h j" "bt h' j = bt h j" by simp_all
  have "heap_lists xs ys h'" using inv unfolding heap_inv_def heap_lists_def nx pb rest by (simp add: prs)
  moreover have "heap_inuse xs h'" using inv by (simp add: heap_inv_def heap_inuse_def rest)
  moreover have "heap_pages xs (fl(i := offs)) h'"
    unfolding heap_pages_def pb rest
  proof (intro conjI ballI)
    fix j assume j: "j \<in> set xs"
    show "page_frame (hvm h) (pg h j)" by (rule heap_inv_page(2)[OF inv j])
    show "free_list (hmem h') (pagerefs h' ! j) ((fl(i := offs)) j)"
      using heap_inv_page(1)[OF inv j] fl others[OF j] len ib by (cases "j = i") (simp_all add: prs free_list_def)
  next
    show "inj_on (pg h) (set xs)" using inv by (simp add: heap_inv_def heap_pages_def)
  qed
  ultimately show "heap_inv xs ys (fl(i := offs)) h'" by (simp add: heap_inv_def)
qed

lemma live_blocks_at:
  assumes inv: "heap_inv xs ys fl h" and i: "i \<in> set xs" and a: "0 \<le> a - pg h i" "a - pg h i < 4096"
  shows "(a, s) \<in> live_blocks xs fl h \<longleftrightarrow> s = sizes ! bt h i \<and> a - pg h i \<in> block_offsets s \<and> a - pg h i \<notin> set (fl i)"
proof -
  have "j = i" if "j \<in> set xs" "a - pg h j \<in> block_offsets s" for j
  proof -
    have "pg h j = pg h i" using page_frame_unique[OF heap_inv_page(2)[OF inv that(1)] heap_inv_page(2)[OF inv i], of a] that(2) a
      by (simp add: block_offsets_def)
    then show ?thesis using inv that(1) i by (auto simp: heap_inv_def heap_pages_def dest: inj_onD)
  qed
  then show ?thesis using i unfolding live_blocks_def by blast
qed

lemma doalloc_spec:
  assumes inv: "heap_inv xs ys fl h" and i: "i \<in> set xs" and fl: "fl i = x # os"
  shows "\<exists>h'. doalloc i h = Some (pg h i + x, h') \<and> heap_inv xs ys (fl(i := os)) h' \<and> hvm h' = hvm h \<and> hram h' = hram h \<and> hmem h' = hmem h \<and>
    (\<forall>j. pg h' j = pg h j \<and> bt h' j = bt h j)"
proof -
  let ?pr = "pagerefs h ! i"
  define pr where "pr = ?pr\<lparr>freelist_offset := (case os of [] \<Rightarrow> 65535 | y # _ \<Rightarrow> y), nfree := int (length os)\<rparr>"
  define h' where "h' = h\<lparr>pagerefs := (pagerefs h)[i := pr]\<rparr>"
  have F: "free_list (hmem h) ?pr (x # os)" using heap_inv_page(1)[OF inv i] fl by simp
  have b: "bt h i < 8" by (rule heap_inv_bt[OF inv i])
  have offs: "0 \<le> y" "y < 4096" if "y \<in> set (x # os)" for y using F that by (auto simp: free_list_def block_offsets_def)
  have pos: "pg h i \<noteq> - y" if "y \<in> set (x # os)" for y using heap_inv_page(2)[OF inv i] offs[OF that] by (auto simp: page_frame_def)
  have get: "get_pr i h = Some ?pr" "i < length (pagerefs h)" using heap_inv_length[OF inv] i by (auto intro: get_pr_Some)
  have "doalloc i h = Some (pg h i + x, h')"
  proof (cases os)
    case Nil
    with F get show ?thesis by (simp add: doalloc_def upd_pr_def free_list_def h'_def pr_def offs)
  next
    case (Cons y zs)
    then have "hmem h (pg h i + x) = pg h i + y" using F by (simp add: free_list_def)
    moreover have "pg h i + y \<noteq> 0" "0 \<le> y" "y < 4096" using pos[of y] offs[of y] Cons by auto
    ultimately show ?thesis using F get Cons offs[of x] by (simp add: doalloc_def upd_pr_def free_list_def h'_def pr_def)
  qed
  moreover have "free_list (hmem h') pr os"
    using F by (cases os) (auto simp: free_list_def h'_def pr_def PR_BLOCKTYPE_def PR_PAGEADDR_def)
  note heap_inv_change[OF inv i, of h' pr os] this
  moreover have "fl_chain (hmem h') (pg h j) (fl j)" if "j \<in> set xs" for j using heap_inv_page(1)[OF inv that] by (simp add: h'_def free_list_def)
  ultimately show ?thesis by (auto simp: h'_def pr_def)
qed

lemma live_blocks_take:
  assumes fl: "fl i = x # os" and i: "i \<in> set xs" and F: "free_list mem (pagerefs h ! i) (x # os)" and same: "\<And>j. pg h' j = pg h j" "\<And>j. bt h' j = bt h j"
  shows "live_blocks xs (fl(i := os)) h' = insert (pg h i + x, sizes ! bt h i) (live_blocks xs fl h)"
proof -
  have x: "x \<in> block_offsets (sizes ! bt h i)" "x \<notin> set os" using F by (auto simp: free_list_def)
  show ?thesis
  proof (intro set_eqI iffI)
    fix y assume "y \<in> live_blocks xs (fl(i := os)) h'"
    then obtain a s j where y: "y = (a, s)" "j \<in> set xs" "s = sizes ! bt h j" "a - pg h j \<in> block_offsets s" "a - pg h j \<notin> set ((fl(i := os)) j)"
      unfolding live_blocks_def same by blast
    show "y \<in> insert (pg h i + x, sizes ! bt h i) (live_blocks xs fl h)"
    proof (cases "j = i \<and> a - pg h j = x")
      case False
      then have "a - pg h j \<notin> set (fl j)" using y(5) fl by (cases "j = i") auto
      then show ?thesis using y unfolding live_blocks_def by blast
    qed (use y in auto)
  next
    fix y assume "y \<in> insert (pg h i + x, sizes ! bt h i) (live_blocks xs fl h)"
    then consider "y = (pg h i + x, sizes ! bt h i)"
      | a s j where "y = (a, s)" "j \<in> set xs" "s = sizes ! bt h j" "a - pg h j \<in> block_offsets s" "a - pg h j \<notin> set (fl j)"
      unfolding live_blocks_def by blast
    then show "y \<in> live_blocks xs (fl(i := os)) h'"
    proof cases
      case 1
      then show ?thesis using x i unfolding live_blocks_def same by auto
    next
      case 2
      then have "a - pg h j \<notin> set ((fl(i := os)) j)" using fl by (cases "j = i") auto
      with 2 show ?thesis unfolding live_blocks_def same by blast
    qed
  qed
qed

section \<open>A new page\<close>

lemma inuse_bit_spec: "j \<le> m \<Longrightarrow> m < 32 \<Longrightarrow> \<not> bit w m \<Longrightarrow> \<exists>j'. inuse_bit w j = Some j' \<and> j' < 32 \<and> \<not> bit w j'"
proof (induction "m - j" arbitrary: j)
  case 0
  then show ?case by (subst inuse_bit.simps) auto
next
  case (Suc n)
  show ?case
  proof (cases "bit w j")
    case True
    with Suc.prems have "Suc j \<le> m" by (cases "j = m") auto
    with Suc have "\<exists>j'. inuse_bit w (Suc j) = Some j' \<and> j' < 32 \<and> \<not> bit w j'" by (intro Suc.hyps(1)) auto
    then show ?thesis using True Suc.prems by (subst inuse_bit.simps) auto
  next
    case False
    then show ?thesis using Suc.prems by (subst inuse_bit.simps) auto
  qed
qed

lemma word_has_zero: "w \<noteq> (-1 :: 32 word) \<Longrightarrow> \<exists>m < 32. \<not> bit w m"
  by (auto simp: bit_eq_iff)

lemma inuse_find_spec:
  "inuse_find ws i0 = Some None \<and> (\<forall>w \<in> set ws. w = -1) \<or>
   (\<exists>i j. inuse_find ws i0 = Some (Some (i0 + i, j)) \<and> i < length ws \<and> j < 32 \<and> \<not> bit (ws ! i) j)"
proof (induction ws arbitrary: i0)
  case (Cons w ws)
  show ?case
  proof (cases "w = -1")
    case True
    from Cons[of "Suc i0"] show ?thesis
    proof
      assume "\<exists>i j. inuse_find ws (Suc i0) = Some (Some (Suc i0 + i, j)) \<and> i < length ws \<and> j < 32 \<and> \<not> bit (ws ! i) j"
      then obtain i j where "inuse_find ws (Suc i0) = Some (Some (Suc i0 + i, j))" "i < length ws" "j < 32" "\<not> bit (ws ! i) j" by blast
      then show ?thesis using True by (intro disjI2 exI[of _ "Suc i"] exI[of _ j]) simp
    qed (simp add: True)
  next
    case False
    then obtain j where "inuse_bit w 0 = Some j" "j < 32" "\<not> bit w j" using word_has_zero[OF False] inuse_bit_spec[of 0 _ w] by blast
    then show ?thesis using False by (intro disjI2 exI[of _ 0] exI[of _ j]) simp
  qed
qed simp

lemma allocpageref_spec:
  assumes "heap_inuse xs h" and "length (pagerefs_inuse h) = 8" and "\<exists>i < 256. i \<notin> set xs"
  shows "\<exists>p ws. allocpageref h = Some (Some p, h\<lparr>pagerefs_inuse := ws\<rparr>) \<and> p < 256 \<and> p \<notin> set xs \<and> length ws = 8 \<and> heap_inuse (p # xs) (h\<lparr>pagerefs_inuse := ws\<rparr>)"
proof -
  obtain q where q: "q < 256" "q \<notin> set xs" using assms(3) by blast
  then have "\<not> bit (pagerefs_inuse h ! (q div 32)) (q mod 32)" using assms(1) by (simp add: heap_inuse_def)
  then have "pagerefs_inuse h ! (q div 32) \<noteq> -1" by auto
  moreover have "q div 32 < 8" using q(1) by simp
  ultimately have "\<not> (\<forall>w \<in> set (pagerefs_inuse h). w = -1)" using assms(2) nth_mem by metis
  then obtain i j where ij: "inuse_find (pagerefs_inuse h) 0 = Some (Some (i, j))" "i < 8" "j < 32" "\<not> bit (pagerefs_inuse h ! i) j"
    using inuse_find_spec[of "pagerefs_inuse h" 0] assms(2) by auto
  define p where "p = i * 32 + j"
  define ws where "ws = (pagerefs_inuse h)[i := set_bit j (pagerefs_inuse h ! i)]"
  have p: "p < 256" "p div 32 = i" "p mod 32 = j" using ij(2,3) by (simp_all add: p_def)
  have "p \<notin> set xs" using assms(1) p ij(4) unfolding heap_inuse_def by blast
  moreover have "bit (ws ! (k div 32)) (k mod 32) \<longleftrightarrow> k \<in> set (p # xs)" if "k < 256" for k
  proof (cases "k div 32 = i")
    case True
    then have "k = p \<longleftrightarrow> k mod 32 = j" using p by (metis div_mult_mod_eq)
    then show ?thesis using True assms(1,2) that ij(2,3) unfolding heap_inuse_def by (auto simp: ws_def bit_set_bit_iff possible_bit_word)
  next
    case False
    then show ?thesis using assms(1) that p(2) unfolding heap_inuse_def by (auto simp: ws_def)
  qed
  ultimately have "heap_inuse (p # xs) (h\<lparr>pagerefs_inuse := ws\<rparr>)" by (simp add: heap_inuse_def)
  moreover have "allocpageref h = Some (Some p, h\<lparr>pagerefs_inuse := ws\<rparr>)" using ij(1) by (simp add: allocpageref_def p_def ws_def)
  ultimately show ?thesis using p(1) \<open>p \<notin> set xs\<close> assms(2) by (auto simp: ws_def)
qed

lemma link_blocks_other: "(\<And>k. i \<le> k \<Longrightarrow> k < i + n \<Longrightarrow> a \<noteq> fla + int k * sz) \<Longrightarrow> link_blocks n i fla sz mem a = mem a"
  by (induction n arbitrary: i mem) auto

lemma link_blocks_at:
  assumes "0 < sz"
  shows "i \<le> k \<Longrightarrow> k < i + n \<Longrightarrow> link_blocks n i fla sz mem (fla + int k * sz) = fla + (int k - 1) * sz"
proof (induction n arbitrary: i mem)
  case (Suc n)
  show ?case
  proof (cases "k = i")
    case True
    have "fla + int k * sz \<noteq> fla + int m * sz" if "Suc i \<le> m" for m using assms that True by simp
    then show ?thesis using True by (simp add: link_blocks_other)
  next
    case False
    with Suc show ?thesis by simp
  qed
qed simp

lemma fl_chain_new:
  assumes "0 < sz" and "n \<le> m" and "mem p = 0"
  shows "fl_chain (link_blocks (m - 1) 1 p sz mem) p (map (\<lambda>k. int k * sz) (rev [0..<n]))"
  using assms(2)
proof (induction n)
  case (Suc n)
  have "link_blocks (m - 1) 1 p sz mem (p + int n * sz) = (case map (\<lambda>k. int k * sz) (rev [0..<n]) of [] \<Rightarrow> 0 | y # _ \<Rightarrow> p + y)"
  proof (cases n)
    case 0
    have "p \<noteq> p + int k * sz" if "1 \<le> k" for k using assms(1) that by simp
    then show ?thesis using 0 assms(3) by (simp add: link_blocks_other)
  next
    case (Suc l)
    then show ?thesis using link_blocks_at[OF assms(1), of 1 n "m - 1" p mem] Suc.prems by simp
  qed
  with Suc show ?case by simp
qed simp

definition all_offsets :: "nat \<Rightarrow> int list" where
  "all_offsets b = map (\<lambda>k. int k * sizes ! b) (rev [0..<nat (4096 div sizes ! b)])"

lemma all_offsets_facts:
  assumes "b < 8"
  shows "set (all_offsets b) = block_offsets (sizes ! b)" "distinct (all_offsets b)" "int (length (all_offsets b)) = 4096 div sizes ! b"
    "\<exists>os. all_offsets b = (4096 div sizes ! b - 1) * sizes ! b # os"
proof -
  let ?n = "nat (4096 div sizes ! b)"
  note s = sizes_facts[OF assms]
  show "set (all_offsets b) = block_offsets (sizes ! b)" by (simp add: all_offsets_def block_offsets_image[OF assms])
  show "distinct (all_offsets b)" using s(1) by (auto simp: all_offsets_def distinct_map inj_on_def)
  show "int (length (all_offsets b)) = 4096 div sizes ! b" using s(4) by (simp add: all_offsets_def)
  obtain m where m: "?n = Suc m" using s(4) by (cases ?n) auto
  then have "int m = 4096 div sizes ! b - 1" using s(4) by linarith
  then show "\<exists>os. all_offsets b = (4096 div sizes ! b - 1) * sizes ! b # os" unfolding all_offsets_def m by simp
qed

lemma MKPAB_parts: "p mod 4096 = 0 \<Longrightarrow> b < 8 \<Longrightarrow> MKPAB p (int b) - MKPAB p (int b) mod 4096 = p \<and> MKPAB p (int b) mod 4096 = int b"
  by (simp add: MKPAB_def mod_add_left_eq[symmetric])

lemma page_frame_aligned: "page_frame vm p \<Longrightarrow> p mod 4096 = 0"
  by (auto simp: page_frame_def)

text \<open>The state after \<open>newpage\<close>, by its parts.\<close>

definition newpage_pr :: "nat \<Rightarrow> nat \<Rightarrow> int \<Rightarrow> kheap \<Rightarrow> pageref" where
  "newpage_pr q b p h = (pagerefs h ! q)\<lparr>next_samesize := sizebases h ! b, next_all := allbase h, pageaddr_and_blocktype := MKPAB p (int b),
     freelist_offset := (4096 div sizes ! b - 1) * sizes ! b, nfree := 4096 div sizes ! b\<rparr>"

definition newpage_mem :: "nat \<Rightarrow> int \<Rightarrow> kheap \<Rightarrow> (int \<Rightarrow> int)" where
  "newpage_mem b p h = link_blocks (nat (4096 div sizes ! b) - 1) 1 p (sizes ! b) ((hmem h)(p := 0))"

definition newpage_heap :: "nat \<Rightarrow> nat \<Rightarrow> int \<Rightarrow> kheap \<Rightarrow> kheap" where
  "newpage_heap q b p h = h\<lparr>pagerefs := (pagerefs h)[q := newpage_pr q b p h], hmem := newpage_mem b p h, sizebases := (sizebases h)[b := Some q], allbase := Some q\<rparr>"

lemma newpage_eq:
  assumes "heap_lists xs ys h" and "q < 256" and "b < 8"
  shows "newpage q b p h = Some (newpage_heap q b p h)"
  using assms by (simp add: heap_lists_def newpage_def upd_pr_def get_pr_Some newpage_heap_def newpage_pr_def newpage_mem_def Let_def)

lemma newpage_pr_parts:
  assumes "page_frame vm p" and "b < 8"
  shows "PR_PAGEADDR (newpage_pr q b p h) = p" "PR_BLOCKTYPE (newpage_pr q b p h) = int b"
  using MKPAB_parts[OF page_frame_aligned[OF assms(1)] assms(2)] by (simp_all add: PR_PAGEADDR_def PR_BLOCKTYPE_def newpage_pr_def)

lemma newpage_mem_other:
  assumes b: "b < 8" and p: "page_frame vm p" "page_frame vm p'" "p' \<noteq> p" and x: "0 \<le> x" "x < 4096"
  shows "newpage_mem b p h (p' + x) = hmem h (p' + x)"
proof -
  have n: "p' + x \<noteq> p + int k * sizes ! b" if "k < nat (4096 div sizes ! b)" for k
  proof
    assume e: "p' + x = p + int k * sizes ! b"
    have "int k * sizes ! b \<in> block_offsets (sizes ! b)" unfolding block_offsets_image[OF b] using that by (intro imageI) simp
    then show False using page_frame_unique[OF p(2,1), of "p' + x"] x e p(3) by (simp add: block_offsets_def)
  qed
  have "p' + x \<noteq> p" using n[of 0] sizes_facts(4)[OF b] by simp
  then show ?thesis unfolding newpage_mem_def using n by (subst link_blocks_other) auto
qed

lemma newpage_free_list:
  assumes "b < 8" and "page_frame vm p"
  shows "free_list (newpage_mem b p h) (newpage_pr q b p h) (all_offsets b)"
proof -
  note s = sizes_facts[OF assms(1)] and o = all_offsets_facts[OF assms(1)]
  have "fl_chain (newpage_mem b p h) p (all_offsets b)" unfolding newpage_mem_def all_offsets_def by (rule fl_chain_new) (use s in auto)
  moreover obtain os where "all_offsets b = (4096 div sizes ! b - 1) * sizes ! b # os" using o(4) by blast
  moreover have "nfree (newpage_pr q b p h) = 4096 div sizes ! b" "freelist_offset (newpage_pr q b p h) = (4096 div sizes ! b - 1) * sizes ! b"
    by (simp_all add: newpage_pr_def)
  ultimately show ?thesis using o(1-3) assms(1) unfolding free_list_def newpage_pr_parts[OF assms(2,1)] by simp
qed

lemma newpage_heap_at:
  assumes "length (pagerefs h) = 256" and "q < 256"
  shows "pagerefs (newpage_heap q b p h) ! q = newpage_pr q b p h" "j \<noteq> q \<Longrightarrow> pagerefs (newpage_heap q b p h) ! j = pagerefs h ! j"
  using assms by (simp_all add: newpage_heap_def)

lemma newpage_lists:
  assumes lists: "heap_lists xs ys h" and q: "q < 256" "q \<notin> set xs" and b: "b < 8" and p: "page_frame vm p"
  shows "heap_lists (q # xs) (ys(b := q # ys b)) (newpage_heap q b p h)"
proof -
  let ?h = "newpage_heap q b p h"
  have len: "length (pagerefs h) = 256" "length (sizebases h) = 8" using lists by (simp_all add: heap_lists_def)
  note at = newpage_heap_at(1)[OF len(1) q(1), of b p] and prq = newpage_pr_parts[OF p b, of q h]
  have old: "pagerefs ?h ! j = pagerefs h ! j" if "j \<in> set xs" for j using newpage_heap_at(2)[OF len(1) q(1)] that q(2) by metis
  have "chain (\<lambda>i. next_all (pagerefs ?h ! i)) (allbase h) xs"
    using lists chain_cong[of xs "\<lambda>i. next_all (pagerefs ?h ! i)" "\<lambda>i. next_all (pagerefs h ! i)"] old by (simp add: heap_lists_def)
  then have "chain (\<lambda>i. next_all (pagerefs ?h ! i)) (allbase ?h) (q # xs)" using at by (simp add: newpage_heap_def newpage_pr_def)
  moreover have "chain (\<lambda>i. next_samesize (pagerefs ?h ! i)) (sizebases ?h ! c) ((ys(b := q # ys b)) c) \<and> distinct ((ys(b := q # ys b)) c) \<and>
      set ((ys(b := q # ys b)) c) = {i \<in> set (q # xs). bt ?h i = c}" if c: "c < 8" for c
  proof -
    have L: "chain (\<lambda>i. next_samesize (pagerefs h ! i)) (sizebases h ! c) (ys c)" "distinct (ys c)" "set (ys c) = {i \<in> set xs. bt h i = c}"
      using lists c by (simp_all add: heap_lists_def)
    have "bt ?h q = b" unfolding at prq by simp
    then have set: "{i \<in> set (q # xs). bt ?h i = c} = (if c = b then insert q (set (ys c)) else set (ys c))" unfolding L(3) using old by auto
    have ch: "chain (\<lambda>i. next_samesize (pagerefs ?h ! i)) (sizebases h ! c) (ys c)"
      using L chain_cong[of "ys c" "\<lambda>i. next_samesize (pagerefs ?h ! i)" "\<lambda>i. next_samesize (pagerefs h ! i)"] old by simp
    have nx: "next_samesize (pagerefs ?h ! q) = sizebases h ! b" unfolding at by (simp add: newpage_pr_def)
    have sb: "sizebases ?h ! c = (if c = b then Some q else sizebases h ! c)" using len(2) b by (simp add: newpage_heap_def)
    have "q \<notin> set (ys c)" using L(3) q(2) by simp
    then show ?thesis unfolding set sb using L(2) ch nx by (cases "c = b") simp_all
  qed
  moreover have "length (pagerefs ?h) = 256" "length (pagerefs_inuse ?h) = 8" "length (sizebases ?h) = 8" "distinct (q # xs)" "\<forall>i \<in> set (q # xs). i < 256"
    using lists q by (simp_all add: heap_lists_def newpage_heap_def)
  ultimately show ?thesis unfolding heap_lists_def by blast
qed

lemma newpage_pages:
  assumes lists: "heap_lists xs ys h" and pages: "heap_pages xs fl h" and q: "q < 256" "q \<notin> set xs" and b: "b < 8" and p: "page_frame (hvm h) p" "p \<notin> pg h ` set xs"
  shows "heap_pages (q # xs) (fl(q := all_offsets b)) (newpage_heap q b p h)"
proof -
  let ?h = "newpage_heap q b p h"
  have len: "length (pagerefs h) = 256" using lists by (simp add: heap_lists_def)
  note at = newpage_heap_at(1)[OF len(1) q(1), of b p] and prq = newpage_pr_parts[OF p(1) b, of q h]
  have old: "pagerefs ?h ! j = pagerefs h ! j" if "j \<in> set xs" for j using newpage_heap_at(2)[OF len q(1)] that q(2) by metis
  have f: "hmem ?h = newpage_mem b p h" "hvm ?h = hvm h" by (simp_all add: newpage_heap_def)
  have "free_list (newpage_mem b p h) (pagerefs h ! j) (fl j) \<and> page_frame (hvm h) (pg h j)" if j: "j \<in> set xs" for j
  proof -
    have F: "free_list (hmem h) (pagerefs h ! j) (fl j)" "page_frame (hvm h) (pg h j)" using pages j by (simp_all add: heap_pages_def)
    have ne: "pg h j \<noteq> p" using p(2) j by auto
    have "newpage_mem b p h (pg h j + x) = hmem h (pg h j + x)" if x: "x \<in> set (fl j)" for x
      using F(1) x by (intro newpage_mem_other[OF b p(1) F(2) ne]) (auto simp: free_list_def block_offsets_def)
    then have "fl_chain (newpage_mem b p h) (pg h j) (fl j)" using F(1) fl_chain_cong[of "fl j" "newpage_mem b p h" "pg h j" "hmem h"] by (simp add: free_list_def)
    then show ?thesis using F by (simp add: free_list_def)
  qed
  moreover have "(fl(q := all_offsets b)) j = fl j" if "j \<in> set xs" for j using that q(2) by auto
  moreover have "inj_on (pg ?h) (set (q # xs))"
  proof -
    have "inj_on (pg ?h) (set xs)" using pages old by (simp add: heap_pages_def inj_on_def)
    moreover have "pg ?h q = p" unfolding at by (rule prq(1))
    moreover have "p \<notin> pg ?h ` set xs" using p(2) old by (simp add: image_iff)
    ultimately show ?thesis using q(2) by (auto simp: inj_on_insert)
  qed
  ultimately show ?thesis unfolding heap_pages_def f using newpage_free_list[OF b p(1)] p(1) at prq old by simp
qed

lemma newpage_spec:
  assumes "heap_lists xs ys h" and "heap_inuse (q # xs) h" and "heap_pages xs fl h" and "q < 256" "q \<notin> set xs" and "b < 8"
    and "page_frame (hvm h) p" "p \<notin> pg h ` set xs"
  shows "newpage q b p h = Some (newpage_heap q b p h)" and "heap_inv (q # xs) (ys(b := q # ys b)) (fl(q := all_offsets b)) (newpage_heap q b p h)"
    and "pg (newpage_heap q b p h) q = p" and "bt (newpage_heap q b p h) q = b"
    and "j \<in> set xs \<Longrightarrow> pg (newpage_heap q b p h) j = pg h j \<and> bt (newpage_heap q b p h) j = bt h j"
proof -
  have len: "length (pagerefs h) = 256" using assms(1) by (simp add: heap_lists_def)
  show "newpage q b p h = Some (newpage_heap q b p h)" by (rule newpage_eq[OF assms(1,4,6)])
  have "heap_inuse (q # xs) (newpage_heap q b p h)" using assms(2) by (simp add: heap_inuse_def newpage_heap_def)
  then show "heap_inv (q # xs) (ys(b := q # ys b)) (fl(q := all_offsets b)) (newpage_heap q b p h)"
    unfolding heap_inv_def using newpage_lists[OF assms(1,4,5,6,7)] newpage_pages[OF assms(1,3,4,5,6,7,8)] by blast
  show "pg (newpage_heap q b p h) q = p" "bt (newpage_heap q b p h) q = b"
    unfolding newpage_heap_at(1)[OF len assms(4)] newpage_pr_parts[OF assms(7,6)] by simp_all
  show "pg (newpage_heap q b p h) j = pg h j \<and> bt (newpage_heap q b p h) j = bt h j" if "j \<in> set xs"
    using newpage_heap_at(2)[OF len assms(4), of j] that assms(5) by (cases "j = q") simp_all
qed

section \<open>Allocation\<close>

lemma live_blocks_apart:
  assumes inv: "heap_inv xs ys fl h" and i: "i \<in> set xs" "a - pg h i \<in> block_offsets (sizes ! bt h i)"
    and j: "j \<in> set xs" "a' - pg h j \<in> block_offsets (sizes ! bt h j)" and ne: "a \<noteq> a'"
  shows "a + sizes ! bt h i \<le> a' \<or> a' + sizes ! bt h j \<le> a"
proof -
  let ?s = "sizes ! bt h i" and ?t = "sizes ! bt h j"
  note s = sizes_facts(1,3)[OF heap_inv_bt[OF inv i(1)]] sizes_facts(1,3)[OF heap_inv_bt[OF inv j(1)]]
  have o: "(a - pg h i) mod ?s = 0" "a - pg h i < 4096" "0 \<le> a - pg h i" "(a' - pg h j) mod ?t = 0" "a' - pg h j < 4096" "0 \<le> a' - pg h j"
    using i(2) j(2) by (simp_all add: block_offsets_def)
  show ?thesis
  proof (cases "i = j")
    case True
    have o': "(a' - pg h i) mod ?s = 0" using o(4) True by simp
    consider "a - pg h i < a' - pg h i" | "a' - pg h i < a - pg h i" using ne by linarith
    then show ?thesis
    proof cases
      case 1
      from mult_apart[OF s(1) o(1) o' 1] show ?thesis by linarith
    next
      case 2
      from mult_apart[OF s(1) o' o(1) 2] True show ?thesis by simp
    qed
  next
    case False
    have "inj_on (pg h) (set xs)" using inv by (simp add: heap_inv_def heap_pages_def)
    from inj_onD[OF this _ i(1) j(1)] False have "pg h i \<noteq> pg h j" by blast
    moreover have "pg h i mod 4096 = 0" "pg h j mod 4096 = 0" using page_frame_aligned heap_inv_page(2)[OF inv] i(1) j(1) by blast+
    ultimately have "pg h i + 4096 \<le> pg h j \<or> pg h j + 4096 \<le> pg h i"
      using mult_apart[of 4096 "pg h i" "pg h j"] mult_apart[of 4096 "pg h j" "pg h i"] by linarith
    moreover note mult_apart[OF s(1) o(1) s(2) o(2)] mult_apart[OF s(3) o(4) s(4) o(5)]
    ultimately show ?thesis using o by linarith
  qed
qed

lemma live_blocks_apart_new:
  assumes inv: "heap_inv xs ys fl h" and i: "i \<in> set xs" and x: "x \<in> set (fl i)" and l: "(a', s') \<in> live_blocks xs fl h"
  shows "pg h i + x + sizes ! bt h i \<le> a' \<or> a' + s' \<le> pg h i + x"
proof -
  obtain j where j: "j \<in> set xs" "s' = sizes ! bt h j" "a' - pg h j \<in> block_offsets s'" "a' - pg h j \<notin> set (fl j)"
    using l unfolding live_blocks_def by blast
  have xb: "x \<in> block_offsets (sizes ! bt h i)" using heap_inv_page(1)[OF inv i] x by (auto simp: free_list_def)
  have "(pg h i + x, s') \<notin> live_blocks xs fl h"
    using live_blocks_at[OF inv i, of "pg h i + x" s'] xb x by (simp add: block_offsets_def)
  then have "pg h i + x \<noteq> a'" using l by auto
  then show ?thesis using live_blocks_apart[OF inv i _ j(1), of "pg h i + x" a'] xb j by simp
qed

text \<open>What an allocation achieves: the new block, and the state it leaves.\<close>

definition allocated :: "int \<Rightarrow> (int \<times> int) set \<Rightarrow> int \<Rightarrow> int \<Rightarrow> (int \<times> int) set \<Rightarrow> bool" where
  "allocated sz live a s live' \<longleftrightarrow> sz \<le> s \<and> 2147483648 \<le> a \<and> live' = insert (a, s) live \<and> (\<forall>(a', s') \<in> live. a + s \<le> a' \<or> a' + s' \<le> a)"

lemma doalloc_allocated:
  assumes inv: "heap_inv xs ys fl h" and i: "i \<in> set xs" and fl: "fl i = x # os" and sz: "sz \<le> sizes ! bt h i"
  shows "\<exists>a h'. doalloc i h = Some (a, h') \<and> heap_inv xs ys (fl(i := os)) h' \<and> hvm h' = hvm h \<and> hram h' = hram h \<and>
    allocated sz (live_blocks xs fl h) a (sizes ! bt h i) (live_blocks xs (fl(i := os)) h')"
proof -
  obtain h' where h': "doalloc i h = Some (pg h i + x, h')" "heap_inv xs ys (fl(i := os)) h'" "hvm h' = hvm h" "hram h' = hram h"
      "\<forall>j. pg h' j = pg h j \<and> bt h' j = bt h j"
    using doalloc_spec[OF inv i fl] by blast
  have F: "free_list (hmem h) (pagerefs h ! i) (x # os)" using heap_inv_page(1)[OF inv i] fl by simp
  have "live_blocks xs (fl(i := os)) h' = insert (pg h i + x, sizes ! bt h i) (live_blocks xs fl h)"
    by (rule live_blocks_take[where fl = fl and i = i and h' = h', OF fl i F]) (use h'(5) in simp_all)
  moreover have "2147483648 \<le> pg h i + x" using heap_inv_page(2)[OF inv i] F by (auto simp: page_frame_def free_list_def block_offsets_def)
  moreover have "pg h i + x + sizes ! bt h i \<le> a' \<or> a' + s' \<le> pg h i + x" if "(a', s') \<in> live_blocks xs fl h" for a' s'
    using live_blocks_apart_new[OF inv i _ that, of x] fl by simp
  ultimately have "allocated sz (live_blocks xs fl h) (pg h i + x) (sizes ! bt h i) (live_blocks xs (fl(i := os)) h')"
    using sz unfolding allocated_def by blast
  with h' show ?thesis by blast
qed

lemma find_Some_in: "find P xs = Some x \<Longrightarrow> x \<in> set xs \<and> P x"
  by (auto simp: find_Some_iff)

lemma find_free_page:
  assumes inv: "heap_inv xs ys fl h" and b: "b < 8"
  shows "find_page b (sizebases h ! b) h = Some (find (\<lambda>i. fl i \<noteq> []) (ys b))"
proof -
  have L: "chain (\<lambda>i. next_samesize (pagerefs h ! i)) (sizebases h ! b) (ys b)" "set (ys b) = {i \<in> set xs. bt h i = b}"
    using inv b by (simp_all add: heap_inv_def heap_lists_def)
  have t: "PR_BLOCKTYPE (pagerefs h ! i) = int b" if "i \<in> set (ys b)" for i
  proof -
    have "bt h i = b" using that L(2) by simp
    then show ?thesis using blocktype_nonneg[of "pagerefs h ! i"] by linarith
  qed
  have "nfree (pagerefs h ! i) > 0 \<longleftrightarrow> fl i \<noteq> []" if "i \<in> set (ys b)" for i
    using heap_inv_page(1)[OF inv, of i] that L(2) by (auto simp: free_list_def)
  then have "find (\<lambda>i. nfree (pagerefs h ! i) > 0) (ys b) = find (\<lambda>i. fl i \<noteq> []) (ys b)" by (intro find_cong) simp_all
  moreover have "\<forall>i \<in> set (ys b). i < length (pagerefs h) \<and> PR_BLOCKTYPE (pagerefs h ! i) = int b"
    using t L(2) heap_inv_length(1)[OF inv] heap_inv_length(2)[OF inv] by auto
  from find_page_chain[OF L(1) this] calculation show ?thesis by (rule trans[OF _ arg_cong])
qed

lemma alloc_kpages_page:
  assumes "kern_request k fs ss 1 vm" and "cm_size (vm_cm vm) \<le> 130048"
  shows "\<exists>p vm' fs' ss'. alloc_kpages 1 vm = Some (p, vm') \<and> vm_inv k {} fs' ss' vm' \<and> pages_kept vm vm' \<and> page_frame vm' p \<and>
    (\<forall>q. page_frame vm q \<longrightarrow> page_frame vm' q \<and> q \<noteq> p)"
proof -
  obtain f vm' fs' ss' where r: "cm_request_kframes 1 vm = Some (int f * 4096 + 2147483648, vm')" "vm_inv k {} fs' ss' vm'" "pages_kept vm vm'"
      "\<forall>j \<in> {f..<f + nat 1}. in_core j vm \<and> cd_kern (frame_at j vm) = 0 \<and> in_core j vm' \<and> no_page_in j vm'"
      "\<forall>i. in_core i vm \<longrightarrow> in_core i vm' \<and> cd_kern (frame_at i vm') =
         (if i \<in> {f..<f + nat 1} then if i = f \<and> f \<notin> set fs then 1 else 1 else cd_kern (frame_at i vm))"
    using cm_request_kframes_spec[OF assms(1)] by blast
  have f: "in_core f vm" "cd_kern (frame_at f vm) = 0" "in_core f vm'" "cd_kern (frame_at f vm') = 1" using r(4,5) by auto
  have "vm_inv k {} fs ss vm" using assms(1) by (simp add: kern_request_def)
  then have "cm_size (vm_cm vm) = int (length (core_details (vm_cm vm)))" using vm_inv_parts(3) by (fastforce simp: cm_wf_def)
  then have "int f < 130048" using f(1) assms(2) by (simp add: in_core_def)
  then have new: "page_frame vm' (int f * 4096 + 2147483648)" using f by (auto simp: page_frame_def)
  have old: "page_frame vm' q \<and> q \<noteq> int f * 4096 + 2147483648" if q: "page_frame vm q" for q
  proof -
    obtain g where g: "q = int g * 4096 + 2147483648" "q + 4096 < 4294967296" "in_core g vm" "cd_kern (frame_at g vm) = 1"
      using q by (auto simp: page_frame_def)
    then have "g \<noteq> f" using f(2) by auto
    then have "in_core g vm'" "cd_kern (frame_at g vm') = 1" using r(5) g(3,4) by auto
    then show ?thesis using g \<open>g \<noteq> f\<close> by (auto simp: page_frame_def)
  qed
  show ?thesis using r(1-3) new old unfolding alloc_kpages_def by blast
qed

text \<open>The heap can grow: the page allocator is up and has a frame, and there is room in the table of pages.\<close>

definition heap_ready :: "nat \<Rightarrow> nat list \<Rightarrow> nat list \<Rightarrow> nat list \<Rightarrow> kheap \<Rightarrow> bool" where
  "heap_ready k fs ss xs h \<longleftrightarrow> is_vm_setup (hram h) \<and> kern_request k fs ss 1 (hvm h) \<and> cm_size (vm_cm (hvm h)) \<le> 130048 \<and> (\<exists>i < 256. i \<notin> set xs)"

lemma heap_pages_vm:
  assumes "heap_pages xs fl h" and "\<And>q. page_frame (hvm h) q \<Longrightarrow> page_frame vm q"
  shows "heap_pages xs fl (h\<lparr>hvm := vm\<rparr>)"
  using assms by (simp add: heap_pages_def)

lemma live_blocks_new:
  assumes "q \<notin> set xs" and "bt h' q = b" and "b < 8" and "\<And>j. j \<in> set xs \<Longrightarrow> pg h' j = pg h j \<and> bt h' j = bt h j"
  shows "live_blocks (q # xs) (fl(q := all_offsets b)) h' = live_blocks xs fl h"
proof -
  have "\<not> (\<exists>a. a - pg h' q \<in> block_offsets (sizes ! bt h' q) \<and> a - pg h' q \<notin> set ((fl(q := all_offsets b)) q))"
    using all_offsets_facts(1)[OF assms(3)] assms(2) by simp
  moreover have "(fl(q := all_offsets b)) j = fl j" if "j \<in> set xs" for j using that assms(1) by auto
  ultimately show ?thesis unfolding live_blocks_def using assms(4) by (auto 4 3)
qed

lemma grow_allocated:
  assumes inv: "heap_inv xs ys fl h" and ready: "heap_ready k fs ss xs h" and b: "b < 8" "sz \<le> sizes ! b" "sizebases h ! b = base"
    and none: "find_page b base h = Some None" "blocktype sz = Some b"
  shows "\<exists>a s h' xs' ys' fl' fs' ss'. subpage_kmalloc sz h = Some (a, h') \<and> heap_inv xs' ys' fl' h' \<and> vm_inv k {} fs' ss' (hvm h') \<and>
    pages_kept (hvm h) (hvm h') \<and> hram h' = hram h \<and> allocated sz (live_blocks xs fl h) a s (live_blocks xs' fl' h')"
proof -
  have I: "heap_lists xs ys h" "heap_inuse xs h" "heap_pages xs fl h" using inv by (simp_all add: heap_inv_def)
  obtain q ws where q: "allocpageref h = Some (Some q, h\<lparr>pagerefs_inuse := ws\<rparr>)" "q < 256" "q \<notin> set xs" "length ws = 8"
      "heap_inuse (q # xs) (h\<lparr>pagerefs_inuse := ws\<rparr>)"
    using allocpageref_spec[OF I(2) heap_inv_length(4)[OF inv]] ready by (auto simp: heap_ready_def)
  obtain p vm fs' ss' where p: "alloc_kpages 1 (hvm h) = Some (p, vm)" "vm_inv k {} fs' ss' vm" "pages_kept (hvm h) vm" "page_frame vm p"
      "\<And>r. page_frame (hvm h) r \<Longrightarrow> page_frame vm r \<and> r \<noteq> p"
    using alloc_kpages_page[of k fs ss "hvm h"] ready by (auto simp: heap_ready_def)
  define h1 where "h1 = h\<lparr>pagerefs_inuse := ws, hvm := vm\<rparr>"
  have same: "pg h1 j = pg h j" "bt h1 j = bt h j" for j by (simp_all add: h1_def)
  have J: "heap_lists xs ys h1" "heap_inuse (q # xs) h1" "heap_pages xs fl h1" "page_frame (hvm h1) p" "p \<notin> pg h1 ` set xs"
    using I q(4,5) p(4,5) heap_inv_page(2)[OF inv] by (auto simp: h1_def heap_lists_def heap_inuse_def heap_pages_def)
  note N = newpage_spec[OF J(1,2,3) q(2,3) b(1) J(4,5)]
  let ?h = "newpage_heap q b p h1"
  define fl1 where "fl1 = fl(q := all_offsets b)"
  obtain x os where os: "fl1 q = x # os" using all_offsets_facts(4)[OF b(1)] by (auto simp: fl1_def)
  have live: "live_blocks (q # xs) fl1 ?h = live_blocks xs fl h"
    unfolding fl1_def using live_blocks_new[where h = h, OF q(3) N(4) b(1)] N(5) same by simp
  obtain a h' where a: "doalloc q ?h = Some (a, h')" "heap_inv (q # xs) (ys(b := q # ys b)) (fl1(q := os)) h'" "hvm h' = hvm ?h" "hram h' = hram ?h"
      "allocated sz (live_blocks (q # xs) fl1 ?h) a (sizes ! b) (live_blocks (q # xs) (fl1(q := os)) h')"
    using doalloc_allocated[OF N(2)[folded fl1_def] _ os, of sz] b(2) unfolding N(4) by (meson list.set_intros(1))
  have "p \<noteq> 0" using p(4) by (auto simp: page_frame_def)
  moreover have "load (Some (sizebases h)) (int b) = Some base" using heap_inv_length(3)[OF inv] b by simp
  ultimately have "subpage_kmalloc sz h = Some (a, h')"
    using none q(1) p(1) N(1) a(1) by (simp add: subpage_kmalloc_def h1_def)
  moreover have "hvm h' = vm" "hram h' = hram h" using a(3,4) by (simp_all add: newpage_heap_def h1_def)
  ultimately show ?thesis using a(2,5) p(2,3) unfolding live by blast
qed

lemma subpage_kmalloc_allocated:
  assumes inv: "heap_inv xs ys fl h" and ready: "heap_ready k fs ss xs h" and sz: "sz \<le> 2048"
  shows "\<exists>a s h' xs' ys' fl' fs' ss'. subpage_kmalloc sz h = Some (a, h') \<and> heap_inv xs' ys' fl' h' \<and> vm_inv k {} fs' ss' (hvm h') \<and>
    pages_kept (hvm h) (hvm h') \<and> hram h' = hram h \<and> allocated sz (live_blocks xs fl h) a s (live_blocks xs' fl' h')"
proof -
  obtain b where b: "blocktype sz = Some b" "b < 8" "sz \<le> sizes ! b" using blocktype_spec[OF sz] by blast
  have base: "load (Some (sizebases h)) (int b) = Some (sizebases h ! b)" using heap_inv_length(3)[OF inv] b(2) by simp
  note F = find_free_page[OF inv b(2)]
  show ?thesis
  proof (cases "find (\<lambda>i. fl i \<noteq> []) (ys b)")
    case None
    then show ?thesis using grow_allocated[OF inv ready b(2,3) refl _ b(1)] F by simp
  next
    case (Some i)
    then have i: "i \<in> set (ys b)" "fl i \<noteq> []" using find_Some_in by fastforce+
    then have x: "i \<in> set xs" "bt h i = b" using inv b(2) by (auto simp: heap_inv_def heap_lists_def)
    obtain x os where os: "fl i = x # os" using i(2) by (cases "fl i") auto
    from doalloc_allocated[OF inv x(1) os, of sz] b(3) x(2) obtain a h' where a: "doalloc i h = Some (a, h')" "heap_inv xs ys (fl(i := os)) h'" "hvm h' = hvm h"
        "hram h' = hram h" "allocated sz (live_blocks xs fl h) a (sizes ! b) (live_blocks xs (fl(i := os)) h')"
      by auto
    have "subpage_kmalloc sz h = Some (a, h')" using b(1) base F Some a(1) by (simp add: subpage_kmalloc_def)
    moreover have "vm_inv k {} fs ss (hvm h')" "pages_kept (hvm h) (hvm h')" using ready a(3) by (simp_all add: heap_ready_def kern_request_def pages_kept_refl)
    ultimately show ?thesis using a(2,4,5) by blast
  qed
qed

section \<open>Giving a block back\<close>

definition give_mem :: "nat \<Rightarrow> int \<Rightarrow> kheap \<Rightarrow> (int \<Rightarrow> int)" where
  "give_mem i x h = (fill_deadbeef (pg h i + x) (sizes ! bt h i) (hmem h))(pg h i + x :=
     (if freelist_offset (pagerefs h ! i) = 65535 then 0 else pg h i + freelist_offset (pagerefs h ! i)))"

definition give_back :: "nat \<Rightarrow> int \<Rightarrow> kheap \<Rightarrow> kheap" where
  "give_back i x h = h\<lparr>hmem := give_mem i x h, pagerefs := (pagerefs h)[i := (pagerefs h ! i)\<lparr>freelist_offset := x, nfree := nfree (pagerefs h ! i) + 1\<rparr>]\<rparr>"

lemma give_mem_other:
  assumes inv: "heap_inv xs ys fl h" and i: "i \<in> set xs" "x \<in> block_offsets (sizes ! bt h i)"
    and j: "j \<in> set xs" "y \<in> block_offsets (sizes ! bt h j)" and ne: "pg h j + y \<noteq> pg h i + x"
  shows "give_mem i x h (pg h j + y) = hmem h (pg h j + y)"
proof -
  have "sizes ! bt h i mod 4 = 0" by (rule sizes_mod4[OF heap_inv_bt[OF inv i(1)]])
  then have "sizes ! bt h i div 4 * 4 = sizes ! bt h i" by (metis add.right_neutral div_mult_mod_eq)
  moreover have "0 < sizes ! bt h j" by (rule sizes_facts(1)[OF heap_inv_bt[OF inv j(1)]])
  moreover have "pg h i + x + sizes ! bt h i \<le> pg h j + y \<or> pg h j + y + sizes ! bt h j \<le> pg h i + x"
    using live_blocks_apart[OF inv i(1) _ j(1), of "pg h i + x" "pg h j + y"] i(2) j(2) ne by simp
  ultimately have "\<not> (pg h i + x \<le> pg h j + y \<and> pg h j + y < pg h i + x + sizes ! bt h i div 4 * 4)" by linarith
  then show ?thesis using ne by (auto simp: give_mem_def fill_deadbeef_def)
qed

lemma give_back_room:
  assumes F: "free_list mem pr offs" and x: "x \<in> block_offsets (sizes ! nat (PR_BLOCKTYPE pr))" "x \<notin> set offs"
  shows "nfree pr + 1 \<le> 4096 div sizes ! nat (PR_BLOCKTYPE pr)"
    and "nfree pr + 1 = 4096 div sizes ! nat (PR_BLOCKTYPE pr) \<Longrightarrow> insert x (set offs) = block_offsets (sizes ! nat (PR_BLOCKTYPE pr))"
proof -
  let ?B = "block_offsets (sizes ! nat (PR_BLOCKTYPE pr))"
  have "PR_BLOCKTYPE pr < 8" using F by (simp add: free_list_def)
  then have b: "nat (PR_BLOCKTYPE pr) < 8" by linarith
  have c: "finite ?B" "int (card ?B) = 4096 div sizes ! nat (PR_BLOCKTYPE pr)" using card_block_offsets[OF b] by auto
  have s: "insert x (set offs) \<subseteq> ?B" "card (insert x (set offs)) = Suc (length offs)" "nfree pr = int (length offs)"
    using F x by (auto simp: free_list_def distinct_card)
  show "nfree pr + 1 \<le> 4096 div sizes ! nat (PR_BLOCKTYPE pr)" using card_mono[OF c(1) s(1)] s(2,3) c(2) by linarith
  show "insert x (set offs) = ?B" if "nfree pr + 1 = 4096 div sizes ! nat (PR_BLOCKTYPE pr)"
    using card_subset_eq[OF c(1) s(1)] s(2,3) c(2) that by linarith
qed

lemma give_back_inv:
  assumes inv: "heap_inv xs ys fl h" and i: "i \<in> set xs" and x: "x \<in> block_offsets (sizes ! bt h i)" "x \<notin> set (fl i)"
  shows "heap_inv xs ys (fl(i := x # fl i)) (give_back i x h)" and "pg (give_back i x h) j = pg h j" and "bt (give_back i x h) j = bt h j"
proof -
  let ?h = "give_back i x h" and ?pr = "(pagerefs h ! i)\<lparr>freelist_offset := x, nfree := nfree (pagerefs h ! i) + 1\<rparr>"
  have F: "free_list (hmem h) (pagerefs h ! i) (fl i)" by (rule heap_inv_page(1)[OF inv i])
  have keep: "give_mem i x h (pg h j + y) = hmem h (pg h j + y)" if "j \<in> set xs" "y \<in> set (fl j)" for j y
  proof (rule give_mem_other[OF inv i x(1) that(1)])
    show y: "y \<in> block_offsets (sizes ! bt h j)" using heap_inv_page(1)[OF inv that(1)] that(2) by (auto simp: free_list_def)
    show "pg h j + y \<noteq> pg h i + x"
    proof
      assume e: "pg h j + y = pg h i + x"
      have "pg h j = pg h i"
        using page_frame_unique[OF heap_inv_page(2)[OF inv that(1)] heap_inv_page(2)[OF inv i], of "pg h i + x"] e x(1) y by (simp add: block_offsets_def)
      then have "j = i" "y = x" using inv that(1) i e by (auto simp: heap_inv_def heap_pages_def dest: inj_onD)
      then show False using that(2) x(2) by simp
    qed
  qed
  have others: "fl_chain (hmem ?h) (pg h j) (fl j)" if "j \<in> set xs" for j
    using heap_inv_page(1)[OF inv that] fl_chain_cong[of "fl j" "hmem ?h" "pg h j" "hmem h"] keep[OF that] by (simp add: give_back_def free_list_def)
  have "give_mem i x h (pg h i + x) = (case fl i of [] \<Rightarrow> 0 | y # _ \<Rightarrow> pg h i + y)"
    using F by (cases "fl i") (auto simp: give_mem_def free_list_def block_offsets_def)
  then have "free_list (hmem ?h) ?pr (x # fl i)"
    using F x others[OF i] by (auto simp: free_list_def give_back_def PR_BLOCKTYPE_def PR_PAGEADDR_def split: list.splits)
  from heap_inv_change[OF inv i _ _ _ _ _ _ _ _ this] others
  show "heap_inv xs ys (fl(i := x # fl i)) ?h" "pg ?h j = pg h j" "bt ?h j = bt h j" by (simp_all add: give_back_def)
qed

lemma live_blocks_give:
  assumes inv: "heap_inv xs ys fl h" and i: "i \<in> set xs" and x: "x \<in> block_offsets (sizes ! bt h i)" "x \<notin> set (fl i)"
    and same: "\<And>j. pg h' j = pg h j" "\<And>j. bt h' j = bt h j"
  shows "live_blocks xs (fl(i := x # fl i)) h' = live_blocks xs fl h - {(pg h i + x, sizes ! bt h i)}"
proof (intro set_eqI)
  fix z :: "int \<times> int"
  obtain a s where z: "z = (a, s)" by (cases z)
  have "(a, s) \<in> live_blocks xs (fl(i := x # fl i)) h' \<longleftrightarrow>
      (\<exists>j \<in> set xs. s = sizes ! bt h j \<and> a - pg h j \<in> block_offsets s \<and> a - pg h j \<notin> set (fl j) \<and> \<not> (j = i \<and> a = pg h i + x))"
    unfolding live_blocks_def same by auto
  also have "\<dots> \<longleftrightarrow> (a, s) \<in> live_blocks xs fl h \<and> \<not> (a = pg h i + x \<and> s = sizes ! bt h i)"
  proof
    assume "\<exists>j \<in> set xs. s = sizes ! bt h j \<and> a - pg h j \<in> block_offsets s \<and> a - pg h j \<notin> set (fl j) \<and> \<not> (j = i \<and> a = pg h i + x)"
    then obtain j where j: "j \<in> set xs" "s = sizes ! bt h j" "a - pg h j \<in> block_offsets s" "a - pg h j \<notin> set (fl j)" "\<not> (j = i \<and> a = pg h i + x)" by blast
    have "a \<noteq> pg h i + x"
    proof
      assume e: "a = pg h i + x"
      then have "pg h j = pg h i"
        using page_frame_unique[OF heap_inv_page(2)[OF inv j(1)] heap_inv_page(2)[OF inv i], of a] j(3) x(1) by (simp add: block_offsets_def)
      then have "j = i" using inv j(1) i by (auto simp: heap_inv_def heap_pages_def dest: inj_onD)
      with j(5) e show False by simp
    qed
    with j show "(a, s) \<in> live_blocks xs fl h \<and> \<not> (a = pg h i + x \<and> s = sizes ! bt h i)" unfolding live_blocks_def by blast
  next
    assume "(a, s) \<in> live_blocks xs fl h \<and> \<not> (a = pg h i + x \<and> s = sizes ! bt h i)"
    then show "\<exists>j \<in> set xs. s = sizes ! bt h j \<and> a - pg h j \<in> block_offsets s \<and> a - pg h j \<notin> set (fl j) \<and> \<not> (j = i \<and> a = pg h i + x)"
      unfolding live_blocks_def by blast
  qed
  finally show "z \<in> live_blocks xs (fl(i := x # fl i)) h' \<longleftrightarrow> z \<in> live_blocks xs fl h - {(pg h i + x, sizes ! bt h i)}" by (simp add: z)
qed

text \<open>A page all of whose blocks are free leaves the heap.\<close>

lemma same_but_parts:
  assumes "same_but (\<lambda>g pr. pr\<lparr>next_samesize := g\<rparr>) A prs prs1" and "same_but (\<lambda>g pr. pr\<lparr>next_all := g\<rparr>) B prs1 prs2" and "j < length prs"
  shows "length prs2 = length prs" and "next_samesize (prs2 ! j) = next_samesize (prs1 ! j)" and "next_all (prs1 ! j) = next_all (prs ! j)"
    and "pageaddr_and_blocktype (prs2 ! j) = pageaddr_and_blocktype (prs ! j)" and "nfree (prs2 ! j) = nfree (prs ! j)"
    and "freelist_offset (prs2 ! j) = freelist_offset (prs ! j)" and "j \<notin> A \<Longrightarrow> next_samesize (prs1 ! j) = next_samesize (prs ! j)"
proof -
  have l: "length prs1 = length prs" "length prs2 = length prs1" using assms(1,2) by (simp_all add: same_but_def)
  have "prs1 ! j = prs ! j \<or> j \<in> A \<and> (\<exists>g. prs1 ! j = (prs ! j)\<lparr>next_samesize := g\<rparr>)" using assms(1,3) by (simp add: same_but_def)
  moreover have "prs2 ! j = prs1 ! j \<or> (\<exists>g. prs2 ! j = (prs1 ! j)\<lparr>next_all := g\<rparr>)" using assms(2,3) l by (auto simp: same_but_def)
  ultimately show "length prs2 = length prs" "next_samesize (prs2 ! j) = next_samesize (prs1 ! j)" "next_all (prs1 ! j) = next_all (prs ! j)"
    "pageaddr_and_blocktype (prs2 ! j) = pageaddr_and_blocktype (prs ! j)" "nfree (prs2 ! j) = nfree (prs ! j)"
    "freelist_offset (prs2 ! j) = freelist_offset (prs ! j)" "j \<notin> A \<Longrightarrow> next_samesize (prs1 ! j) = next_samesize (prs ! j)"
    using l by auto
qed

lemma remove_lists_spec:
  assumes L: "heap_lists xs ys h" and i: "i \<in> set xs" and b: "PR_BLOCKTYPE (pagerefs h ! i) < 8"
  shows "\<exists>h'. remove_lists i (PR_BLOCKTYPE (pagerefs h ! i)) h = Some h' \<and> heap_lists (remove1 i xs) (\<lambda>b. remove1 i (ys b)) h' \<and>
    pagerefs_inuse h' = pagerefs_inuse h \<and> hmem h' = hmem h \<and> hvm h' = hvm h \<and> hram h' = hram h \<and>
    (\<forall>j < 256. pageaddr_and_blocktype (pagerefs h' ! j) = pageaddr_and_blocktype (pagerefs h ! j) \<and>
       nfree (pagerefs h' ! j) = nfree (pagerefs h ! j) \<and> freelist_offset (pagerefs h' ! j) = freelist_offset (pagerefs h ! j))"
proof -
  let ?b = "bt h i" and ?prs = "pagerefs h"
  have bb: "?b < 8" "int ?b = PR_BLOCKTYPE (?prs ! i)" using b by (simp_all add: nat_less_iff)
  have D: "length ?prs = 256" "length (sizebases h) = 8" "distinct xs" "\<forall>i \<in> set xs. i < 256"
      "chain (\<lambda>i. next_all (?prs ! i)) (allbase h) xs"
    and S: "\<And>b. b < 8 \<Longrightarrow> chain (\<lambda>i. next_samesize (?prs ! i)) (sizebases h ! b) (ys b) \<and> distinct (ys b) \<and> set (ys b) = {i \<in> set xs. bt h i = b}"
    using L by (simp_all add: heap_lists_def)
  have y: "\<forall>j \<in> set (ys ?b). j < length ?prs" using S[OF bb(1)] D(1,4) by auto
  obtain g prs1 where 1: "unlink next_samesize (\<lambda>g pr. pr\<lparr>next_samesize := g\<rparr>) i (sizebases h ! ?b) ?prs = Some (g, prs1)"
      "chain (\<lambda>i. next_samesize (prs1 ! i)) g (remove1 i (ys ?b))" "same_but (\<lambda>g pr. pr\<lparr>next_samesize := g\<rparr>) (set (ys ?b)) ?prs prs1"
    using unlink_spec[of next_samesize "\<lambda>g pr. pr\<lparr>next_samesize := g\<rparr>" ?prs "sizebases h ! ?b" "ys ?b" i] S[OF bb(1)] y by auto
  have l1: "length prs1 = 256" using 1(3) D(1) by (simp add: same_but_def)
  have "next_all (prs1 ! j) = next_all (?prs ! j)" if "j < 256" for j using 1(3) that D(1) by (auto simp: same_but_def)
  then have "chain (\<lambda>i. next_all (prs1 ! i)) (allbase h) xs"
    using D(4,5) chain_cong[of xs "\<lambda>i. next_all (prs1 ! i)" "\<lambda>i. next_all (?prs ! i)"] by simp
  then obtain a prs2 where 2: "unlink next_all (\<lambda>g pr. pr\<lparr>next_all := g\<rparr>) i (allbase h) prs1 = Some (a, prs2)"
      "chain (\<lambda>i. next_all (prs2 ! i)) a (remove1 i xs)" "same_but (\<lambda>g pr. pr\<lparr>next_all := g\<rparr>) (set xs) prs1 prs2"
    using unlink_spec[of next_all "\<lambda>g pr. pr\<lparr>next_all := g\<rparr>" prs1 "allbase h" xs i] D(3,4) l1 by auto
  note P = same_but_parts[OF 1(3) 2(3), unfolded D(1)]
  let ?h = "h\<lparr>pagerefs := prs2, sizebases := (sizebases h)[?b := g], allbase := a\<rparr>"
  have run: "remove_lists i (PR_BLOCKTYPE (?prs ! i)) h = Some ?h"
    using 1(1) 2(1) D(2) bb b by (simp add: remove_lists_def load_def)
  have lists: "chain (\<lambda>j. next_samesize (prs2 ! j)) ((sizebases h)[?b := g] ! b) (remove1 i (ys b)) \<and> distinct (remove1 i (ys b)) \<and>
      set (remove1 i (ys b)) = {j \<in> set (remove1 i xs). bt ?h j = b}" if b: "b < 8" for b
  proof (intro conjI)
    note Sb = S[OF b]
    show "distinct (remove1 i (ys b))" using Sb by simp
    have small: "j < 256" if "j \<in> set xs" for j using D(4) that by blast
    have same: "bt ?h j = bt h j" if "j \<in> set xs" for j using P(4)[OF small[OF that]] by (simp add: PR_BLOCKTYPE_def)
    show "set (remove1 i (ys b)) = {j \<in> set (remove1 i xs). bt ?h j = b}" using Sb D(3) same by auto
    have sub: "set (remove1 i (ys b)) \<subseteq> set xs" using Sb set_remove1_subset by fastforce
    have c: "chain (\<lambda>j. next_samesize (prs1 ! j)) ((sizebases h)[?b := g] ! b) (remove1 i (ys b))"
    proof (cases "b = ?b")
      case True
      then show ?thesis using 1(2) D(2) bb(1) by simp
    next
      case False
      have "i \<notin> set (ys b)" using Sb False by auto
      moreover have "next_samesize (prs1 ! j) = next_samesize (?prs ! j)" if "j \<in> set (ys b)" for j
        using P(7)[of j] Sb S[OF bb(1)] that small False by auto
      ultimately show ?thesis using Sb chain_cong[of "ys b" "\<lambda>j. next_samesize (prs1 ! j)" "\<lambda>j. next_samesize (?prs ! j)"] False
        by (simp add: remove1_idem)
    qed
    have "next_samesize (prs2 ! j) = next_samesize (prs1 ! j)" if "j \<in> set (remove1 i (ys b))" for j
      using P(2)[OF small] sub that by blast
    with c show "chain (\<lambda>j. next_samesize (prs2 ! j)) ((sizebases h)[?b := g] ! b) (remove1 i (ys b))"
      using chain_cong[of "remove1 i (ys b)" "\<lambda>j. next_samesize (prs2 ! j)" "\<lambda>j. next_samesize (prs1 ! j)"] by blast
  qed
  have "heap_lists (remove1 i xs) (\<lambda>b. remove1 i (ys b)) ?h"
    unfolding heap_lists_def using lists 2(2) D L P(1)[of 0] set_remove1_subset[of i xs] by (auto simp: heap_lists_def)
  then show ?thesis using run P(4-6) by (intro exI[of _ ?h]) simp
qed

lemma freepageref_spec:
  assumes U: "heap_inuse xs h" and len: "length (pagerefs_inuse h) = 8" and i: "i \<in> set xs" "i < 256" and d: "distinct xs"
  shows "\<exists>ws. freepageref i h = Some (h\<lparr>pagerefs_inuse := ws\<rparr>) \<and> length ws = 8 \<and> heap_inuse (remove1 i xs) (h\<lparr>pagerefs_inuse := ws\<rparr>)"
proof -
  let ?w = "pagerefs_inuse h ! (i div 32)"
  let ?ws = "(pagerefs_inuse h)[i div 32 := unset_bit (i mod 32) ?w]"
  have k: "i div 32 < 8" using i(2) by (simp add: less_mult_imp_div_less)
  have run: "freepageref i h = Some (h\<lparr>pagerefs_inuse := ?ws\<rparr>)" using U i k len by (simp add: freepageref_def heap_inuse_def)
  have "bit (?ws ! (m div 32)) (m mod 32) \<longleftrightarrow> m \<in> set (remove1 i xs)" if m: "m < 256" for m
  proof -
    have "m = i" if "m div 32 = i div 32" "m mod 32 = i mod 32" using that by (metis div_mult_mod_eq)
    moreover have "bit (pagerefs_inuse h ! (m div 32)) (m mod 32) \<longleftrightarrow> m \<in> set xs" using U m by (simp add: heap_inuse_def)
    ultimately show ?thesis using k len d by (auto simp: nth_list_update bit_unset_bit_iff)
  qed
  then have "heap_inuse (remove1 i xs) (h\<lparr>pagerefs_inuse := ?ws\<rparr>)" by (simp add: heap_inuse_def)
  with run show ?thesis using len by (intro exI[of _ ?ws]) simp
qed

lemma page_frame_freed:
  assumes "page_frame vm q" and "q \<noteq> int f * 4096 + 2147483648" and "\<forall>j. in_core j vm' = in_core j vm"
    and "\<forall>j. in_core j vm \<and> j \<noteq> f \<longrightarrow> cd_kern (frame_at j vm') = cd_kern (frame_at j vm)"
  shows "page_frame vm' q"
  using assms unfolding page_frame_def by metis

definition drop_page :: "nat \<Rightarrow> kheap \<Rightarrow> kheap option" where
  "drop_page i h = do {
     h2 \<leftarrow> remove_lists i (PR_BLOCKTYPE (pagerefs h ! i)) h;
     vm \<leftarrow> free_kpages (pg h i) (hvm h2);
     freepageref i (h2\<lparr>hvm := vm\<rparr>)
   }"

lemma drop_page_spec:
  assumes inv: "heap_inv xs ys fl h" and i: "i \<in> set xs" and vm: "vm_inv k {} fs ss (hvm h)"
  shows "\<exists>h' fs'. drop_page i h = Some h' \<and> heap_inv (remove1 i xs) (\<lambda>b. remove1 i (ys b)) fl h' \<and> vm_inv k {} fs' ss (hvm h') \<and>
    pages_kept (hvm h) (hvm h') \<and> hram h' = hram h \<and> (\<forall>j \<in> set xs. pg h' j = pg h j \<and> bt h' j = bt h j)"
proof -
  have I: "heap_lists xs ys h" "heap_inuse xs h" "heap_pages xs fl h" and d: "distinct xs" using inv by (simp_all add: heap_inv_def heap_lists_def)
  have "PR_BLOCKTYPE (pagerefs h ! i) < 8" using heap_inv_page(1)[OF inv i] by (simp add: free_list_def)
  from remove_lists_spec[OF I(1) i this] obtain h2 where 2: "remove_lists i (PR_BLOCKTYPE (pagerefs h ! i)) h = Some h2"
      "heap_lists (remove1 i xs) (\<lambda>b. remove1 i (ys b)) h2" "pagerefs_inuse h2 = pagerefs_inuse h" "hmem h2 = hmem h" "hvm h2 = hvm h" "hram h2 = hram h"
      "\<And>j. j < 256 \<Longrightarrow> pageaddr_and_blocktype (pagerefs h2 ! j) = pageaddr_and_blocktype (pagerefs h ! j) \<and>
         nfree (pagerefs h2 ! j) = nfree (pagerefs h ! j) \<and> freelist_offset (pagerefs h2 ! j) = freelist_offset (pagerefs h ! j)"
    by blast
  obtain f where f: "pg h i = int f * 4096 + 2147483648" "in_core f (hvm h)" "cd_kern (frame_at f (hvm h)) = 1"
    using heap_inv_page(2)[OF inv i] by (auto simp: page_frame_def)
  obtain vm' where v: "free_kpages (pg h i) (hvm h) = Some vm'" "vm_inv k {} (fs @ [f]) ss vm'" "pages_kept (hvm h) vm'"
      "\<forall>j. in_core j vm' = in_core j (hvm h)" "\<forall>j. in_core j (hvm h) \<and> j \<noteq> f \<longrightarrow> cd_kern (frame_at j vm') = cd_kern (frame_at j (hvm h))"
    using free_kpages_inv[OF vm f(2,3)] unfolding f(1) by blast
  have U: "heap_inuse xs (h2\<lparr>hvm := vm'\<rparr>)" "length (pagerefs_inuse (h2\<lparr>hvm := vm'\<rparr>)) = 8"
    using I(2) 2(3) heap_inv_length(4)[OF inv] by (simp_all add: heap_inuse_def)
  from freepageref_spec[OF U i heap_inv_length(2)[OF inv i] d] obtain ws where
    w: "freepageref i (h2\<lparr>hvm := vm'\<rparr>) = Some (h2\<lparr>hvm := vm', pagerefs_inuse := ws\<rparr>)" "length ws = 8" "heap_inuse (remove1 i xs) (h2\<lparr>hvm := vm', pagerefs_inuse := ws\<rparr>)"
    by auto
  let ?h = "h2\<lparr>hvm := vm', pagerefs_inuse := ws\<rparr>"
  have same: "pg ?h j = pg h j" "PR_BLOCKTYPE (pagerefs ?h ! j) = PR_BLOCKTYPE (pagerefs h ! j)" if "j \<in> set xs" for j
    using 2(7)[OF heap_inv_length(2)[OF inv that]] by (simp_all add: PR_PAGEADDR_def PR_BLOCKTYPE_def)
  have inj: "inj_on (pg h) (set xs)" using I(3) by (simp add: heap_pages_def)
  have "heap_pages (remove1 i xs) fl ?h"
    unfolding heap_pages_def
  proof (intro conjI ballI)
    fix j assume "j \<in> set (remove1 i xs)"
    then have j: "j \<in> set xs" "j \<noteq> i" using d by auto
    show "free_list (hmem ?h) (pagerefs ?h ! j) (fl j)"
      using heap_inv_page(1)[OF inv j(1)] 2(7)[OF heap_inv_length(2)[OF inv j(1)]] same[OF j(1)] unfolding free_list_def by (simp add: 2(4))
    have "pg h j \<noteq> pg h i" using inj j i by (auto dest: inj_onD)
    then show "page_frame (hvm ?h) (pg ?h j)" unfolding same(1)[OF j(1)]
      using page_frame_freed[OF heap_inv_page(2)[OF inv j(1)] _ v(4,5)] f(1) by simp
  next
    show "inj_on (pg ?h) (set (remove1 i xs))" using inj same(1) d by (auto simp: inj_on_def)
  qed
  moreover have "heap_lists (remove1 i xs) (\<lambda>b. remove1 i (ys b)) ?h" using 2(2) w(2) by (simp add: heap_lists_def)
  ultimately have "heap_inv (remove1 i xs) (\<lambda>b. remove1 i (ys b)) fl ?h" using w(3) by (simp add: heap_inv_def)
  moreover have "drop_page i h = Some ?h" using 2(1,5) v(1) w(1) by (simp add: drop_page_def)
  ultimately show ?thesis using v(2,3) same 2(6) by (intro exI[of _ ?h] exI[of _ "fs @ [f]"]) simp
qed

lemma live_blocks_drop:
  assumes "distinct xs" and "set (fl i) = block_offsets (sizes ! bt h i)" and same: "\<And>j. j \<in> set xs \<Longrightarrow> pg h' j = pg h j \<and> bt h' j = bt h j"
  shows "live_blocks (remove1 i xs) fl h' = live_blocks xs fl h"
proof -
  have in_it: "j \<in> set (remove1 i xs) \<longleftrightarrow> j \<in> set xs \<and> j \<noteq> i" for j using assms(1) by auto
  have "(a, s) \<in> live_blocks (remove1 i xs) fl h' \<longleftrightarrow> (a, s) \<in> live_blocks xs fl h" for a s
    unfolding live_blocks_def in_it mem_Collect_eq case_prod_conv Bex_def using assms(2) same by metis
  then show ?thesis by auto
qed

lemma page_holding_spec:
  assumes inv: "heap_inv xs ys fl h" and i: "i \<in> set xs" and a: "0 \<le> a - pg h i" "a - pg h i < 4096"
  shows "page_holding a (allbase h) h = Some (Some i)"
proof -
  have bound: "u32 (pg h j + 4096) = pg h j + 4096" if "j \<in> set xs" for j
  proof -
    have "0 \<le> pg h j" "pg h j + 4096 < 4294967296" using heap_inv_page(2)[OF inv that] unfolding page_frame_def by auto
    then show ?thesis by (simp add: u32_def)
  qed
  have only: "j = i" if "j \<in> set xs" "pg h j \<le> a \<and> a < u32 (pg h j + 4096)" for j
  proof -
    have "pg h j = pg h i"
      using page_frame_unique[OF heap_inv_page(2)[OF inv that(1)] heap_inv_page(2)[OF inv i], of a] a that bound[OF that(1)] by simp
    then show ?thesis using inv that(1) i by (auto simp: heap_inv_def heap_pages_def dest: inj_onD)
  qed
  have "pg h i \<le> a \<and> a < u32 (pg h i + 4096)" using a bound[OF i] by simp
  then have "find (\<lambda>j. pg h j \<le> a \<and> a < u32 (pg h j + 4096)) xs \<noteq> None" using i unfolding find_None_iff by blast
  then obtain j where j: "find (\<lambda>j. pg h j \<le> a \<and> a < u32 (pg h j + 4096)) xs = Some j" by blast
  then have "j = i" using only find_Some_in[OF j] by blast
  moreover have "chain (\<lambda>i. next_all (pagerefs h ! i)) (allbase h) xs" using inv by (simp add: heap_inv_def heap_lists_def)
  moreover have "\<forall>i \<in> set xs. i < length (pagerefs h) \<and> 0 \<le> PR_BLOCKTYPE (pagerefs h ! i) \<and> PR_BLOCKTYPE (pagerefs h ! i) < 8"
    using heap_inv_length(1,2)[OF inv] heap_inv_page(1)[OF inv] by (simp add: free_list_def)
  ultimately show ?thesis using page_holding_chain[of h "allbase h" xs a] j by simp
qed

lemma pageref_parts [simp]:
  "PR_PAGEADDR (pr\<lparr>freelist_offset := x, nfree := n\<rparr>) = PR_PAGEADDR pr" "PR_BLOCKTYPE (pr\<lparr>freelist_offset := x, nfree := n\<rparr>) = PR_BLOCKTYPE pr"
  by (simp_all add: PR_PAGEADDR_def PR_BLOCKTYPE_def)

lemma subpage_kfree_eq:
  assumes inv: "heap_inv xs ys fl h" and i: "i \<in> set xs" and x: "x \<in> block_offsets (sizes ! bt h i)" "x \<notin> set (fl i)"
  shows "subpage_kfree (pg h i + x) h =
    (if nfree (pagerefs h ! i) + 1 = 4096 div sizes ! bt h i then map_option Some (drop_page i (give_back i x h)) else Some (Some (give_back i x h)))"
proof -
  have len: "i < length (pagerefs h)" using heap_inv_length(1,2)[OF inv] i by simp
  have "page_holding (pg h i + x) (allbase h) h = Some (Some i)" using page_holding_spec[OF inv i, of "pg h i + x"] x(1) by (simp add: block_offsets_def)
  moreover have "x < 4096" "x mod sizes ! bt h i = 0" using x(1) by (simp_all add: block_offsets_def)
  moreover have "nfree (pagerefs h ! i) + 1 \<le> 4096 div sizes ! bt h i" by (rule give_back_room(1)[OF heap_inv_page(1)[OF inv i] x])
  ultimately show ?thesis using len
    by (simp add: subpage_kfree_def drop_page_def upd_pr_def get_pr_Some give_mem_def[symmetric] give_back_def map_conv_bind_option o_def Let_def)
qed

lemma subpage_kfree_spec:
  assumes inv: "heap_inv xs ys fl h" and vm: "vm_inv k {} fs ss (hvm h)" and live: "(a, s) \<in> live_blocks xs fl h"
  shows "\<exists>h' xs' ys' fl' fs'. subpage_kfree a h = Some (Some h') \<and> heap_inv xs' ys' fl' h' \<and> vm_inv k {} fs' ss (hvm h') \<and>
    pages_kept (hvm h) (hvm h') \<and> hram h' = hram h \<and> live_blocks xs' fl' h' = live_blocks xs fl h - {(a, s)}"
proof -
  obtain i where i: "i \<in> set xs" "s = sizes ! bt h i" "a - pg h i \<in> block_offsets s" "a - pg h i \<notin> set (fl i)"
    using live by (auto simp: live_blocks_def)
  define x where "x = a - pg h i"
  have a: "a = pg h i + x" and x: "x \<in> block_offsets (sizes ! bt h i)" "x \<notin> set (fl i)" using i by (simp_all add: x_def)
  define fl1 where "fl1 = fl(i := x # fl i)"
  let ?h = "give_back i x h"
  note G = give_back_inv[OF inv i(1) x] and E = subpage_kfree_eq[OF inv i(1) x]
  have inv1: "heap_inv xs ys fl1 ?h" using G(1) by (simp add: fl1_def)
  have l1: "live_blocks xs fl1 ?h = live_blocks xs fl h - {(a, s)}"
    unfolding fl1_def a i(2) by (rule live_blocks_give[OF inv i(1) x G(2,3)])
  have same: "hvm ?h = hvm h" "hram ?h = hram h" by (simp_all add: give_back_def)
  show ?thesis
  proof (cases "nfree (pagerefs h ! i) + 1 = 4096 div sizes ! bt h i")
    case False
    then show ?thesis using E inv1 vm l1 same pages_kept_refl unfolding a[symmetric] by (intro exI[of _ ?h] exI[of _ xs] exI[of _ ys] exI[of _ fl1] exI[of _ fs]) simp
  next
    case True
    obtain h' fs' where d: "drop_page i ?h = Some h'" "heap_inv (remove1 i xs) (\<lambda>b. remove1 i (ys b)) fl1 h'" "vm_inv k {} fs' ss (hvm h')"
        "pages_kept (hvm ?h) (hvm h')" "hram h' = hram ?h" "\<forall>j \<in> set xs. pg h' j = pg ?h j \<and> bt h' j = bt ?h j"
      using drop_page_spec[OF inv1 i(1), of k fs ss] vm unfolding same by blast
    have "set (fl1 i) = block_offsets (sizes ! bt ?h i)"
      using give_back_room(2)[OF heap_inv_page(1)[OF inv i(1)] x True] unfolding G(3) by (simp add: fl1_def)
    then have "live_blocks (remove1 i xs) fl1 h' = live_blocks xs fl1 ?h"
      using live_blocks_drop[of xs fl1 i ?h h'] d(6) inv by (simp add: heap_inv_def heap_lists_def)
    moreover have "subpage_kfree a h = Some (Some h')" using E True d(1) by (simp add: a)
    ultimately show ?thesis using d(2-5) l1 unfolding same by metis
  qed
qed

section \<open>An empty heap\<close>

definition demo_heap :: kheap where
  "demo_heap = \<lparr>pagerefs = replicate 256 \<lparr>next_samesize = None, next_all = None, pageaddr_and_blocktype = 0, freelist_offset = 0, nfree = 0\<rparr>,
     pagerefs_inuse = replicate 8 0, sizebases = replicate 8 None, allbase = None, hmem = (\<lambda>_. 0), hvm = demo_free_vm,
     hram = \<lparr>firstpaddr = 0, lastpaddr = 0, first_vm_addr = 0\<rparr>\<rparr>"

lemma demo_heap_inv: "heap_inv [] (\<lambda>_. []) (\<lambda>_. []) demo_heap"
  by (simp add: heap_inv_def heap_lists_def heap_inuse_def heap_pages_def demo_heap_def less_mult_imp_div_less)

lemma demo_heap_ready: "heap_ready 1 [1, 2] [1, 2] [] demo_heap"
proof -
  have "kern_free_run 1 1 (vm_cm demo_free_vm)" by (auto simp: kern_free_run_def demo_free_vm_def demo_cd_def nth_Cons split: nat.splits)
  then have "kern_request 1 [1, 2] [1, 2] 1 demo_free_vm"
    unfolding kern_request_def using demo_free_inv by (auto intro!: exI[of _ 1]) (simp_all add: demo_free_vm_def)
  moreover have "cm_size (vm_cm demo_free_vm) \<le> 130048" by (simp add: demo_free_vm_def)
  moreover have "\<exists>i :: nat. i < 256" by (rule exI[of _ 0]) simp
  ultimately show ?thesis by (simp add: heap_ready_def demo_heap_def is_vm_setup_def)
qed

section \<open>Properties\<close>

text \<open>
  C37. \<^verbatim>\<open>kmalloc\<close> of less than 2048 bytes hands out fresh memory: when the page allocator has a frame left and the
  table of pages an entry, the call returns a block that is large enough and overlaps no block handed out before,
  every other block stays handed out, and the heap keeps its invariant (both lists of pages, the marks of used
  entries, and in each page a list of distinct free blocks of the counted length). This holds whether a page with a
  free block is found or a new one is cut up, and no page of a process is lost by getting the frame.
\<close>

theorem kmalloc_correct:
  assumes "heap_inv xs ys fl h" and "heap_ready k fs ss xs h" and "sz < 2048"
  shows "\<exists>a s h' xs' ys' fl' fs' ss'. kmalloc sz h = Some (a, h') \<and> heap_inv xs' ys' fl' h' \<and> vm_inv k {} fs' ss' (hvm h') \<and>
    pages_kept (hvm h) (hvm h') \<and> sz \<le> s \<and> live_blocks xs' fl' h' = insert (a, s) (live_blocks xs fl h) \<and>
    (\<forall>(a', s') \<in> live_blocks xs fl h. a + s \<le> a' \<or> a' + s' \<le> a)"
proof -
  have e: "kmalloc sz h = subpage_kmalloc sz h" using assms(2,3) by (simp add: kmalloc_def heap_ready_def)
  show ?thesis unfolding e using subpage_kmalloc_allocated[OF assms(1,2) less_imp_le[OF assms(3)]] unfolding allocated_def by blast
qed

theorem kmalloc_correct_witness:
  "\<exists>a s h' xs' fl'. kmalloc 100 demo_heap = Some (a, h') \<and> 100 \<le> s \<and> live_blocks xs' fl' h' = {(a, s)}"
proof -
  have le: "(100 :: int) < 2048" by simp
  have "live_blocks [] (\<lambda>_. []) demo_heap = {}" by (simp add: live_blocks_def)
  then show ?thesis using kmalloc_correct[OF demo_heap_inv demo_heap_ready le] by (metis (no_types))
qed

text \<open>
  C38. \<^verbatim>\<open>kfree\<close> gives back exactly one block: freeing a block that is handed out returns, keeps the invariant of the
  heap, takes that block and no other from the blocks handed out, and leaves the pages of the processes as they are.
  When it was the last block of its page, the page leaves both lists, its entry in the table becomes free, and the
  frame goes back to the page allocator.
\<close>

theorem kfree_correct:
  assumes "heap_inv xs ys fl h" and "vm_inv k {} fs ss (hvm h)" and "(a, s) \<in> live_blocks xs fl h"
  shows "\<exists>h' xs' ys' fl' fs'. kfree a h = Some h' \<and> heap_inv xs' ys' fl' h' \<and> vm_inv k {} fs' ss (hvm h') \<and>
    pages_kept (hvm h) (hvm h') \<and> live_blocks xs' fl' h' = live_blocks xs fl h - {(a, s)}"
proof -
  obtain i where "i \<in> set xs" "0 \<le> a - pg h i" using assms(3) by (auto simp: live_blocks_def block_offsets_def)
  then have "a \<noteq> 0" using heap_inv_page(2)[OF assms(1)] by (fastforce simp: page_frame_def)
  moreover obtain h' xs' ys' fl' fs' where "subpage_kfree a h = Some (Some h')" "heap_inv xs' ys' fl' h'" "vm_inv k {} fs' ss (hvm h')"
      "pages_kept (hvm h) (hvm h')" "live_blocks xs' fl' h' = live_blocks xs fl h - {(a, s)}"
    using subpage_kfree_spec[OF assms] by blast
  ultimately have "kfree a h = Some h'" by (simp add: kfree_def)
  with \<open>heap_inv xs' ys' fl' h'\<close> \<open>vm_inv k {} fs' ss (hvm h')\<close> \<open>pages_kept (hvm h) (hvm h')\<close> \<open>live_blocks xs' fl' h' = live_blocks xs fl h - {(a, s)}\<close>
  show ?thesis by blast
qed

theorem kfree_correct_witness:
  "\<exists>a h1 h2 xs fl. kmalloc 100 demo_heap = Some (a, h1) \<and> kfree a h1 = Some h2 \<and> live_blocks xs fl h2 = {}"
proof -
  have le: "(100 :: int) \<le> 2048" by simp
  have "kmalloc 100 demo_heap = subpage_kmalloc 100 demo_heap" using demo_heap_ready by (simp add: kmalloc_def heap_ready_def)
  moreover obtain a s h1 xs ys fl fs ss where 1: "subpage_kmalloc 100 demo_heap = Some (a, h1)" "heap_inv xs ys fl h1" "vm_inv 1 {} fs ss (hvm h1)"
      "allocated 100 (live_blocks [] (\<lambda>_. []) demo_heap) a s (live_blocks xs fl h1)"
    using subpage_kmalloc_allocated[OF demo_heap_inv demo_heap_ready le] by blast
  moreover have l: "live_blocks xs fl h1 = {(a, s)}" using 1(4) by (simp add: allocated_def live_blocks_def[of "[]"])
  moreover have "(a, s) \<in> live_blocks xs fl h1" unfolding l by simp
  from kfree_correct[OF 1(2,3) this] obtain h2 xs' fl' where "kfree a h1 = Some h2" "live_blocks xs' fl' h2 = live_blocks xs fl h1 - {(a, s)}"
    by blast
  ultimately show ?thesis by (intro exI[of _ a] exI[of _ h1] exI[of _ h2] exI[of _ xs'] exI[of _ fl']) simp
qed

end
