(* ===== verification/Disk.thy ===== *)
theory Disk
  imports Uio
begin

text \<open>
  Disk blocks: the driver of the disk (\<^verbatim>\<open>kern/dev/lamebus/lhd.c\<close>) and the block operations of SFS on top of it
  (\<^verbatim>\<open>kern/fs/sfs/sfs_io.c\<close>).

  \<open>lh_outcome n\<close> is how the \<open>n\<close>-th operation of the hardware ends: the state it leaves in the status register
  and, for one that does not end with \<open>LHD_OK\<close>, the bytes it leaves in the sector (of a write) or in the buffer on
  the card (of a read), about which nothing is assumed. The semaphores are their counts: the driver is seen while no
  other thread uses the disk, and a \<open>P\<close> that would wait for one does not return. The interrupt is raised when the
  operation is over, which is before the driver waits for it or while it does.
\<close>

section \<open>Model of the driver\<close>

definition LHD_SECTSIZE :: int where
  "LHD_SECTSIZE = 512"

record lhd =
  d_blocks :: int
  lh_buf :: "8 word list"
  lh_result :: errno
  lh_clear :: int
  lh_done :: int
  lh_sectors :: "int \<Rightarrow> 8 word list"
  lh_outcome :: "nat \<Rightarrow> int \<times> 8 word list"
  lh_ops :: nat

definition lhd_code_to_errno :: "int \<Rightarrow> errno" where
  "lhd_code_to_errno code =
     (let st = and code 29 in if st = 4 then OK else if st = 12 then EINVAL else if st = 20 then EIO else EAGAIN)"

definition lhd_iodone :: "errno \<Rightarrow> lhd \<Rightarrow> lhd" where
  "lhd_iodone err lh = lh\<lparr>lh_result := err, lh_done := lh_done lh + 1\<rparr>"

definition lhd_irq :: "int \<Rightarrow> lhd \<Rightarrow> lhd" where
  "lhd_irq val lh =
     (let st = and val 29 in
      if st = 0 \<or> st = 1 then lh
      else if st = 4 \<or> st = 12 \<or> st = 20 then lhd_iodone (lhd_code_to_errno val) lh
      else lh)"

text \<open>What the hardware does between the store to its status register and the interrupt.\<close>

definition lhd_operation :: "bool \<Rightarrow> int \<Rightarrow> lhd \<Rightarrow> int \<times> lhd" where
  "lhd_operation iswrite sector lh =
     (case lh_outcome lh (lh_ops lh) of (stat, left) \<Rightarrow>
        let bytes = (if stat = 4 then if iswrite then lh_buf lh else lh_sectors lh sector else left);
            lh' = lh\<lparr>lh_ops := Suc (lh_ops lh)\<rparr> in
        (or stat (if iswrite then 2 else 0),
         if iswrite then lh'\<lparr>lh_sectors := (lh_sectors lh)(sector := bytes)\<rparr> else lh'\<lparr>lh_buf := bytes\<rparr>))"

definition P_clear :: "lhd \<Rightarrow> lhd option" where
  "P_clear lh = (if lh_clear lh > 0 then Some (lh\<lparr>lh_clear := lh_clear lh - 1\<rparr>) else None)"

definition V_clear :: "lhd \<Rightarrow> lhd" where
  "V_clear lh = lh\<lparr>lh_clear := lh_clear lh + 1\<rparr>"

definition P_done :: "lhd \<Rightarrow> lhd option" where
  "P_done lh = (if lh_done lh > 0 then Some (lh\<lparr>lh_done := lh_done lh - 1\<rparr>) else None)"

text \<open>One turn of the loop of \<open>lhd_io\<close>, for one sector.\<close>

definition lhd_sector :: "int \<Rightarrow> uio \<Rightarrow> umem \<Rightarrow> lhd \<Rightarrow> (errno \<times> uio \<times> umem \<times> lhd) option" where
  "lhd_sector sector u mem lh = do {
     lh1 \<leftarrow> P_clear lh;
     (r1, buf, u1, mem1) \<leftarrow> (if uio_rw u = UIO_WRITE then uiomove (lh_buf lh1) LHD_SECTSIZE u mem else Some (OK, lh_buf lh1, u, mem));
     let lh2 = lh1\<lparr>lh_buf := buf\<rparr>;
     if r1 \<noteq> OK then Some (r1, u1, mem1, V_clear lh2)
     else do {
       let (stat, lh3) = lhd_operation (uio_rw u = UIO_WRITE) sector lh2;
       lh4 \<leftarrow> P_done (lhd_irq stat lh3);
       (r, buf', u2, mem2) \<leftarrow> (if lh_result lh4 = OK \<and> uio_rw u = UIO_READ then uiomove (lh_buf lh4) LHD_SECTSIZE u1 mem1
                                 else Some (lh_result lh4, lh_buf lh4, u1, mem1));
       Some (r, u2, mem2, V_clear (lh4\<lparr>lh_buf := buf'\<rparr>))
     }
   }"

primrec lhd_sectors_loop :: "nat \<Rightarrow> int \<Rightarrow> uio \<Rightarrow> umem \<Rightarrow> lhd \<Rightarrow> (errno \<times> uio \<times> umem \<times> lhd) option" where
  "lhd_sectors_loop 0 sector u mem lh = Some (OK, u, mem, lh)"
| "lhd_sectors_loop (Suc n) sector u mem lh = do {
     (r, u', mem', lh') \<leftarrow> lhd_sector sector u mem lh;
     if r \<noteq> OK then Some (r, u', mem', lh') else lhd_sectors_loop n (u32 (sector + 1)) u' mem' lh'
   }"

text \<open>\<^verbatim>\<open>off_t\<close> is signed: C divides it rounding towards zero.\<close>

definition c_div :: "int \<Rightarrow> int \<Rightarrow> int" where
  "c_div a b = sgn a * (\<bar>a\<bar> div b)"

definition c_mod :: "int \<Rightarrow> int \<Rightarrow> int" where
  "c_mod a b = a - c_div a b * b"

definition lhd_io :: "uio \<Rightarrow> umem \<Rightarrow> lhd \<Rightarrow> (errno \<times> uio \<times> umem \<times> lhd) option" where
  "lhd_io u mem lh =
     (let sector = u32 (c_div (uio_offset u) LHD_SECTSIZE);
          sectoff = u32 (c_mod (uio_offset u) LHD_SECTSIZE);
          len = uio_resid u div LHD_SECTSIZE;
          lenoff = uio_resid u mod LHD_SECTSIZE in
      if sectoff \<noteq> 0 \<or> lenoff \<noteq> 0 then Some (EINVAL, u, mem, lh)
      else if u32 (sector + len) > d_blocks lh then Some (EINVAL, u, mem, lh)
      else lhd_sectors_loop (nat len) sector u mem lh)"

section \<open>Model of the block operations\<close>

definition SFS_BLOCKSIZE :: int where
  "SFS_BLOCKSIZE = 512"

function sfs_rwblock_from :: "nat \<Rightarrow> uio \<Rightarrow> umem \<Rightarrow> lhd \<Rightarrow> (errno \<times> uio \<times> umem \<times> lhd) option" where
  "sfs_rwblock_from tries u mem lh =
     (case lhd_io u mem lh of
        None \<Rightarrow> None
      | Some (result, u', mem', lh') \<Rightarrow>
          if result = EINVAL then None
          else if result = EIO \<and> tries < 10 then sfs_rwblock_from (Suc tries) u' mem' lh'
          else Some (result, u', mem', lh'))"
  by pat_completeness auto
termination by (relation "measure (\<lambda>(tries, _). 10 - tries)") auto

declare sfs_rwblock_from.simps [simp del]

definition sfs_rwblock :: "uio \<Rightarrow> umem \<Rightarrow> lhd \<Rightarrow> (errno \<times> uio \<times> umem \<times> lhd) option" where
  "sfs_rwblock u mem lh = sfs_rwblock_from 0 u mem lh"

text \<open>A buffer of the kernel that is transferred whole, as a memory of its own from address 0 on.\<close>

definition kbuf :: "8 word list \<Rightarrow> umem" where
  "kbuf data = \<lparr>um_bytes = write_bytes 0 data (\<lambda>_. 0), um_ok = (\<lambda>a. 0 \<le> a \<and> a < int (length data)), um_space = None\<rparr>"

definition SFSUIO :: "int \<Rightarrow> uio_rw \<Rightarrow> uio" where
  "SFSUIO block rw = mk_kuio 0 SFS_BLOCKSIZE (s32 (s32 block * SFS_BLOCKSIZE)) rw"

definition sfs_rblock :: "8 word list \<Rightarrow> int \<Rightarrow> lhd \<Rightarrow> (errno \<times> 8 word list \<times> lhd) option" where
  "sfs_rblock data block lh = do {
     (result, u, mem, lh') \<leftarrow> sfs_rwblock (SFSUIO block UIO_READ) (kbuf data) lh;
     Some (result, read_bytes 0 (length data) (um_bytes mem), lh')
   }"

definition sfs_wblock :: "8 word list \<Rightarrow> int \<Rightarrow> lhd \<Rightarrow> (errno \<times> lhd) option" where
  "sfs_wblock data block lh = do {
     (result, u, mem, lh') \<leftarrow> sfs_rwblock (SFSUIO block UIO_WRITE) (kbuf data) lh;
     Some (result, lh')
   }"

section \<open>One sector\<close>

text \<open>
  \<open>disk_ok\<close>: the disk is idle and its sectors are whole; there are not more blocks than a 31-bit offset can address.
  \<open>reliable\<close>: from now on its operations succeed.
\<close>

definition disk_ok :: "lhd \<Rightarrow> bool" where
  "disk_ok lh \<longleftrightarrow> lh_clear lh = 1 \<and> lh_done lh = 0 \<and> length (lh_buf lh) = 512 \<and> (\<forall>b. length (lh_sectors lh b) = 512) \<and>
     0 \<le> d_blocks lh \<and> d_blocks lh \<le> 4194303 \<and>
     (\<forall>n. fst (lh_outcome lh n) \<in> {4, 12, 20} \<and> length (snd (lh_outcome lh n)) = 512)"

definition reliable :: "lhd \<Rightarrow> bool" where
  "reliable lh \<longleftrightarrow> (\<forall>n \<ge> lh_ops lh. fst (lh_outcome lh n) = 4)"

text \<open>The state after a read and after a write of one block.\<close>

definition after_read :: "int \<Rightarrow> lhd \<Rightarrow> lhd" where
  "after_read b lh = lh\<lparr>lh_ops := Suc (lh_ops lh), lh_buf := lh_sectors lh b, lh_result := OK\<rparr>"

definition after_write :: "int \<Rightarrow> 8 word list \<Rightarrow> lhd \<Rightarrow> lhd" where
  "after_write b data lh = lh\<lparr>lh_ops := Suc (lh_ops lh), lh_buf := data, lh_result := OK, lh_sectors := (lh_sectors lh)(b := data)\<rparr>"

lemma after_disk_ok:
  "disk_ok lh \<Longrightarrow> disk_ok (after_read b lh)" "disk_ok lh \<Longrightarrow> length data = 512 \<Longrightarrow> disk_ok (after_write b data lh)"
  "reliable lh \<Longrightarrow> reliable (after_read b lh)" "reliable lh \<Longrightarrow> reliable (after_write b data lh)"
  by (auto simp: disk_ok_def reliable_def after_read_def after_write_def)

lemma after_disk_simps [simp]:
  "lh_sectors (after_read b lh) = lh_sectors lh" "d_blocks (after_read b lh) = d_blocks lh"
  "lh_sectors (after_write b data lh) = (lh_sectors lh)(b := data)" "d_blocks (after_write b data lh) = d_blocks lh"
  by (simp_all add: after_read_def after_write_def)

text \<open>What an operation does to the driver, for each of its three outcomes.\<close>

definition outcome_errno :: "int \<Rightarrow> errno" where
  "outcome_errno stat = (if stat = 4 then OK else if stat = 12 then EINVAL else EIO)"

lemma irq_outcome:
  assumes "stat \<in> {4, 12, 20}"
  shows "lhd_irq (or stat (if w then 2 else 0)) lh = lh\<lparr>lh_result := outcome_errno stat, lh_done := lh_done lh + 1\<rparr>"
  using assms by (auto simp: lhd_irq_def lhd_code_to_errno_def lhd_iodone_def outcome_errno_def)

lemma P_V_simps [simp]:
  "lh_clear lh = 1 \<Longrightarrow> P_clear lh = Some (lh\<lparr>lh_clear := 0\<rparr>)" "V_clear lh = lh\<lparr>lh_clear := lh_clear lh + 1\<rparr>"
  "lh_done lh = 1 \<Longrightarrow> P_done lh = Some (lh\<lparr>lh_done := 0\<rparr>)"
  by (simp_all add: P_clear_def V_clear_def P_done_def)

lemma put_whole: "length xs = length ys \<Longrightarrow> put xs 0 ys = ys"
  by (simp add: put_def)

lemma lhd_sector_write:
  assumes ok: "disk_ok lh" and fits: "uio_fits u mem 512" and w: "uio_rw u = UIO_WRITE" and out: "lh_outcome lh (lh_ops lh) = (stat, left)"
  shows "lhd_sector b u mem lh = (let data = read_bytes (iov_base u) 512 (um_bytes mem) in
    Some (outcome_errno stat, uio_advance 512 u, mem, lh\<lparr>lh_ops := Suc (lh_ops lh), lh_buf := data, lh_result := outcome_errno stat,
      lh_sectors := (lh_sectors lh)(b := if stat = 4 then data else left)\<rparr>))"
proof -
  have st: "stat \<in> {4, 12, 20}" and lh: "lh_clear lh = 1" "lh_done lh = 0" "length (lh_buf lh) = 512"
    using ok out by (auto simp: disk_ok_def dest: spec[of _ "lh_ops lh"])
  have mv: "uiomove (lh_buf lh) 512 u mem = Some (OK, read_bytes (iov_base u) 512 (um_bytes mem), uio_advance 512 u, mem)"
    using uiomove_spec[OF fits, of 512 512 "lh_buf lh"] lh(3) w by (simp add: put_whole)
  show ?thesis
    using lh mv w out irq_outcome[OF st, of True]
    by (simp add: lhd_sector_def LHD_SECTSIZE_def lhd_operation_def Let_def)
qed

lemma lhd_sector_read:
  assumes ok: "disk_ok lh" and fits: "uio_fits u mem 512" and r: "uio_rw u = UIO_READ" and out: "lh_outcome lh (lh_ops lh) = (stat, left)"
  shows "lhd_sector b u mem lh = (if stat = 4
    then Some (OK, uio_advance 512 u, mem\<lparr>um_bytes := write_bytes (iov_base u) (lh_sectors lh b) (um_bytes mem)\<rparr>, after_read b lh)
    else Some (outcome_errno stat, u, mem, lh\<lparr>lh_ops := Suc (lh_ops lh), lh_buf := left, lh_result := outcome_errno stat\<rparr>))"
proof -
  have st: "stat \<in> {4, 12, 20}" and lh: "lh_clear lh = 1" "lh_done lh = 0" "length (lh_sectors lh b) = 512"
    using ok out by (auto simp: disk_ok_def dest: spec[of _ "lh_ops lh"])
  have mv: "uiomove (lh_sectors lh b) 512 u mem =
      Some (OK, lh_sectors lh b, uio_advance 512 u, mem\<lparr>um_bytes := write_bytes (iov_base u) (lh_sectors lh b) (um_bytes mem)\<rparr>)"
    using uiomove_spec[OF fits, of 512 512 "lh_sectors lh b"] lh(3) r by simp
  show ?thesis
    using lh mv r out irq_outcome[OF st, of False] st
    by (auto simp: lhd_sector_def LHD_SECTSIZE_def lhd_operation_def Let_def outcome_errno_def after_read_def)
qed

section \<open>One block\<close>

lemma c_div_nonneg: "0 \<le> a \<Longrightarrow> c_div a b = a div b" "0 \<le> a \<Longrightarrow> c_mod a b = a mod b"
proof -
  show 1: "0 \<le> a \<Longrightarrow> c_div a b = a div b" by (cases "a = 0") (auto simp: c_div_def sgn_if)
  show "0 \<le> a \<Longrightarrow> c_mod a b = a mod b" unfolding c_mod_def using 1 by (metis minus_div_mult_eq_mod)
qed

lemma lhd_io_block:
  assumes "uio_offset u = b * 512" and "uio_resid u = 512" and "0 \<le> b" and "b < d_blocks lh" and "d_blocks lh \<le> 4194303"
  shows "lhd_io u mem lh = lhd_sector b u mem lh"
proof -
  have "u32 (c_div (uio_offset u) 512) = b" "u32 (c_mod (uio_offset u) 512) = 0" using assms by (simp_all add: c_div_nonneg)
  then show ?thesis
    using assms by (cases "lhd_sector b u mem lh") (auto simp: lhd_io_def LHD_SECTSIZE_def Let_def numeral_nat)
qed

lemma lhd_io_empty:
  assumes "uio_offset u = b * 512" and "uio_resid u = 0" and "0 \<le> b" and "b \<le> d_blocks lh" and "d_blocks lh \<le> 4194303"
  shows "lhd_io u mem lh = Some (OK, u, mem, lh)"
  using assms by (simp add: lhd_io_def LHD_SECTSIZE_def Let_def c_div_nonneg)

lemma rwblock_read:
  assumes "disk_ok lh" and "reliable lh" and "uio_fits u mem 512" and "uio_rw u = UIO_READ"
    and "uio_offset u = b * 512" and "uio_resid u = 512" and "0 \<le> b" and "b < d_blocks lh"
  shows "sfs_rwblock u mem lh = Some (OK, uio_advance 512 u, mem\<lparr>um_bytes := write_bytes (iov_base u) (lh_sectors lh b) (um_bytes mem)\<rparr>, after_read b lh)"
proof -
  obtain left where "lh_outcome lh (lh_ops lh) = (4, left)" using assms(2) by (cases "lh_outcome lh (lh_ops lh)") (auto simp: reliable_def)
  then show ?thesis
    using lhd_sector_read[OF assms(1,3,4)] lhd_io_block[OF assms(5-8)] assms(1)
    by (subst sfs_rwblock_def, subst sfs_rwblock_from.simps) (simp add: disk_ok_def)
qed

lemma rwblock_write:
  assumes "disk_ok lh" and "reliable lh" and "uio_fits u mem 512" and "uio_rw u = UIO_WRITE"
    and "uio_offset u = b * 512" and "uio_resid u = 512" and "0 \<le> b" and "b < d_blocks lh"
  shows "sfs_rwblock u mem lh = Some (OK, uio_advance 512 u, mem, after_write b (read_bytes (iov_base u) 512 (um_bytes mem)) lh)"
proof -
  obtain left where "lh_outcome lh (lh_ops lh) = (4, left)" using assms(2) by (cases "lh_outcome lh (lh_ops lh)") (auto simp: reliable_def)
  then show ?thesis
    using lhd_sector_write[OF assms(1,3,4), of 4 left] lhd_io_block[OF assms(5-8)] assms(1)
    by (subst sfs_rwblock_def, subst sfs_rwblock_from.simps) (simp add: disk_ok_def outcome_errno_def after_write_def Let_def)
qed

lemma SFSUIO_fields:
  assumes "0 \<le> b" and "b < 4194303"
  shows "uio_offset (SFSUIO b rw) = b * 512" "uio_resid (SFSUIO b rw) = 512" "iov_base (SFSUIO b rw) = 0" "iov_len (SFSUIO b rw) = 512"
    "uio_rw (SFSUIO b rw) = rw" "uio_segflg (SFSUIO b rw) = UIO_SYSSPACE" "uio_space (SFSUIO b rw) = None"
  using assms by (simp_all add: SFSUIO_def mk_kuio_def SFS_BLOCKSIZE_def)

lemma SFSUIO_fits: "0 \<le> b \<Longrightarrow> b < 4194303 \<Longrightarrow> length data = 512 \<Longrightarrow> uio_fits (SFSUIO b rw) (kbuf data) 512"
  by (simp add: uio_fits_def SFSUIO_fields kbuf_def)

lemma kbuf_bytes: "length data = 512 \<Longrightarrow> read_bytes 0 512 (um_bytes (kbuf data)) = data"
  using read_write_bytes[of 0 data] by (simp add: kbuf_def)

lemma sfs_rblock_spec:
  assumes "disk_ok lh" and "reliable lh" and "length data = 512" and b: "0 \<le> b" "b < d_blocks lh"
  shows "sfs_rblock data b lh = Some (OK, lh_sectors lh b, after_read b lh)"
proof -
  have b': "b < 4194303" and len: "length (lh_sectors lh b) = 512" using assms(1) b by (auto simp: disk_ok_def)
  note F = SFSUIO_fields[OF b(1) b']
  show ?thesis
    using rwblock_read[OF assms(1,2) SFSUIO_fits[OF b(1) b' assms(3)] F(5,1,2) b] assms(3) len read_write_bytes[of 0 "lh_sectors lh b"]
    by (simp add: sfs_rblock_def F)
qed

lemma sfs_wblock_spec:
  assumes "disk_ok lh" and "reliable lh" and "length data = 512" and b: "0 \<le> b" "b < d_blocks lh"
  shows "sfs_wblock data b lh = Some (OK, after_write b data lh)"
proof -
  have b': "b < 4194303" using assms(1) b by (auto simp: disk_ok_def)
  note F = SFSUIO_fields[OF b(1) b']
  show ?thesis
    using rwblock_write[OF assms(1,2) SFSUIO_fits[OF b(1) b' assms(3)] F(5,1,2) b] kbuf_bytes[OF assms(3)]
    by (simp add: sfs_wblock_def F)
qed

section \<open>Media errors\<close>

text \<open>A failed read has not moved anything, so it can be tried again with the same request.\<close>

lemma rblock_retry:
  assumes "disk_ok lh" and "uio_fits u mem 512" and "uio_rw u = UIO_READ" and "uio_offset u = b * 512" and "uio_resid u = 512"
    and "0 \<le> b" and "b < d_blocks lh" and "\<forall>j < k. fst (lh_outcome lh (lh_ops lh + j)) = 20" and "fst (lh_outcome lh (lh_ops lh + k)) = 4" and "tries + k \<le> 10"
  shows "\<exists>lh'. sfs_rwblock_from tries u mem lh =
    Some (OK, uio_advance 512 u, mem\<lparr>um_bytes := write_bytes (iov_base u) (lh_sectors lh b) (um_bytes mem)\<rparr>, lh') \<and> lh_sectors lh' = lh_sectors lh"
  using assms(1,7-)
proof (induction k arbitrary: tries lh)
  case 0
  obtain left where "lh_outcome lh (lh_ops lh) = (4, left)" using 0(4) by (cases "lh_outcome lh (lh_ops lh)") auto
  then show ?case
    using lhd_sector_read[OF 0(1) assms(2,3)] lhd_io_block[OF assms(4-6) 0(2)] 0(1)
    by (subst sfs_rwblock_from.simps) (simp add: disk_ok_def)
next
  case (Suc k)
  obtain left where out: "lh_outcome lh (lh_ops lh) = (20, left)" using Suc.prems(3) by (cases "lh_outcome lh (lh_ops lh)") (auto dest: spec[of _ 0])
  let ?lh = "lh\<lparr>lh_ops := Suc (lh_ops lh), lh_buf := left, lh_result := EIO\<rparr>"
  have len: "length left = 512" using Suc.prems(1) out by (auto simp: disk_ok_def dest: spec[of _ "lh_ops lh"])
  have io: "lhd_io u mem lh = Some (EIO, u, mem, ?lh)"
    using lhd_sector_read[OF Suc.prems(1) assms(2,3) out] lhd_io_block[OF assms(4-6) Suc.prems(2)] Suc.prems(1)
    by (simp add: disk_ok_def outcome_errno_def)
  have ok: "disk_ok ?lh" using Suc.prems(1) len by (simp add: disk_ok_def)
  have "\<forall>j < k. fst (lh_outcome ?lh (lh_ops ?lh + j)) = 20" "fst (lh_outcome ?lh (lh_ops ?lh + k)) = 4" "b < d_blocks ?lh" "Suc tries + k \<le> 10"
    using Suc.prems(2-) by (auto dest: spec[of _ "Suc _"])
  from Suc.IH[OF ok this(3,1,2,4)] Suc.prems(5) show ?case by (subst sfs_rwblock_from.simps) (simp add: io)
qed

text \<open>A write has consumed its request when the operation fails: trying again moves nothing and succeeds.\<close>

lemma wblock_retry:
  assumes "disk_ok lh" and "uio_fits u mem 512" and "uio_rw u = UIO_WRITE" and "uio_offset u = b * 512" and "uio_resid u = 512"
    and "0 \<le> b" and "b < d_blocks lh" and out: "lh_outcome lh (lh_ops lh) = (20, left)"
  shows "\<exists>lh'. sfs_rwblock u mem lh = Some (OK, uio_advance 512 u, mem, lh') \<and> lh_sectors lh' = (lh_sectors lh)(b := left)"
proof -
  define lh1 where "lh1 = lh\<lparr>lh_ops := Suc (lh_ops lh), lh_buf := read_bytes (iov_base u) 512 (um_bytes mem), lh_result := EIO,
    lh_sectors := (lh_sectors lh)(b := left)\<rparr>"
  have blocks: "d_blocks lh \<le> 4194303" using assms(1) by (simp add: disk_ok_def)
  have io: "lhd_io u mem lh = Some (EIO, uio_advance 512 u, mem, lh1)"
    using lhd_sector_write[OF assms(1-3) out] lhd_io_block[OF assms(4-7) blocks] by (simp add: outcome_errno_def lh1_def Let_def)
  have "lhd_io (uio_advance 512 u) mem lh1 = Some (OK, uio_advance 512 u, mem, lh1)"
  proof (rule lhd_io_empty[of _ "b + 1"])
    show "uio_offset (uio_advance 512 u) = (b + 1) * 512" "uio_resid (uio_advance 512 u) = 0"
      using assms(4-7) blocks by (simp_all add: uio_advance_def algebra_simps)
  qed (use assms(6,7) blocks in \<open>simp_all add: lh1_def\<close>)
  then have "sfs_rwblock_from (Suc 0) (uio_advance 512 u) mem lh1 = Some (OK, uio_advance 512 u, mem, lh1)"
    by (subst sfs_rwblock_from.simps) simp
  then have "sfs_rwblock u mem lh = Some (OK, uio_advance 512 u, mem, lh1)"
    unfolding sfs_rwblock_def by (subst sfs_rwblock_from.simps) (simp add: io)
  then show ?thesis by (simp add: lh1_def)
qed

section \<open>Properties\<close>

definition demo_disk :: "int \<Rightarrow> lhd" where
  "demo_disk stat = \<lparr>d_blocks = 8, lh_buf = replicate 512 0, lh_result = OK, lh_clear = 1, lh_done = 0, lh_sectors = (\<lambda>_. replicate 512 0),
     lh_outcome = (\<lambda>n. (if n = 0 then stat else 4, replicate 512 7)), lh_ops = 0\<rparr>"

lemma demo_disk_ok: "stat \<in> {4, 12, 20} \<Longrightarrow> disk_ok (demo_disk stat)"
  by (auto simp: disk_ok_def demo_disk_def)

text \<open>
  C40. Reading a block survives media errors: when up to ten operations fail and the next one succeeds,
  \<^verbatim>\<open>sfs_rblock\<close> returns success with the contents of the sector, and no sector has changed.
\<close>

theorem sfs_rblock_retries:
  assumes "disk_ok lh" and "length data = 512" and "0 \<le> b" and "b < d_blocks lh" and "k \<le> 10"
    and "\<forall>j < k. fst (lh_outcome lh (lh_ops lh + j)) = 20" and "fst (lh_outcome lh (lh_ops lh + k)) = 4"
  shows "\<exists>lh'. sfs_rblock data b lh = Some (OK, lh_sectors lh b, lh') \<and> lh_sectors lh' = lh_sectors lh"
proof -
  have b: "b < 4194303" and len: "length (lh_sectors lh b) = 512" using assms(1,4) by (auto simp: disk_ok_def)
  note F = SFSUIO_fields[OF assms(3) b]
  from rblock_retry[OF assms(1) SFSUIO_fits[OF assms(3) b assms(2)] F(5,1,2) assms(3,4,6,7), of 0] assms(5)
  obtain lh' where "sfs_rwblock (SFSUIO b UIO_READ) (kbuf data) lh = Some (OK, uio_advance 512 (SFSUIO b UIO_READ),
      (kbuf data)\<lparr>um_bytes := write_bytes 0 (lh_sectors lh b) (um_bytes (kbuf data))\<rparr>, lh')" "lh_sectors lh' = lh_sectors lh"
    by (auto simp: sfs_rwblock_def F)
  then show ?thesis using read_write_bytes[of 0 "lh_sectors lh b"] assms(2) len by (simp add: sfs_rblock_def)
qed

theorem sfs_rblock_retries_witness:
  "\<exists>lh'. sfs_rblock (replicate 512 0) 3 (demo_disk 20) = Some (OK, replicate 512 0, lh')"
proof -
  have "\<exists>lh'. sfs_rblock (replicate 512 0) 3 (demo_disk 20) = Some (OK, lh_sectors (demo_disk 20) 3, lh') \<and> lh_sectors lh' = lh_sectors (demo_disk 20)"
    by (rule sfs_rblock_retries[where k = 1]) (simp_all add: demo_disk_ok, simp_all add: demo_disk_def)
  then show ?thesis by (auto simp: demo_disk_def)
qed

text \<open>
  C39. A write that fails is reported as done: when the first operation of \<^verbatim>\<open>sfs_wblock\<close> ends with a media error, the
  call returns success, although the sector holds what the failed operation left there. The driver has already taken
  the data out of the request, so that the second try has nothing to transfer.
\<close>

theorem write_error_lost:
  assumes "disk_ok lh" and "length data = 512" and "0 \<le> b" and "b < d_blocks lh" and "lh_outcome lh (lh_ops lh) = (20, left)"
  shows "\<exists>lh'. sfs_wblock data b lh = Some (OK, lh') \<and> lh_sectors lh' b = left"
proof -
  have b: "b < 4194303" using assms(1,4) by (simp add: disk_ok_def)
  note F = SFSUIO_fields[OF assms(3) b]
  from wblock_retry[OF assms(1) SFSUIO_fits[OF assms(3) b assms(2)] F(5,1,2) assms(3-5)]
  show ?thesis by (auto simp: sfs_wblock_def)
qed

theorem write_error_lost_witness:
  "\<exists>lh'. sfs_wblock (replicate 512 1) 3 (demo_disk 20) = Some (OK, lh') \<and> lh_sectors lh' 3 = replicate 512 7"
  by (rule write_error_lost) (simp_all add: demo_disk_ok, simp_all add: demo_disk_def)

end
