(* ===== verification/Sfs_File.thy ===== *)
theory Sfs_File
  imports Disk Kernel_Bitmap
begin

text \<open>
  Files of SFS: the first half of \<^verbatim>\<open>kern/fs/sfs/sfs_vnode.c\<close>, with the structures of \<^verbatim>\<open>kern/include/kern/sfs.h\<close> and
  \<^verbatim>\<open>kern/include/sfs.h\<close>.

  A vnode is passed by value and handed back changed. The static buffers of the code are local: each is filled before
  it is read. Structures on the disk are bytes, the most significant byte of a number first, as on the MIPS.

  \<open>file_bn\<close> is the disk block a block of the file is in (0 for none), \<open>file_byte\<close> the contents. The invariants are
  \<open>fs_ok\<close> for the map of blocks and the disk and \<open>file_ok\<close> for a file; \<open>grown\<close> is what an operation on one file may
  do to the rest of the disk: blocks in use that are not of this file keep their contents.
\<close>

section \<open>Model\<close>

definition SFS_NDIRECT :: nat where
  "SFS_NDIRECT = 15"

definition SFS_DBPERIDB :: nat where
  "SFS_DBPERIDB = 128"

record sfs_super =
  sp_magic :: int
  sp_nblocks :: int
  sp_volname :: "8 word list"
  sp_reserved :: "int list"

record sfs_inode =
  sfi_size :: int
  sfi_type :: int
  sfi_linkcount :: int
  sfi_direct :: "int list"
  sfi_indirect :: int
  sfi_waste :: "int list"

record sfs_vnode =
  vn_refcount :: int
  vn_opencount :: int
  sv_i :: sfs_inode
  sv_ino :: int
  sv_dirty :: bool

record sfs_fs =
  sfs_super :: sfs_super
  sfs_superdirty :: bool
  sfs_device :: lhd
  sfs_freemap :: bitmap
  sfs_freemapdirty :: bool

text \<open>32-bit numbers in memory.\<close>

definition word_bytes :: "int \<Rightarrow> 8 word list" where
  "word_bytes w = [word_of_int (w div 16777216), word_of_int (w div 65536), word_of_int (w div 256), word_of_int w]"

fun bytes_words :: "8 word list \<Rightarrow> int list" where
  "bytes_words (a # b # c # d # bs) = (uint a * 16777216 + uint b * 65536 + uint c * 256 + uint d) # bytes_words bs"
| "bytes_words _ = []"

definition words_bytes :: "int list \<Rightarrow> 8 word list" where
  "words_bytes ws = concat (map word_bytes ws)"

definition inode_bytes :: "sfs_inode \<Rightarrow> 8 word list" where
  "inode_bytes i = words_bytes ([sfi_size i, sfi_type i * 65536 + sfi_linkcount i] @ sfi_direct i @ [sfi_indirect i] @ sfi_waste i)"

definition bytes_inode :: "8 word list \<Rightarrow> sfs_inode" where
  "bytes_inode bs = (let ws = bytes_words bs in
     \<lparr>sfi_size = ws ! 0, sfi_type = ws ! 1 div 65536, sfi_linkcount = ws ! 1 mod 65536, sfi_direct = take 15 (drop 2 ws),
      sfi_indirect = ws ! 17, sfi_waste = drop 18 ws\<rparr>)"

definition sfs_clearblock :: "int \<Rightarrow> sfs_fs \<Rightarrow> (errno \<times> sfs_fs) option" where
  "sfs_clearblock block fs = do {
     (result, dev) \<leftarrow> sfs_wblock (replicate 512 0) block (sfs_device fs);
     Some (result, fs\<lparr>sfs_device := dev\<rparr>)
   }"

definition sfs_sync_inode :: "sfs_vnode \<Rightarrow> sfs_fs \<Rightarrow> (errno \<times> sfs_vnode \<times> sfs_fs) option" where
  "sfs_sync_inode sv fs =
     (if sv_dirty sv then do {
        (result, dev) \<leftarrow> sfs_wblock (inode_bytes (sv_i sv)) (sv_ino sv) (sfs_device fs);
        let fs' = fs\<lparr>sfs_device := dev\<rparr>;
        if result \<noteq> OK then Some (result, sv, fs') else Some (OK, sv\<lparr>sv_dirty := False\<rparr>, fs')
      }
      else Some (OK, sv, fs))"

text \<open>The block number that comes with an error is not used by any caller.\<close>

definition sfs_balloc :: "sfs_fs \<Rightarrow> (errno \<times> int \<times> sfs_fs) option" where
  "sfs_balloc fs = do {
     (result, b, fm) \<leftarrow> bitmap_alloc (sfs_freemap fs);
     let fs1 = fs\<lparr>sfs_freemap := fm\<rparr>;
     if result \<noteq> OK then Some (result, 0, fs1)
     else do {
       n \<leftarrow> b;
       let diskblock = int n;
       let fs2 = fs1\<lparr>sfs_freemapdirty := True\<rparr>;
       kassert (diskblock < sp_nblocks (sfs_super fs2));
       (result', fs3) \<leftarrow> sfs_clearblock diskblock fs2;
       Some (result', diskblock, fs3)
     }
   }"

definition sfs_bfree :: "int \<Rightarrow> sfs_fs \<Rightarrow> sfs_fs option" where
  "sfs_bfree diskblock fs = do {
     fm \<leftarrow> bitmap_unmark (sfs_freemap fs) (nat diskblock);
     Some (fs\<lparr>sfs_freemap := fm, sfs_freemapdirty := True\<rparr>)
   }"

definition sfs_bused :: "int \<Rightarrow> sfs_fs \<Rightarrow> bool option" where
  "sfs_bused diskblock fs = do {
     kassert (diskblock < sp_nblocks (sfs_super fs));
     r \<leftarrow> bitmap_isset (sfs_freemap fs) (nat diskblock);
     Some (r \<noteq> 0)
   }"

text \<open>The last step of \<open>sfs_bmap\<close>, for direct and indirect blocks alike.\<close>

definition bmap_result :: "int \<Rightarrow> sfs_vnode \<Rightarrow> sfs_fs \<Rightarrow> (errno \<times> int \<times> sfs_vnode \<times> sfs_fs) option" where
  "bmap_result block sv fs = do {
     used \<leftarrow> (if block \<noteq> 0 then sfs_bused block fs else Some True);
     kassert used;
     Some (OK, block, sv, fs)
   }"

definition bmap_direct :: "sfs_vnode \<Rightarrow> nat \<Rightarrow> bool \<Rightarrow> sfs_fs \<Rightarrow> (errno \<times> int \<times> sfs_vnode \<times> sfs_fs) option" where
  "bmap_direct sv fileblock doalloc fs = do {
     block \<leftarrow> load (Some (sfi_direct (sv_i sv))) (int fileblock);
     if block = 0 \<and> doalloc then do {
       (result, block', fs') \<leftarrow> sfs_balloc fs;
       if result \<noteq> OK then Some (result, 0, sv, fs')
       else do {
         direct \<leftarrow> store (Some (sfi_direct (sv_i sv))) (int fileblock) block';
         bmap_result block' (sv\<lparr>sv_i := (sv_i sv)\<lparr>sfi_direct := direct\<rparr>, sv_dirty := True\<rparr>) fs'
       }
     }
     else bmap_result block sv fs
   }"

text \<open>The part of \<open>sfs_bmap\<close> that works on the indirect block, once it is in \<open>idbuf\<close>.\<close>

definition bmap_idbuf :: "sfs_vnode \<Rightarrow> int \<Rightarrow> int list \<Rightarrow> nat \<Rightarrow> bool \<Rightarrow> sfs_fs \<Rightarrow> (errno \<times> int \<times> sfs_vnode \<times> sfs_fs) option" where
  "bmap_idbuf sv idblock idbuf idoff doalloc fs = do {
     block \<leftarrow> load (Some idbuf) (int idoff);
     if block = 0 \<and> doalloc then do {
       (result, block', fs') \<leftarrow> sfs_balloc fs;
       if result \<noteq> OK then Some (result, 0, sv, fs')
       else do {
         (result', dev) \<leftarrow> sfs_wblock (words_bytes (idbuf[idoff := block'])) idblock (sfs_device fs');
         let fs2 = fs'\<lparr>sfs_device := dev\<rparr>;
         if result' \<noteq> OK then Some (result', 0, sv, fs2) else bmap_result block' sv fs2
       }
     }
     else bmap_result block sv fs
   }"

definition sfs_bmap :: "sfs_vnode \<Rightarrow> int \<Rightarrow> bool \<Rightarrow> sfs_fs \<Rightarrow> (errno \<times> int \<times> sfs_vnode \<times> sfs_fs) option" where
  "sfs_bmap sv fileblock doalloc fs =
     (if fileblock < int SFS_NDIRECT then bmap_direct sv (nat fileblock) doalloc fs
      else
        let fileblock' = fileblock - int SFS_NDIRECT;
            idnum = fileblock' div int SFS_DBPERIDB;
            idoff = nat (fileblock' mod int SFS_DBPERIDB);
            idblock = sfi_indirect (sv_i sv) in
        if idnum > 0 then Some (EINVAL, 0, sv, fs)
        else if idblock = 0 \<and> \<not> doalloc then Some (OK, 0, sv, fs)
        else if idblock = 0 then do {
          (result, idblock', fs') \<leftarrow> sfs_balloc fs;
          if result \<noteq> OK then Some (result, 0, sv, fs')
          else bmap_idbuf (sv\<lparr>sv_i := (sv_i sv)\<lparr>sfi_indirect := idblock'\<rparr>, sv_dirty := True\<rparr>) idblock' (replicate SFS_DBPERIDB 0) idoff doalloc fs'
        }
        else do {
          (result, buf, dev) \<leftarrow> sfs_rblock (replicate 512 0) idblock (sfs_device fs);
          let fs' = fs\<lparr>sfs_device := dev\<rparr>;
          if result \<noteq> OK then Some (result, 0, sv, fs') else bmap_idbuf sv idblock (bytes_words buf) idoff doalloc fs'
        })"

definition sfs_partialio :: "sfs_vnode \<Rightarrow> uio \<Rightarrow> umem \<Rightarrow> int \<Rightarrow> int \<Rightarrow> sfs_fs \<Rightarrow> (errno \<times> sfs_vnode \<times> uio \<times> umem \<times> sfs_fs) option" where
  "sfs_partialio sv u mem skipstart len fs = do {
     kassert (u32 (skipstart + len) \<le> SFS_BLOCKSIZE);
     let fileblock = u32 (c_div (uio_offset u) SFS_BLOCKSIZE);
     (result, diskblock, sv1, fs1) \<leftarrow> sfs_bmap sv fileblock (uio_rw u = UIO_WRITE) fs;
     if result \<noteq> OK then Some (result, sv1, u, mem, fs1)
     else do {
       (result1, iobuf, fs2) \<leftarrow>
         (if diskblock = 0 then do { kassert (uio_rw u = UIO_READ); Some (OK, replicate 512 0, fs1) }
          else do {
            (r, buf, dev) \<leftarrow> sfs_rblock (replicate 512 0) diskblock (sfs_device fs1);
            Some (r, buf, fs1\<lparr>sfs_device := dev\<rparr>)
          });
       if result1 \<noteq> OK then Some (result1, sv1, u, mem, fs2)
       else do {
         (result2, buf2, u', mem') \<leftarrow> uiomove (drop (nat skipstart) iobuf) len u mem;
         let iobuf' = take (nat skipstart) iobuf @ buf2;
         if result2 \<noteq> OK then Some (result2, sv1, u', mem', fs2)
         else if uio_rw u = UIO_WRITE then do {
           (result3, dev) \<leftarrow> sfs_wblock iobuf' diskblock (sfs_device fs2);
           Some (result3, sv1, u', mem', fs2\<lparr>sfs_device := dev\<rparr>)
         }
         else Some (OK, sv1, u', mem', fs2)
       }
     }
   }"

definition sfs_blockio :: "sfs_vnode \<Rightarrow> uio \<Rightarrow> umem \<Rightarrow> sfs_fs \<Rightarrow> (errno \<times> sfs_vnode \<times> uio \<times> umem \<times> sfs_fs) option" where
  "sfs_blockio sv u mem fs = do {
     let fileblock = u32 (c_div (uio_offset u) SFS_BLOCKSIZE);
     (result, diskblock, sv1, fs1) \<leftarrow> sfs_bmap sv fileblock (uio_rw u = UIO_WRITE) fs;
     if result \<noteq> OK then Some (result, sv1, u, mem, fs1)
     else if diskblock = 0 then do {
       kassert (uio_rw u = UIO_READ);
       (r, u', mem') \<leftarrow> uiomovezeros SFS_BLOCKSIZE u mem;
       Some (r, sv1, u', mem', fs1)
     }
     else do {
       let saveoff = uio_offset u;
       let diskoff = s32 (diskblock * SFS_BLOCKSIZE);
       kassert (uio_resid u \<ge> SFS_BLOCKSIZE);
       let saveres = s32 (uio_resid u);
       (r, u', mem', dev) \<leftarrow> sfs_rwblock (u\<lparr>uio_offset := diskoff, uio_resid := SFS_BLOCKSIZE\<rparr>) mem (sfs_device fs1);
       Some (r, sv1, u'\<lparr>uio_offset := s32 (uio_offset u' - diskoff + saveoff), uio_resid := u32 (uio_resid u' - SFS_BLOCKSIZE + saveres)\<rparr>,
             mem', fs1\<lparr>sfs_device := dev\<rparr>)
     }
   }"

primrec sfs_blocks_loop :: "nat \<Rightarrow> sfs_vnode \<Rightarrow> uio \<Rightarrow> umem \<Rightarrow> sfs_fs \<Rightarrow> (errno \<times> sfs_vnode \<times> uio \<times> umem \<times> sfs_fs) option" where
  "sfs_blocks_loop 0 sv u mem fs = Some (OK, sv, u, mem, fs)"
| "sfs_blocks_loop (Suc n) sv u mem fs = do {
     (r, sv', u', mem', fs') \<leftarrow> sfs_blockio sv u mem fs;
     if r \<noteq> OK then Some (r, sv', u', mem', fs') else sfs_blocks_loop n sv' u' mem' fs'
   }"

text \<open>What \<open>sfs_io\<close> does with the whole blocks and the rest, once it is at the start of a block.\<close>

definition sfs_io_aligned :: "sfs_vnode \<Rightarrow> uio \<Rightarrow> umem \<Rightarrow> sfs_fs \<Rightarrow> (errno \<times> sfs_vnode \<times> uio \<times> umem \<times> sfs_fs) option" where
  "sfs_io_aligned sv u mem fs = do {
     kassert (c_mod (uio_offset u) SFS_BLOCKSIZE = 0);
     (r, sv1, u1, mem1, fs1) \<leftarrow> sfs_blocks_loop (nat (uio_resid u div SFS_BLOCKSIZE)) sv u mem fs;
     if r \<noteq> OK then Some (r, sv1, u1, mem1, fs1)
     else do {
       kassert (uio_resid u1 < SFS_BLOCKSIZE);
       if uio_resid u1 > 0 then sfs_partialio sv1 u1 mem1 0 (uio_resid u1) fs1 else Some (OK, sv1, u1, mem1, fs1)
     }
   }"

text \<open>What \<open>sfs_io\<close> does between the test for the end of the file and the label \<^verbatim>\<open>out\<close>.\<close>

definition sfs_io_middle :: "sfs_vnode \<Rightarrow> uio \<Rightarrow> umem \<Rightarrow> sfs_fs \<Rightarrow> (errno \<times> sfs_vnode \<times> uio \<times> umem \<times> sfs_fs) option" where
  "sfs_io_middle sv u mem fs = do {
     let blkoff = u32 (c_mod (uio_offset u) SFS_BLOCKSIZE);
     (r, sv1, u1, mem1, fs1) \<leftarrow>
       (if blkoff \<noteq> 0 then
          (let len = SFS_BLOCKSIZE - blkoff in
           sfs_partialio sv u mem blkoff (if len > uio_resid u then uio_resid u else len) fs)
        else Some (OK, sv, u, mem, fs));
     if r \<noteq> OK \<or> uio_resid u1 = 0 then Some (r, sv1, u1, mem1, fs1) else sfs_io_aligned sv1 u1 mem1 fs1
   }"

definition sfs_io :: "sfs_vnode \<Rightarrow> uio \<Rightarrow> umem \<Rightarrow> sfs_fs \<Rightarrow> (errno \<times> sfs_vnode \<times> uio \<times> umem \<times> sfs_fs) option" where
  "sfs_io sv u mem fs =
     (let fsize = s32 (sfi_size (sv_i sv)); endpos = s32 (uio_offset u + uio_resid u) in
      if uio_rw u = UIO_READ \<and> uio_offset u \<ge> fsize then Some (OK, sv, u, mem, fs)
      else do {
        let extraresid = (if uio_rw u = UIO_READ \<and> endpos > fsize then u32 (endpos - fsize) else 0);
        kassert (extraresid = 0 \<or> uio_resid u > extraresid);
        (result, sv1, u1, mem1, fs1) \<leftarrow> sfs_io_middle sv (u\<lparr>uio_resid := uio_resid u - extraresid\<rparr>) mem fs;
        let sv2 = (if uio_rw u1 = UIO_WRITE \<and> uio_offset u1 > s32 (sfi_size (sv_i sv1))
                   then sv1\<lparr>sv_i := (sv_i sv1)\<lparr>sfi_size := u32 (uio_offset u1)\<rparr>, sv_dirty := True\<rparr> else sv1);
        Some (result, sv2, u1\<lparr>uio_resid := u32 (uio_resid u1 + extraresid)\<rparr>, mem1, fs1)
      })"

text \<open>The two loops of \<open>sfs_truncate\<close>; the first returns whether a block was discarded, the second \<open>hasnonzero\<close> and \<open>iddirty\<close>.\<close>

fun truncate_direct :: "nat \<Rightarrow> int \<Rightarrow> int list \<Rightarrow> sfs_fs \<Rightarrow> (int list \<times> bool \<times> sfs_fs) option" where
  "truncate_direct i blocklen [] fs = Some ([], False, fs)"
| "truncate_direct i blocklen (block # bs) fs =
     (if int i \<ge> blocklen \<and> block \<noteq> 0 then do {
        fs1 \<leftarrow> sfs_bfree block fs;
        (bs', d, fs2) \<leftarrow> truncate_direct (Suc i) blocklen bs fs1;
        Some (0 # bs', True, fs2)
      }
      else do {
        (bs', d, fs2) \<leftarrow> truncate_direct (Suc i) blocklen bs fs;
        Some (block # bs', d, fs2)
      })"

fun truncate_idbuf :: "nat \<Rightarrow> int \<Rightarrow> int list \<Rightarrow> sfs_fs \<Rightarrow> (int list \<times> bool \<times> bool \<times> sfs_fs) option" where
  "truncate_idbuf j blocklen [] fs = Some ([], False, False, fs)"
| "truncate_idbuf j blocklen (block # bs) fs =
     (if blocklen < int (SFS_NDIRECT + j) \<and> block \<noteq> 0 then do {
        fs1 \<leftarrow> sfs_bfree block fs;
        (bs', hasnonzero, iddirty, fs2) \<leftarrow> truncate_idbuf (Suc j) blocklen bs fs1;
        Some (0 # bs', hasnonzero, True, fs2)
      }
      else do {
        (bs', hasnonzero, iddirty, fs2) \<leftarrow> truncate_idbuf (Suc j) blocklen bs fs;
        Some (block # bs', block \<noteq> 0 \<or> hasnonzero, iddirty, fs2)
      })"

text \<open>The part of \<open>sfs_truncate\<close> for the indirect block.\<close>

definition truncate_indirect :: "int \<Rightarrow> sfs_vnode \<Rightarrow> sfs_fs \<Rightarrow> (errno \<times> sfs_vnode \<times> sfs_fs) option" where
  "truncate_indirect blocklen sv fs =
     (let idblock = sfi_indirect (sv_i sv); highblock = int (SFS_NDIRECT + SFS_DBPERIDB - 1) in
      if blocklen < highblock \<and> idblock \<noteq> 0 then do {
        (result, buf, dev) \<leftarrow> sfs_rblock (replicate 512 0) idblock (sfs_device fs);
        let fs1 = fs\<lparr>sfs_device := dev\<rparr>;
        if result \<noteq> OK then Some (result, sv, fs1)
        else do {
          (idbuf, hasnonzero, iddirty, fs2) \<leftarrow> truncate_idbuf 0 blocklen (bytes_words buf) fs1;
          if \<not> hasnonzero then do {
            fs3 \<leftarrow> sfs_bfree idblock fs2;
            Some (OK, sv\<lparr>sv_i := (sv_i sv)\<lparr>sfi_indirect := 0\<rparr>, sv_dirty := True\<rparr>, fs3)
          }
          else if iddirty then do {
            (result', dev') \<leftarrow> sfs_wblock (words_bytes idbuf) idblock (sfs_device fs2);
            Some (result', sv, fs2\<lparr>sfs_device := dev'\<rparr>)
          }
          else Some (OK, sv, fs2)
        }
      }
      else Some (OK, sv, fs))"

definition sfs_truncate :: "sfs_vnode \<Rightarrow> int \<Rightarrow> sfs_fs \<Rightarrow> (errno \<times> sfs_vnode \<times> sfs_fs) option" where
  "sfs_truncate sv len fs = do {
     let blocklen = u32 (c_div (s32 (len + SFS_BLOCKSIZE - 1)) SFS_BLOCKSIZE);
     (direct, d, fs1) \<leftarrow> truncate_direct 0 blocklen (sfi_direct (sv_i sv)) fs;
     let sv1 = sv\<lparr>sv_i := (sv_i sv)\<lparr>sfi_direct := direct\<rparr>, sv_dirty := (sv_dirty sv \<or> d)\<rparr>;
     (result, sv2, fs2) \<leftarrow> truncate_indirect blocklen sv1 fs1;
     if result \<noteq> OK then Some (result, sv2, fs2)
     else Some (OK, sv2\<lparr>sv_i := (sv_i sv2)\<lparr>sfi_size := u32 len\<rparr>, sv_dirty := True\<rparr>, fs2)
   }"

section \<open>Numbers in memory\<close>

definition words_ok :: "int list \<Rightarrow> bool" where
  "words_ok ws \<longleftrightarrow> (\<forall>w \<in> set ws. 0 \<le> w \<and> w < 4294967296)"

lemma word_bytes_value:
  assumes "0 \<le> (w :: int)" and "w < 4294967296"
  shows "(w div 16777216) mod 256 * 16777216 + (w div 65536) mod 256 * 65536 + (w div 256) mod 256 * 256 + w mod 256 = w"
proof -
  have x: "w div 65536 = w div 256 div 256" "w div 16777216 = w div 256 div 256 div 256"
    using zdiv_zmult2_eq[of 256 w 256] zdiv_zmult2_eq[of 256 "w div 256" 256] zdiv_zmult2_eq[of 65536 w 256] by simp_all
  have s: "v = v div 256 * 256 + v mod 256" for v :: int by simp
  have z: "w div 256 div 256 div 256 mod 256 = w div 256 div 256 div 256"
    using assms by (intro mod_pos_pos_trivial) (simp_all add: zdiv_zmult2_eq[symmetric])
  have digits: "c * 16777216 + r2 * 65536 + r1 * 256 + r0 = v" if "v = a * 256 + r0" "a = b * 256 + r1" "b = c * 256 + r2" for a b c v r0 r1 r2 :: int
    using that by simp
  show ?thesis unfolding x z by (rule digits[OF s s s])
qed

lemma bytes_words_bytes: "words_ok ws \<Longrightarrow> bytes_words (words_bytes ws) = ws"
proof (induction ws)
  case Nil
  then show ?case by (simp add: words_bytes_def)
next
  case (Cons w ws)
  have "0 \<le> w" "w < 4294967296" using Cons.prems by (simp_all add: words_ok_def)
  moreover have "uint (word_of_int v :: 8 word) = v mod 256" for v by (simp add: uint_word_of_int)
  ultimately have "bytes_words (word_bytes w @ bs) = w # bytes_words bs" for bs
    using word_bytes_value[of w] by (simp only: word_bytes_def append.simps bytes_words.simps)
  then show ?case using Cons by (simp add: words_bytes_def words_ok_def)
qed

lemma length_words_bytes [simp]: "length (words_bytes ws) = 4 * length ws"
  by (induction ws) (simp_all add: words_bytes_def word_bytes_def)

lemma bytes_words_facts: "length (bytes_words bs) = length bs div 4 \<and> words_ok (bytes_words bs)"
proof (induction bs rule: bytes_words.induct)
  case (1 a b c d bs)
  have "uint a < 256" "uint b < 256" "uint c < 256" "uint d < 256"
    using uint_lt2p[of a] uint_lt2p[of b] uint_lt2p[of c] uint_lt2p[of d] by simp_all
  then show ?case using 1 by (simp add: words_ok_def)
qed (simp_all add: words_ok_def)

lemma bytes_words_zero: "bytes_words (replicate 512 0) = replicate 128 0"
proof -
  have "bytes_words (replicate (4 * n) 0) = replicate n 0" for n
    by (induction n) (simp_all add: eval_nat_numeral)
  from this[of 128] show ?thesis by simp
qed

lemma inode_bytes_inode:
  assumes "0 \<le> sfi_size i" "sfi_size i < 4294967296" "0 \<le> sfi_type i" "sfi_type i < 65536" "0 \<le> sfi_linkcount i" "sfi_linkcount i < 65536"
    and "length (sfi_direct i) = 15" "words_ok (sfi_direct i)" "0 \<le> sfi_indirect i" "sfi_indirect i < 4294967296" "words_ok (sfi_waste i)"
  shows "bytes_inode (inode_bytes i) = i"
proof -
  let ?ws = "[sfi_size i, sfi_type i * 65536 + sfi_linkcount i] @ sfi_direct i @ [sfi_indirect i] @ sfi_waste i"
  have "words_ok ?ws" using assms by (auto simp: words_ok_def)
  then have "bytes_words (inode_bytes i) = ?ws" unfolding inode_bytes_def by (rule bytes_words_bytes)
  moreover have "(sfi_type i * 65536 + sfi_linkcount i) div 65536 = sfi_type i" "(sfi_type i * 65536 + sfi_linkcount i) mod 65536 = sfi_linkcount i"
    using assms(5,6) by simp_all
  moreover have d: "drop 2 ?ws = sfi_direct i @ sfi_indirect i # sfi_waste i" by (simp add: numeral_2_eq_2)
  then have "take 15 (drop 2 ?ws) = sfi_direct i" "?ws ! 17 = sfi_indirect i"
    using assms(7) nth_drop[of 2 ?ws 15] by (simp_all add: nth_append)
  moreover have "drop 18 ?ws = drop 16 (drop 2 ?ws)" by simp
  then have "drop 18 ?ws = sfi_waste i" unfolding d using assms(7) by (simp add: drop_Cons')
  ultimately show ?thesis by (simp add: bytes_inode_def Let_def)
qed

section \<open>Invariants\<close>

abbreviation sect :: "sfs_fs \<Rightarrow> int \<Rightarrow> 8 word list" where
  "sect fs \<equiv> lh_sectors (sfs_device fs)"

abbreviation nblocks :: "sfs_fs \<Rightarrow> int" where
  "nblocks fs \<equiv> sp_nblocks (sfs_super fs)"

definition marked :: "sfs_fs \<Rightarrow> int \<Rightarrow> bool" where
  "marked fs b \<longleftrightarrow> 0 \<le> b \<and> b < nblocks fs \<and> bitmap_bit (sfs_freemap fs) (nat b)"

definition fs_ok :: "sfs_fs \<Rightarrow> bool" where
  "fs_ok fs \<longleftrightarrow> disk_ok (sfs_device fs) \<and> reliable (sfs_device fs) \<and> bitmap_wf (sfs_freemap fs) \<and> 0 < nblocks fs \<and>
     nblocks fs \<le> d_blocks (sfs_device fs) \<and> nblocks fs \<le> int (nbits (sfs_freemap fs)) \<and>
     (\<forall>i < nbits (sfs_freemap fs). i = 0 \<or> nblocks fs \<le> int i \<longrightarrow> bitmap_bit (sfs_freemap fs) i)"

definition MAXBLOCKS :: nat where
  "MAXBLOCKS = 143"

definition file_bn :: "sfs_vnode \<Rightarrow> sfs_fs \<Rightarrow> nat \<Rightarrow> int" where
  "file_bn sv fs i =
     (if i < 15 then sfi_direct (sv_i sv) ! i
      else if sfi_indirect (sv_i sv) = 0 then 0
      else bytes_words (sect fs (sfi_indirect (sv_i sv))) ! (i - 15))"

abbreviation indirect :: "sfs_vnode \<Rightarrow> int" where
  "indirect sv \<equiv> sfi_indirect (sv_i sv)"

definition file_ok :: "sfs_vnode \<Rightarrow> sfs_fs \<Rightarrow> bool" where
  "file_ok sv fs \<longleftrightarrow> length (sfi_direct (sv_i sv)) = 15 \<and> (indirect sv = 0 \<or> marked fs (indirect sv)) \<and>
     (\<forall>i < MAXBLOCKS. file_bn sv fs i = 0 \<or> marked fs (file_bn sv fs i) \<and> file_bn sv fs i \<noteq> indirect sv) \<and>
     (\<forall>i < MAXBLOCKS. \<forall>j < MAXBLOCKS. file_bn sv fs i = file_bn sv fs j \<and> i \<noteq> j \<longrightarrow> file_bn sv fs i = 0)"

definition owned :: "sfs_vnode \<Rightarrow> sfs_fs \<Rightarrow> int set" where
  "owned sv fs = {b. b \<noteq> 0 \<and> (b = indirect sv \<or> (\<exists>i < MAXBLOCKS. b = file_bn sv fs i))}"

definition file_blk :: "sfs_vnode \<Rightarrow> sfs_fs \<Rightarrow> nat \<Rightarrow> 8 word list" where
  "file_blk sv fs i = (if file_bn sv fs i = 0 then replicate 512 0 else sect fs (file_bn sv fs i))"

definition file_byte :: "sfs_vnode \<Rightarrow> sfs_fs \<Rightarrow> nat \<Rightarrow> 8 word" where
  "file_byte sv fs p = file_blk sv fs (p div 512) ! (p mod 512)"

text \<open>Only the block numbers and the dirty mark of the vnode have changed.\<close>

definition remapped :: "sfs_vnode \<Rightarrow> sfs_vnode \<Rightarrow> bool" where
  "remapped sv sv' \<longleftrightarrow> (\<exists>d x y. sv' = sv\<lparr>sv_i := (sv_i sv)\<lparr>sfi_direct := d, sfi_indirect := x\<rparr>, sv_dirty := y\<rparr>)"

definition grown :: "sfs_vnode \<Rightarrow> sfs_fs \<Rightarrow> sfs_vnode \<Rightarrow> sfs_fs \<Rightarrow> bool" where
  "grown sv fs sv' fs' \<longleftrightarrow> fs_ok fs' \<and> file_ok sv' fs' \<and> remapped sv sv' \<and> sfs_super fs' = sfs_super fs \<and>
     owned sv fs \<subseteq> owned sv' fs' \<and> (\<forall>b. marked fs b \<longrightarrow> marked fs' b) \<and> (\<forall>b. marked fs' b \<and> \<not> marked fs b \<longrightarrow> b \<in> owned sv' fs') \<and>
     (\<forall>b. marked fs b \<and> b \<notin> owned sv fs \<longrightarrow> b \<notin> owned sv' fs' \<and> sect fs' b = sect fs b)"

lemma remapped_refl: "remapped sv sv"
  unfolding remapped_def by (rule exI[of _ "sfi_direct (sv_i sv)"], rule exI[of _ "sfi_indirect (sv_i sv)"], rule exI[of _ "sv_dirty sv"]) simp

lemma remappedI: "sv' = sv\<lparr>sv_i := (sv_i sv)\<lparr>sfi_direct := d, sfi_indirect := x\<rparr>, sv_dirty := y\<rparr> \<Longrightarrow> remapped sv sv'"
  unfolding remapped_def by blast

lemma remapped_trans: "remapped a b \<Longrightarrow> remapped b c \<Longrightarrow> remapped a c"
  unfolding remapped_def[of a b] remapped_def[of b c] by (elim exE) (rule remappedI, simp)

lemma grown_refl: "fs_ok fs \<Longrightarrow> file_ok sv fs \<Longrightarrow> grown sv fs sv fs"
  by (simp add: grown_def remapped_refl)

lemma grown_trans:
  assumes "grown a fs b fs1" and "grown b fs1 c fs2"
  shows "grown a fs c fs2"
proof -
  have "remapped a c" using assms remapped_trans by (meson grown_def)
  then show ?thesis using assms unfolding grown_def by (auto 4 3)
qed

lemma grown_ok: "grown sv fs sv' fs' \<Longrightarrow> fs_ok fs'" "grown sv fs sv' fs' \<Longrightarrow> file_ok sv' fs'"
  by (simp_all add: grown_def)

text \<open>Two states of the same file in the same places.\<close>

lemma file_cong:
  assumes "sv_i sv' = (sv_i sv)\<lparr>sfi_size := s\<rparr>" and "sect fs' = sect fs"
  shows "file_bn sv' fs' = file_bn sv fs" and "file_blk sv' fs' = file_blk sv fs" and "file_byte sv' fs' = file_byte sv fs"
    and "owned sv' fs' = owned sv fs"
proof -
  show bn: "file_bn sv' fs' = file_bn sv fs" by (rule ext) (simp add: file_bn_def assms)
  show blk: "file_blk sv' fs' = file_blk sv fs" by (rule ext) (simp add: file_blk_def bn assms(2))
  show "file_byte sv' fs' = file_byte sv fs" by (rule ext) (simp add: file_byte_def blk)
  show "owned sv' fs' = owned sv fs" by (simp add: owned_def bn assms(1))
qed

definition dev_read :: "int \<Rightarrow> sfs_fs \<Rightarrow> sfs_fs" where
  "dev_read b fs = fs\<lparr>sfs_device := after_read b (sfs_device fs)\<rparr>"

lemma dev_read_simps [simp]:
  "sect (dev_read b fs) = sect fs" "sfs_super (dev_read b fs) = sfs_super fs" "sfs_freemap (dev_read b fs) = sfs_freemap fs" "marked (dev_read b fs) = marked fs"
  "d_blocks (sfs_device (dev_read b fs)) = d_blocks (sfs_device fs)"
  by (auto simp: dev_read_def marked_def)

lemma dev_read_file:
  "file_bn sv (dev_read b fs) = file_bn sv fs" "file_blk sv (dev_read b fs) = file_blk sv fs" "file_byte sv (dev_read b fs) = file_byte sv fs"
  "owned sv (dev_read b fs) = owned sv fs" "file_ok sv (dev_read b fs) = file_ok sv fs"
proof -
  have e: "sv_i sv = (sv_i sv)\<lparr>sfi_size := sfi_size (sv_i sv)\<rparr>" by simp
  note F = file_cong[OF e dev_read_simps(1)]
  show "file_bn sv (dev_read b fs) = file_bn sv fs" "file_blk sv (dev_read b fs) = file_blk sv fs" "file_byte sv (dev_read b fs) = file_byte sv fs"
    "owned sv (dev_read b fs) = owned sv fs" "file_ok sv (dev_read b fs) = file_ok sv fs"
    using F by (simp_all add: file_ok_def)
qed

lemma dev_read_ok: "fs_ok fs \<Longrightarrow> fs_ok (dev_read b fs)"
  using after_disk_ok by (simp add: fs_ok_def) (simp add: dev_read_def)

lemma dev_read_grown: "fs_ok fs \<Longrightarrow> file_ok sv fs \<Longrightarrow> grown sv fs sv (dev_read b fs)"
  by (simp add: grown_def dev_read_ok dev_read_file remapped_refl)

lemma fs_read:
  assumes "fs_ok fs" and "marked fs b"
  shows "sfs_rblock (replicate 512 0) b (sfs_device fs) = Some (OK, sect fs b, after_read b (sfs_device fs))" and "length (sect fs b) = 512"
  using assms sfs_rblock_spec[of "sfs_device fs" "replicate 512 0" b] by (auto simp: fs_ok_def marked_def disk_ok_def)

text \<open>A write of a whole block.\<close>

definition dev_write :: "int \<Rightarrow> 8 word list \<Rightarrow> sfs_fs \<Rightarrow> sfs_fs" where
  "dev_write b data fs = fs\<lparr>sfs_device := after_write b data (sfs_device fs)\<rparr>"

lemma dev_write_simps [simp]:
  "sect (dev_write b data fs) = (sect fs)(b := data)" "sfs_super (dev_write b data fs) = sfs_super fs" "sfs_freemap (dev_write b data fs) = sfs_freemap fs"
  "marked (dev_write b data fs) = marked fs" "d_blocks (sfs_device (dev_write b data fs)) = d_blocks (sfs_device fs)"
  by (auto simp: dev_write_def marked_def)

lemma dev_write_ok: "fs_ok fs \<Longrightarrow> length data = 512 \<Longrightarrow> fs_ok (dev_write b data fs)"
  using after_disk_ok by (simp add: fs_ok_def) (simp add: dev_write_def)

lemma fs_write:
  assumes "fs_ok fs" and "marked fs b" and "length data = 512"
  shows "sfs_wblock data b (sfs_device fs) = Some (OK, after_write b data (sfs_device fs))"
  using assms sfs_wblock_spec[of "sfs_device fs" data b] by (auto simp: fs_ok_def marked_def)

section \<open>Blocks\<close>

lemma sfs_balloc_cases:
  assumes ok: "fs_ok fs"
  obtains (no_space) "sfs_balloc fs = Some (ENOSPC, 0, fs)" "\<forall>b. 0 \<le> b \<and> b < nblocks fs \<longrightarrow> marked fs b"
  | (new) b fs' where "sfs_balloc fs = Some (OK, b, fs')" "0 < b" "\<not> marked fs b" "\<And>c. marked fs' c \<longleftrightarrow> c = b \<or> marked fs c"
      "sect fs' = (sect fs)(b := replicate 512 0)" "fs_ok fs'" "sfs_super fs' = sfs_super fs"
proof -
  have wf: "bitmap_wf (sfs_freemap fs)" and n: "nblocks fs \<le> int (nbits (sfs_freemap fs))" using ok by (simp_all add: fs_ok_def)
  show thesis
    using wf
  proof (cases rule: bm.alloc_cases)
    case full
    have "\<forall>b. 0 \<le> b \<and> b < nblocks fs \<longrightarrow> marked fs b" using full(1) n by (auto simp: marked_def nat_less_iff)
    moreover have "sfs_balloc fs = Some (ENOSPC, 0, fs)" using full(2) by (simp add: sfs_balloc_def)
    ultimately show thesis using no_space by blast
  next
    case (fresh i fm)
    define fs1 where "fs1 = fs\<lparr>sfs_freemap := fm, sfs_freemapdirty := True\<rparr>"
    have "\<not> (i = 0 \<or> nblocks fs \<le> int i)" using ok fresh(1,2) unfolding fs_ok_def by blast
    then have lt: "int i < nblocks fs" and pos: "0 < i" by simp_all
    have ok1: "fs_ok fs1" using ok fresh(5,6,7) by (simp add: fs_ok_def fs1_def)
    have "marked fs1 c \<longleftrightarrow> 0 \<le> c \<and> c < nblocks fs \<and> (nat c = i \<or> bitmap_bit (sfs_freemap fs) (nat c))" for c
      using fresh(7) by (simp add: marked_def fs1_def)
    moreover have "0 \<le> c \<and> nat c = i \<longleftrightarrow> c = int i" for c by linarith
    ultimately have m1: "marked fs1 c \<longleftrightarrow> c = int i \<or> marked fs c" for c using lt unfolding marked_def by blast
    have clear: "sfs_clearblock (int i) fs1 = Some (OK, dev_write (int i) (replicate 512 0) fs1)"
      using fs_write[OF ok1, of "int i" "replicate 512 0"] m1 by (simp add: sfs_clearblock_def dev_write_def)
    have run: "sfs_balloc fs = Some (OK, int i, dev_write (int i) (replicate 512 0) fs1)"
      using fresh(4) lt clear by (simp add: sfs_balloc_def fs1_def Let_def)
    show thesis
    proof (rule new[OF run])
      show "0 < int i" using pos by simp
      show "\<not> marked fs (int i)" using fresh(2) by (simp add: marked_def)
      show "marked (dev_write (int i) (replicate 512 0) fs1) c \<longleftrightarrow> c = int i \<or> marked fs c" for c using m1 by simp
      show "sect (dev_write (int i) (replicate 512 0) fs1) = (sect fs)(int i := replicate 512 0)" by simp (simp add: fs1_def)
      show "fs_ok (dev_write (int i) (replicate 512 0) fs1)" using dev_write_ok[OF ok1] by simp
      show "sfs_super (dev_write (int i) (replicate 512 0) fs1) = sfs_super fs" by simp (simp add: fs1_def)
    qed
  qed
qed

lemma bmap_result_ok:
  assumes "fs_ok fs" and "b = 0 \<or> marked fs b"
  shows "bmap_result b sv fs = Some (OK, b, sv, fs)"
proof (cases "b = 0")
  case True
  then show ?thesis by (simp add: bmap_result_def)
next
  case False
  then have b: "0 \<le> b" "b < nblocks fs" "nat b < nbits (sfs_freemap fs)" "bitmap_bit (sfs_freemap fs) (nat b)" "bitmap_wf (sfs_freemap fs)"
    using assms by (auto simp: marked_def fs_ok_def)
  then show ?thesis using bitmap_isset_spec[OF b(5,3)] False by (auto simp: bmap_result_def sfs_bused_def)
qed

text \<open>A file gets a new data block, number \<open>k\<close>; what the indirect block holds may be rewritten.\<close>

lemma grown_data:
  assumes ok: "fs_ok fs" "file_ok sv fs" "fs_ok fs'" and sup: "sfs_super fs' = sfs_super fs" and k: "k < MAXBLOCKS" "file_bn sv fs k = 0"
    and b: "0 < b" "\<not> marked fs b" "\<And>c. marked fs' c \<longleftrightarrow> c = b \<or> marked fs c"
    and re: "remapped sv sv'" "length (sfi_direct (sv_i sv')) = 15" "indirect sv' = indirect sv"
    and bn: "file_bn sv' fs' k = b" "\<And>i. i < MAXBLOCKS \<Longrightarrow> i \<noteq> k \<Longrightarrow> file_bn sv' fs' i = file_bn sv fs i"
    and sec: "sect fs' b = replicate 512 0" "\<And>c. c \<noteq> b \<Longrightarrow> c \<noteq> indirect sv \<or> c = 0 \<Longrightarrow> sect fs' c = sect fs c"
  shows "grown sv fs sv' fs'" and "i < MAXBLOCKS \<Longrightarrow> file_blk sv' fs' i = file_blk sv fs i"
proof -
  have F: "indirect sv = 0 \<or> marked fs (indirect sv)" "\<And>i. i < MAXBLOCKS \<Longrightarrow> file_bn sv fs i = 0 \<or> marked fs (file_bn sv fs i) \<and> file_bn sv fs i \<noteq> indirect sv"
      "\<And>i j. i < MAXBLOCKS \<Longrightarrow> j < MAXBLOCKS \<Longrightarrow> file_bn sv fs i = file_bn sv fs j \<Longrightarrow> i \<noteq> j \<Longrightarrow> file_bn sv fs i = 0"
    using ok(2) unfolding file_ok_def by blast+
  have ni: "b \<noteq> indirect sv" using F(1) b(1,2) by auto
  have nb: "file_bn sv fs i \<noteq> b" if "i < MAXBLOCKS" for i using F(2)[OF that] b(1,2) by auto
  have own: "owned sv' fs' = insert b (owned sv fs)"
  proof (rule set_eqI)
    fix c
    have "c = b \<or> (\<exists>i < MAXBLOCKS. c = file_bn sv fs i)" if "c = file_bn sv' fs' i" "i < MAXBLOCKS" for i
      using that bn by (cases "i = k") auto
    moreover have "\<exists>i < MAXBLOCKS. c = file_bn sv' fs' i" if "c = file_bn sv fs i" "i < MAXBLOCKS" "c \<noteq> 0" for i
      using that bn(2)[of i] k(2) by (intro exI[of _ i]) (cases "i = k", auto)
    moreover have "\<exists>i < MAXBLOCKS. b = file_bn sv' fs' i" using bn(1) k(1) by blast
    ultimately show "c \<in> owned sv' fs' \<longleftrightarrow> c \<in> insert b (owned sv fs)" using b(1) unfolding owned_def re(3) by blast
  qed
  have fok: "file_ok sv' fs'"
    unfolding file_ok_def re(3)
  proof (intro conjI allI impI)
    show "indirect sv = 0 \<or> marked fs' (indirect sv)" using F(1) b(3) by blast
    show "file_bn sv' fs' i = 0 \<or> marked fs' (file_bn sv' fs' i) \<and> file_bn sv' fs' i \<noteq> indirect sv" if "i < MAXBLOCKS" for i
      using F(2)[OF that] bn that b(3) ni by (cases "i = k") auto
    show "file_bn sv' fs' i = 0" if "i < MAXBLOCKS" "j < MAXBLOCKS" "file_bn sv' fs' i = file_bn sv' fs' j \<and> i \<noteq> j" for i j
      using F(3)[OF that(1,2)] bn that(3) bn(2)[OF that(1)] bn(2)[OF that(2)] nb[OF that(1)] nb[OF that(2)] by (cases "i = k"; cases "j = k") auto
  qed (rule re(2))
  have "sect fs' c = sect fs c \<and> c \<notin> owned sv' fs'" if "marked fs c" "c \<notin> owned sv fs" for c
    using sec(2)[of c] that b(1,2) unfolding own by (auto simp: owned_def)
  moreover have "owned sv fs \<subseteq> owned sv' fs'" "\<forall>c. marked fs' c \<and> \<not> marked fs c \<longrightarrow> c \<in> owned sv' fs'" using own b(3) by auto
  ultimately show "grown sv fs sv' fs'" unfolding grown_def using ok(3) fok re(1) sup b(3) by blast
  show "file_blk sv' fs' i = file_blk sv fs i" if "i < MAXBLOCKS"
    using F(2)[OF that] bn that k sec nb[OF that] unfolding file_blk_def by (cases "i = k") auto
qed

text \<open>A file gets an indirect block, which is all zeros.\<close>

lemma grown_indirect:
  assumes ok: "fs_ok fs" "file_ok sv fs" "fs_ok fs'" and sup: "sfs_super fs' = sfs_super fs" and none: "indirect sv = 0"
    and b: "0 < b" "\<not> marked fs b" "\<And>c. marked fs' c \<longleftrightarrow> c = b \<or> marked fs c"
    and sv': "sv' = sv\<lparr>sv_i := (sv_i sv)\<lparr>sfi_indirect := b\<rparr>, sv_dirty := True\<rparr>"
    and sec: "sect fs' = (sect fs)(b := replicate 512 0)"
  shows "grown sv fs sv' fs'" and "i < MAXBLOCKS \<Longrightarrow> file_blk sv' fs' i = file_blk sv fs i" and "indirect sv' = b"
proof -
  have F: "\<And>i. i < MAXBLOCKS \<Longrightarrow> file_bn sv fs i = 0 \<or> marked fs (file_bn sv fs i)"
      "\<And>i j. i < MAXBLOCKS \<Longrightarrow> j < MAXBLOCKS \<Longrightarrow> file_bn sv fs i = file_bn sv fs j \<Longrightarrow> i \<noteq> j \<Longrightarrow> file_bn sv fs i = 0"
    using ok(2) unfolding file_ok_def by blast+
  have bn: "file_bn sv' fs' i = file_bn sv fs i" if "i < MAXBLOCKS" for i
    using that none b(1) by (simp add: file_bn_def sv' sec bytes_words_zero MAXBLOCKS_def)
  have nb: "file_bn sv fs i \<noteq> b" if "i < MAXBLOCKS" for i using F(1)[OF that] b(1,2) by auto
  show ind: "indirect sv' = b" by (simp add: sv')
  have own: "owned sv' fs' = insert b (owned sv fs)" using bn b(1) none unfolding owned_def ind by auto
  have fok: "file_ok sv' fs'"
    unfolding file_ok_def ind
  proof (intro conjI allI impI)
    show "length (sfi_direct (sv_i sv')) = 15" using ok(2) by (simp add: sv' file_ok_def)
    show "b = 0 \<or> marked fs' b" using b(3) by blast
    show "file_bn sv' fs' i = 0 \<or> marked fs' (file_bn sv' fs' i) \<and> file_bn sv' fs' i \<noteq> b" if "i < MAXBLOCKS" for i
      using F(1)[OF that] bn[OF that] b(3) nb[OF that] by auto
    show "file_bn sv' fs' i = 0" if "i < MAXBLOCKS" "j < MAXBLOCKS" "file_bn sv' fs' i = file_bn sv' fs' j \<and> i \<noteq> j" for i j
      using F(2)[OF that(1,2)] that(3) bn[OF that(1)] bn[OF that(2)] by simp
  qed
  have "sect fs' c = sect fs c \<and> c \<notin> owned sv' fs'" if "marked fs c" "c \<notin> owned sv fs" for c using that b(1,2) unfolding own sec by auto
  moreover have "remapped sv sv'" by (rule remappedI[where d = "sfi_direct (sv_i sv)" and x = b and y = True]) (simp add: sv')
  moreover have "owned sv fs \<subseteq> owned sv' fs'" "\<forall>c. marked fs' c \<and> \<not> marked fs c \<longrightarrow> c \<in> owned sv' fs'" using own b(3) by auto
  ultimately show "grown sv fs sv' fs'" unfolding grown_def using ok(3) fok sup b(3) by blast
  show "file_blk sv' fs' i = file_blk sv fs i" if "i < MAXBLOCKS" using nb[OF that] unfolding file_blk_def bn[OF that] sec by simp
qed

definition disk_full :: "sfs_fs \<Rightarrow> bool" where
  "disk_full fs \<longleftrightarrow> (\<forall>b. 0 \<le> b \<and> b < nblocks fs \<longrightarrow> marked fs b)"

text \<open>What a call of \<open>sfs_bmap\<close> that may allocate has done, for block \<open>i\<close>.\<close>

definition mapped :: "sfs_vnode \<Rightarrow> sfs_fs \<Rightarrow> nat \<Rightarrow> (errno \<times> int \<times> sfs_vnode \<times> sfs_fs) option \<Rightarrow> bool" where
  "mapped sv fs i out \<longleftrightarrow> (\<exists>r b sv' fs'. out = Some (r, b, sv', fs') \<and> grown sv fs sv' fs' \<and>
     (\<forall>j < MAXBLOCKS. file_blk sv' fs' j = file_blk sv fs j) \<and>
     (r = OK \<and> b = file_bn sv' fs' i \<and> b \<noteq> 0 \<or> r = ENOSPC \<and> disk_full fs'))"

lemma mappedI:
  "out = Some (OK, b, sv', fs') \<Longrightarrow> grown sv fs sv' fs' \<Longrightarrow> (\<And>j. j < MAXBLOCKS \<Longrightarrow> file_blk sv' fs' j = file_blk sv fs j) \<Longrightarrow>
   b = file_bn sv' fs' i \<Longrightarrow> b \<noteq> 0 \<Longrightarrow> mapped sv fs i out"
  unfolding mapped_def by blast

lemma mapped_full: "out = Some (ENOSPC, b, sv, fs) \<Longrightarrow> fs_ok fs \<Longrightarrow> file_ok sv fs \<Longrightarrow> disk_full fs \<Longrightarrow> mapped sv fs i out"
  unfolding mapped_def using grown_refl by blast

lemma mapped_after:
  assumes "grown sv fs sv1 fs1" and "\<And>j. j < MAXBLOCKS \<Longrightarrow> file_blk sv1 fs1 j = file_blk sv fs j" and "mapped sv1 fs1 i out"
  shows "mapped sv fs i out"
  using assms grown_trans unfolding mapped_def by (elim exE conjE) (rule exI, rule exI, rule exI, rule exI, intro conjI, assumption, blast, auto)

lemma bn_marked: "file_ok sv fs \<Longrightarrow> i < MAXBLOCKS \<Longrightarrow> file_bn sv fs i = 0 \<or> marked fs (file_bn sv fs i)"
  by (auto simp: file_ok_def)

lemma bmap_direct_alloc:
  assumes ok: "fs_ok fs" "file_ok sv fs" and i: "i < 15"
  shows "mapped sv fs i (bmap_direct sv i True fs)"
proof -
  let ?d = "sfi_direct (sv_i sv)"
  have len: "length ?d = 15" using ok(2) by (simp add: file_ok_def)
  have bn: "file_bn sv fs i = ?d ! i" and im: "i < MAXBLOCKS" using i by (simp_all add: file_bn_def MAXBLOCKS_def)
  show ?thesis
  proof (cases "?d ! i = 0")
    case False
    have "bmap_direct sv i True fs = Some (OK, ?d ! i, sv, fs)"
      using len i False bmap_result_ok[OF ok(1), of "?d ! i" sv] bn_marked[OF ok(2) im] bn by (simp add: bmap_direct_def)
    then show ?thesis using False grown_refl[OF ok] bn by (intro mappedI) auto
  next
    case True
    from ok(1) show ?thesis
    proof (cases rule: sfs_balloc_cases)
      case no_space
      then have "bmap_direct sv i True fs = Some (ENOSPC, 0, sv, fs)" using len i True by (simp add: bmap_direct_def)
      then show ?thesis using mapped_full ok no_space(2) by (simp add: disk_full_def)
    next
      case (new b fs')
      define sv' where "sv' = sv\<lparr>sv_i := (sv_i sv)\<lparr>sfi_direct := ?d[i := b]\<rparr>, sv_dirty := True\<rparr>"
      have run: "bmap_direct sv i True fs = Some (OK, b, sv', fs')"
        using len i True new(1,4) bmap_result_ok[OF new(6), of b sv'] by (simp add: bmap_direct_def sv'_def)
      have ni: "b \<noteq> indirect sv" using ok(2) new(2,3) by (auto simp: file_ok_def)
      have bn': "file_bn sv' fs' i = b" "\<And>j. j < MAXBLOCKS \<Longrightarrow> j \<noteq> i \<Longrightarrow> file_bn sv' fs' j = file_bn sv fs j"
        using i len ni by (simp_all add: file_bn_def sv'_def new(5))
      have re: "remapped sv sv'" by (rule remappedI[where d = "?d[i := b]" and x = "indirect sv" and y = True]) (simp add: sv'_def)
      have "length (sfi_direct (sv_i sv')) = 15" "indirect sv' = indirect sv" using len by (simp_all add: sv'_def)
      note G = grown_data[OF ok new(6,7) im _ new(2,3,4) re this bn']
      have "grown sv fs sv' fs'" "\<And>j. j < MAXBLOCKS \<Longrightarrow> file_blk sv' fs' j = file_blk sv fs j"
        using G True bn new(5) by simp_all
      then show ?thesis using bn'(1) new(2) by (intro mappedI[OF run]) auto
    qed
  qed
qed

lemma bmap_idbuf_alloc:
  assumes ok: "fs_ok fs" "file_ok sv fs" and ind: "indirect sv \<noteq> 0" and i: "15 \<le> i" "i < MAXBLOCKS"
    and idbuf: "idbuf = bytes_words (sect fs (indirect sv))"
  shows "mapped sv fs i (bmap_idbuf sv (indirect sv) idbuf (i - 15) True fs)"
proof -
  let ?id = "indirect sv"
  have m: "marked fs ?id" using ok(2) ind by (auto simp: file_ok_def)
  have len: "length idbuf = 128" "words_ok idbuf" "i - 15 < 128"
    using bytes_words_facts[of "sect fs ?id"] fs_read(2)[OF ok(1) m] i by (simp_all add: idbuf MAXBLOCKS_def)
  have bn: "file_bn sv fs j = idbuf ! (j - 15)" if "15 \<le> j" for j using that ind by (simp add: file_bn_def idbuf)
  show ?thesis
  proof (cases "idbuf ! (i - 15) = 0")
    case False
    have run: "bmap_idbuf sv ?id idbuf (i - 15) True fs = Some (OK, idbuf ! (i - 15), sv, fs)"
      using len False bmap_result_ok[OF ok(1), of "idbuf ! (i - 15)" sv] bn_marked[OF ok(2) i(2)] bn[OF i(1)] by (simp add: bmap_idbuf_def)
    show ?thesis using False grown_refl[OF ok] bn[OF i(1)] by (intro mappedI[OF run]) auto
  next
    case True
    from ok(1) show ?thesis
    proof (cases rule: sfs_balloc_cases)
      case no_space
      then have "bmap_idbuf sv ?id idbuf (i - 15) True fs = Some (ENOSPC, 0, sv, fs)" using len True by (simp add: bmap_idbuf_def)
      then show ?thesis using mapped_full ok no_space(2) by (simp add: disk_full_def)
    next
      case (new b fs1)
      let ?ws = "idbuf[i - 15 := b]"
      define fs2 where "fs2 = dev_write ?id (words_bytes ?ws) fs1"
      have ne: "b \<noteq> ?id" "marked fs1 ?id" "marked fs1 b" using m new(3,4) by auto
      have "b < 4294967296" using new(6) ne(3) by (auto simp: marked_def fs_ok_def disk_ok_def)
      then have ws: "words_ok ?ws" using len(2) new(2) set_update_subset_insert[of idbuf "i - 15" b] by (auto simp: words_ok_def)
      have wr: "sfs_wblock (words_bytes ?ws) ?id (sfs_device fs1) = Some (OK, after_write ?id (words_bytes ?ws) (sfs_device fs1))"
        using fs_write[OF new(6) ne(2)] len(1) by simp
      have ok2: "fs_ok fs2" using dev_write_ok[OF new(6)] len(1) by (simp add: fs2_def)
      have m2: "marked fs2 c \<longleftrightarrow> c = b \<or> marked fs c" for c using new(4) by (simp add: fs2_def)
      have s2: "sfs_super fs2 = sfs_super fs" using new(7) by (simp add: fs2_def)
      have run: "bmap_idbuf sv ?id idbuf (i - 15) True fs = Some (OK, b, sv, fs2)"
        using len True new(1) wr bmap_result_ok[OF ok2, of b sv] m2 by (simp add: bmap_idbuf_def fs2_def dev_write_def)
      have sec: "sect fs2 b = replicate 512 0" "\<And>c. c \<noteq> b \<Longrightarrow> c \<noteq> ?id \<or> c = 0 \<Longrightarrow> sect fs2 c = sect fs c" "sect fs2 ?id = words_bytes ?ws"
        using ne(1) ind new(5) by (auto simp: fs2_def)
      have "file_bn sv fs2 j = ?ws ! (j - 15)" if "15 \<le> j" for j using that ind by (simp add: file_bn_def sec(3) bytes_words_bytes[OF ws])
      moreover have "file_bn sv fs2 j = file_bn sv fs j" if "j < 15" for j using that by (simp add: file_bn_def)
      moreover have "j - 15 \<noteq> i - 15" if "j \<noteq> i" "15 \<le> j" for j using that i(1) by simp
      ultimately have bn': "file_bn sv fs2 i = b" "\<And>j. j < MAXBLOCKS \<Longrightarrow> j \<noteq> i \<Longrightarrow> file_bn sv fs2 j = file_bn sv fs j"
        using len i(1) bn by (simp, metis nth_list_update_neq not_le)
      have "length (sfi_direct (sv_i sv)) = 15" using ok(2) by (simp add: file_ok_def)
      note G = grown_data[OF ok ok2 s2 i(2) _ new(2,3) m2 remapped_refl this refl bn' sec(1,2)]
      show ?thesis using G True bn[OF i(1)] bn'(1) new(2) by (intro mappedI[OF run]) auto
    qed
  qed
qed

lemma bmap_alloc:
  assumes ok: "fs_ok fs" "file_ok sv fs" and i: "i < MAXBLOCKS"
  shows "mapped sv fs i (sfs_bmap sv (int i) True fs)"
proof (cases "i < 15")
  case True
  then show ?thesis using bmap_direct_alloc[OF ok] by (simp add: sfs_bmap_def SFS_NDIRECT_def)
next
  case False
  then have i15: "15 \<le> i" by simp
  have ix: "(int i - 15) div 128 = 0" "nat ((int i - 15) mod 128) = i - 15" "nat (int i - 15) = i - 15" using i i15 by (auto simp: MAXBLOCKS_def)
  show ?thesis
  proof (cases "indirect sv = 0")
    case False
    then have m: "marked fs (indirect sv)" using ok(2) by (auto simp: file_ok_def)
    have e: "sfs_bmap sv (int i) True fs = bmap_idbuf sv (indirect sv) (bytes_words (sect fs (indirect sv))) (i - 15) True (dev_read (indirect sv) fs)"
      using False i15 ix fs_read(1)[OF ok(1) m] by (simp add: sfs_bmap_def SFS_NDIRECT_def SFS_DBPERIDB_def dev_read_def Let_def)
    have "mapped sv (dev_read (indirect sv) fs) i (sfs_bmap sv (int i) True fs)"
      unfolding e using False ok i i15 by (intro bmap_idbuf_alloc) (simp_all add: dev_read_ok dev_read_file)
    from mapped_after[OF dev_read_grown[OF ok] _ this] show ?thesis by (simp add: dev_read_file)
  next
    case True
    from ok(1) show ?thesis
    proof (cases rule: sfs_balloc_cases)
      case no_space
      then have "sfs_bmap sv (int i) True fs = Some (ENOSPC, 0, sv, fs)"
        using True i15 ix by (simp add: sfs_bmap_def SFS_NDIRECT_def SFS_DBPERIDB_def Let_def)
      then show ?thesis using mapped_full ok no_space(2) by (simp add: disk_full_def)
    next
      case (new b fs1)
      define sv1 where "sv1 = sv\<lparr>sv_i := (sv_i sv)\<lparr>sfi_indirect := b\<rparr>, sv_dirty := True\<rparr>"
      note G = grown_indirect[OF ok new(6,7) True new(2,3,4) sv1_def new(5)]
      have e: "sfs_bmap sv (int i) True fs = bmap_idbuf sv1 (indirect sv1) (bytes_words (sect fs1 (indirect sv1))) (i - 15) True fs1"
        using True i15 ix new(1,5) G(3)
        by (simp add: sfs_bmap_def SFS_NDIRECT_def SFS_DBPERIDB_def Let_def bytes_words_zero) (simp add: sv1_def)
      have "mapped sv1 fs1 i (sfs_bmap sv (int i) True fs)"
        unfolding e using new(2) G(3) grown_ok[OF G(1)] i i15 by (intro bmap_idbuf_alloc) simp_all
      from mapped_after[OF G(1,2) this] show ?thesis .
    qed
  qed
qed

lemma bmap_lookup:
  assumes ok: "fs_ok fs" "file_ok sv fs" and i: "i < MAXBLOCKS"
  shows "\<exists>fs'. sfs_bmap sv (int i) False fs = Some (OK, file_bn sv fs i, sv, fs') \<and> (fs' = fs \<or> (\<exists>b. fs' = dev_read b fs))"
proof (cases "i < 15")
  case True
  then have "load (Some (sfi_direct (sv_i sv))) (int i) = Some (file_bn sv fs i)" using ok(2) by (simp add: file_ok_def file_bn_def)
  then show ?thesis using True bmap_result_ok[OF ok(1)] bn_marked[OF ok(2) i] by (simp add: sfs_bmap_def SFS_NDIRECT_def bmap_direct_def)
next
  case False
  then have i15: "15 \<le> i" by simp
  have ix: "(int i - 15) div 128 = 0" "nat ((int i - 15) mod 128) = i - 15" "nat (int i - 15) = i - 15" using i i15 by (auto simp: MAXBLOCKS_def)
  show ?thesis
  proof (cases "indirect sv = 0")
    case True
    then show ?thesis using i15 ix by (simp add: sfs_bmap_def SFS_NDIRECT_def SFS_DBPERIDB_def file_bn_def Let_def)
  next
    case False
    then have m: "marked fs (indirect sv)" using ok(2) by (auto simp: file_ok_def)
    have "length (bytes_words (sect fs (indirect sv))) = 128" using bytes_words_facts fs_read(2)[OF ok(1) m] by simp
    moreover have "i - 15 < 128" using i by (simp add: MAXBLOCKS_def)
    ultimately have "load (Some (bytes_words (sect fs (indirect sv)))) (int (i - 15)) = Some (file_bn sv fs i)" using i15 False ix(3) by (simp add: file_bn_def)
    then have "bmap_idbuf sv (indirect sv) (bytes_words (sect fs (indirect sv))) (i - 15) False (dev_read (indirect sv) fs) =
        Some (OK, file_bn sv fs i, sv, dev_read (indirect sv) fs)"
      using bmap_result_ok[OF dev_read_ok[OF ok(1)]] bn_marked[OF ok(2) i] by (simp add: bmap_idbuf_def)
    then have "sfs_bmap sv (int i) False fs = Some (OK, file_bn sv fs i, sv, dev_read (indirect sv) fs)"
      using False i15 ix fs_read(1)[OF ok(1) m] by (simp add: sfs_bmap_def SFS_NDIRECT_def SFS_DBPERIDB_def dev_read_def Let_def)
    then show ?thesis by blast
  qed
qed

lemma bmap_beyond:
  assumes "int MAXBLOCKS \<le> i"
  shows "sfs_bmap sv i doalloc fs = Some (EINVAL, 0, sv, fs)"
proof -
  have "0 < (i - 15) div 128" using assms by (simp add: MAXBLOCKS_def pos_imp_zdiv_pos_iff)
  then show ?thesis using assms by (simp add: sfs_bmap_def SFS_NDIRECT_def SFS_DBPERIDB_def MAXBLOCKS_def Let_def)
qed

end
