(* ===== verification/Sfs_Io.thy ===== *)
theory Sfs_Io
  imports Sfs_File
begin

text \<open>
  What reading and writing a file of SFS do to its contents and to the rest of the disk.

  \<open>written\<close> says that a file holds new bytes at an offset and nothing else has changed; \<open>io_written\<close> and \<open>io_read\<close>
  describe the outcome of one transfer, and the transfers of \<open>sfs_io\<close>, a partial block, whole blocks and a partial
  block, are put together from them.
\<close>

section \<open>Writing a block of a file\<close>

definition MAXBYTES :: nat where
  "MAXBYTES = 73216"

definition written :: "sfs_vnode \<Rightarrow> sfs_fs \<Rightarrow> sfs_vnode \<Rightarrow> sfs_fs \<Rightarrow> nat \<Rightarrow> 8 word list \<Rightarrow> bool" where
  "written sv fs sv' fs' pos data \<longleftrightarrow> grown sv fs sv' fs' \<and>
     (\<forall>p < MAXBYTES. file_byte sv' fs' p = (if pos \<le> p \<and> p < pos + length data then data ! (p - pos) else file_byte sv fs p))"

lemma written_append:
  assumes "written sv fs sv1 fs1 pos xs" and "written sv1 fs1 sv2 fs2 (pos + length xs) ys"
  shows "written sv fs sv2 fs2 pos (xs @ ys)"
  unfolding written_def
proof (intro conjI allI impI)
  show "grown sv fs sv2 fs2" using assms grown_trans unfolding written_def by blast
  fix p assume "p < MAXBYTES"
  then show "file_byte sv2 fs2 p = (if pos \<le> p \<and> p < pos + length (xs @ ys) then (xs @ ys) ! (p - pos) else file_byte sv fs p)"
    using assms unfolding written_def by (auto simp: nth_append)
qed

lemma written_Nil: "grown sv fs sv' fs' \<Longrightarrow> (\<And>i. i < MAXBLOCKS \<Longrightarrow> file_blk sv' fs' i = file_blk sv fs i) \<Longrightarrow> written sv fs sv' fs' pos []"
  by (auto simp: written_def file_byte_def MAXBYTES_def MAXBLOCKS_def less_mult_imp_div_less)

lemma bn_apart: "file_ok sv fs \<Longrightarrow> i < MAXBLOCKS \<Longrightarrow> j < MAXBLOCKS \<Longrightarrow> file_bn sv fs i = file_bn sv fs j \<Longrightarrow> i \<noteq> j \<Longrightarrow> file_bn sv fs i = 0"
  by (simp add: file_ok_def)

lemma write_block:
  assumes ok: "fs_ok fs" "file_ok sv fs" and i: "i < MAXBLOCKS" "file_bn sv fs i \<noteq> 0" and len: "length data = 512"
  shows "grown sv fs sv (dev_write (file_bn sv fs i) data fs)" and "file_blk sv (dev_write (file_bn sv fs i) data fs) i = data"
    and "j < MAXBLOCKS \<Longrightarrow> j \<noteq> i \<Longrightarrow> file_blk sv (dev_write (file_bn sv fs i) data fs) j = file_blk sv fs j"
proof -
  let ?b = "file_bn sv fs i" and ?fs = "dev_write (file_bn sv fs i) data fs"
  have ni: "?b \<noteq> indirect sv" using ok(2) i by (auto simp: file_ok_def)
  have other: "file_bn sv fs j \<noteq> ?b" if "j < MAXBLOCKS" "j \<noteq> i" for j
    using bn_apart[OF ok(2) i(1) that(1)] that(2) i(2) by auto
  have bn: "file_bn sv ?fs = file_bn sv fs" using ni by (rule_tac ext) (simp add: file_bn_def)
  then have own: "owned sv ?fs = owned sv fs" by (simp add: owned_def)
  have "file_ok sv ?fs" using ok(2) by (simp add: file_ok_def bn)
  moreover have "?b \<in> owned sv fs" using i by (auto simp: owned_def)
  then have "sect ?fs c = sect fs c" if "c \<notin> owned sv fs" for c using that by auto
  ultimately show "grown sv fs sv ?fs" unfolding grown_def own dev_write_simps(2,4) using dev_write_ok[OF ok(1) len] remapped_refl by blast
  show "file_blk sv ?fs i = data" using i(2) by (simp add: file_blk_def bn)
  show "file_blk sv ?fs j = file_blk sv fs j" if "j < MAXBLOCKS" "j \<noteq> i" using other[OF that] by (simp add: file_blk_def bn)
qed

text \<open>\<open>len\<close> bytes of block \<open>i\<close> from \<open>skip\<close> on are replaced.\<close>

lemma written_block:
  assumes "grown sv fs sv' fs'" and i: "i < MAXBLOCKS" and "skip + length bs \<le> 512" and old: "length (file_blk sv fs i) = 512"
    and new: "file_blk sv' fs' i = take skip (file_blk sv fs i) @ bs @ drop (skip + length bs) (file_blk sv fs i)"
    and others: "\<And>j. j < MAXBLOCKS \<Longrightarrow> j \<noteq> i \<Longrightarrow> file_blk sv' fs' j = file_blk sv fs j"
  shows "written sv fs sv' fs' (i * 512 + skip) bs"
  unfolding written_def
proof (intro conjI allI impI)
  fix p assume p: "p < MAXBYTES"
  then have d: "p div 512 < MAXBLOCKS" by (simp add: MAXBYTES_def MAXBLOCKS_def less_mult_imp_div_less)
  define q r where "q = p div 512" and "r = p mod 512"
  then have qr: "p div 512 = q" "p mod 512 = r" by simp_all
  have p': "p = q * 512 + r" "r < 512" unfolding q_def r_def by simp_all
  show "file_byte sv' fs' p = (if i * 512 + skip \<le> p \<and> p < i * 512 + skip + length bs then bs ! (p - (i * 512 + skip)) else file_byte sv fs p)"
    unfolding file_byte_def qr
  proof (cases "q = i")
    case True
    have "i * 512 + skip \<le> p \<and> p < i * 512 + skip + length bs \<longleftrightarrow> skip \<le> r \<and> r < skip + length bs" "p - (i * 512 + skip) = r - skip"
      using p'(1) True by linarith+
    moreover have "(take skip xs @ bs @ drop (skip + length bs) xs) ! r = (if skip \<le> r \<and> r < skip + length bs then bs ! (r - skip) else xs ! r)"
      if "length xs = 512" for xs using that assms(3) p'(2) by (auto simp: nth_append)
    ultimately show "file_blk sv' fs' q ! r = (if i * 512 + skip \<le> p \<and> p < i * 512 + skip + length bs then bs ! (p - (i * 512 + skip)) else file_blk sv fs q ! r)"
      using True new old by simp
  next
    case False
    then have n: "\<not> (i * 512 + skip \<le> p \<and> p < i * 512 + skip + length bs)" using p' assms(3) by (cases "q < i") linarith+
    show "file_blk sv' fs' q ! r = (if i * 512 + skip \<le> p \<and> p < i * 512 + skip + length bs then bs ! (p - (i * 512 + skip)) else file_blk sv fs q ! r)"
      unfolding others[OF d[unfolded qr] False] if_not_P[OF n] by (rule refl)
  qed
qed (rule assms(1))

lemma length_file_blk: "fs_ok fs \<Longrightarrow> length (file_blk sv fs i) = 512"
  by (simp add: file_blk_def fs_ok_def disk_ok_def)

section \<open>Writing\<close>

definition io_written :: "sfs_vnode \<Rightarrow> uio \<Rightarrow> umem \<Rightarrow> sfs_fs \<Rightarrow> int \<Rightarrow> (errno \<times> sfs_vnode \<times> uio \<times> umem \<times> sfs_fs) option \<Rightarrow> bool" where
  "io_written sv u mem fs n out \<longleftrightarrow> (\<exists>r sv' fs' k. out = Some (r, sv', uio_advance k u, mem, fs') \<and> 0 \<le> k \<and> k \<le> n \<and>
     written sv fs sv' fs' (nat (uio_offset u)) (read_bytes (iov_base u) (nat k) (um_bytes mem)) \<and> (r = OK \<and> k = n \<or> r = ENOSPC \<and> disk_full fs'))"

text \<open>A request at byte \<open>skip\<close> of block \<open>i\<close>, with \<open>len\<close> bytes to go in that block.\<close>

definition in_block :: "uio \<Rightarrow> umem \<Rightarrow> nat \<Rightarrow> nat \<Rightarrow> int \<Rightarrow> bool" where
  "in_block u mem i skip len \<longleftrightarrow> uio_fits u mem len \<and> uio_offset u = int (i * 512 + skip) \<and> i < MAXBLOCKS \<and> int skip + len \<le> 512"

lemma in_blockD:
  assumes "in_block u mem i skip len"
  shows "uio_fits u mem len" "nat (uio_offset u) = i * 512 + skip" "i < MAXBLOCKS" "int skip + len \<le> 512" "0 \<le> len"
  using assms by (simp_all add: in_block_def uio_fits_def)

lemma in_block_fileblock: "in_block u mem i skip len \<Longrightarrow> skip < 512 \<Longrightarrow> u32 (c_div (uio_offset u) SFS_BLOCKSIZE) = int i"
proof -
  assume b: "in_block u mem i skip len" and s: "skip < 512"
  have off: "uio_offset u = int i * 512 + int skip" and i: "i < 143" using b by (simp_all add: in_block_def MAXBLOCKS_def)
  have "(int i * 512 + int skip) div 512 = int i" using s by simp
  then show ?thesis using off i by (simp add: c_div_nonneg SFS_BLOCKSIZE_def)
qed

lemma mapped_cases:
  assumes "mapped sv fs i out"
  obtains (mapped) b sv' fs' where "out = Some (OK, b, sv', fs')" "grown sv fs sv' fs'" "\<And>j. j < MAXBLOCKS \<Longrightarrow> file_blk sv' fs' j = file_blk sv fs j"
      "b = file_bn sv' fs' i" "b \<noteq> 0"
  | (no_space) b sv' fs' where "out = Some (ENOSPC, b, sv', fs')" "grown sv fs sv' fs'" "\<And>j. j < MAXBLOCKS \<Longrightarrow> file_blk sv' fs' j = file_blk sv fs j" "disk_full fs'"
  using assms unfolding mapped_def by blast

lemma io_written_full:
  assumes "out = Some (ENOSPC, sv', u, mem, fs')" and "grown sv fs sv' fs'" and "\<And>j. j < MAXBLOCKS \<Longrightarrow> file_blk sv' fs' j = file_blk sv fs j" and "disk_full fs'"
    and "uio_fits u mem n"
  shows "io_written sv u mem fs n out"
proof -
  have "read_bytes (iov_base u) (nat 0) (um_bytes mem) = []" by (simp add: read_bytes_def)
  then have "written sv fs sv' fs' (nat (uio_offset u)) (read_bytes (iov_base u) (nat 0) (um_bytes mem))" using written_Nil[OF assms(2,3)] by simp
  moreover have "0 \<le> n" using assms(5) by (simp add: uio_fits_def)
  ultimately show ?thesis unfolding io_written_def using assms(1,4) uio_advance_0[OF assms(5)]
    by (intro exI[of _ ENOSPC] exI[of _ sv'] exI[of _ fs'] exI[of _ 0]) simp
qed

lemma io_written_block:
  assumes b: "in_block u mem i skip n" and g: "grown sv fs sv1 fs1" "\<And>j. j < MAXBLOCKS \<Longrightarrow> file_blk sv1 fs1 j = file_blk sv fs j" and bn: "file_bn sv1 fs1 i \<noteq> 0"
    and fok: "fs_ok fs" and data: "data = take skip (file_blk sv fs i) @ read_bytes (iov_base u) (nat n) (um_bytes mem) @ drop (skip + nat n) (file_blk sv fs i)"
    and out: "out = Some (OK, sv1, uio_advance n u, mem, dev_write (file_bn sv1 fs1 i) data fs1)"
  shows "io_written sv u mem fs n out"
proof -
  note B = in_blockD[OF b]
  let ?bs = "read_bytes (iov_base u) (nat n) (um_bytes mem)"
  have len: "skip + length ?bs \<le> 512" using B(4,5) by simp
  have "length data = 512" using len length_file_blk[OF fok, of sv i] by (simp add: data)
  note W = write_block[OF grown_ok[OF g(1)] B(3) bn this]
  have "written sv fs sv1 (dev_write (file_bn sv1 fs1 i) data fs1) (i * 512 + skip) ?bs"
    by (rule written_block[OF grown_trans[OF g(1) W(1)] B(3) len length_file_blk[OF fok]]) (use W(2,3) g(2) data in auto)
  then show ?thesis unfolding io_written_def using out B(2,5) by (intro exI[of _ OK] exI[of _ sv1] exI[of _ "dev_write (file_bn sv1 fs1 i) data fs1"] exI[of _ n]) simp
qed

lemma partial_write:
  assumes ok: "fs_ok fs" "file_ok sv fs" and b: "in_block u mem i skip len" "skip < 512" and w: "uio_rw u = UIO_WRITE"
  shows "io_written sv u mem fs len (sfs_partialio sv u mem (int skip) len fs)"
proof -
  note B = in_blockD[OF b(1)] and fb = in_block_fileblock[OF b]
  have a: "u32 (int skip + len) \<le> SFS_BLOCKSIZE" using B(4,5) by (simp add: SFS_BLOCKSIZE_def)
  from bmap_alloc[OF ok B(3)] show ?thesis
  proof (cases rule: mapped_cases)
    case (no_space bb sv1 fs1)
    have "sfs_partialio sv u mem (int skip) len fs = Some (ENOSPC, sv1, u, mem, fs1)"
      using no_space(1) a fb w by (simp add: sfs_partialio_def)
    then show ?thesis by (rule io_written_full) (use no_space B(1) in auto)
  next
    case (mapped bb sv1 fs1)
    have m: "marked fs1 bb" using bn_marked[OF grown_ok(2)[OF mapped(2)] B(3)] mapped(4,5) by auto
    have blk: "file_blk sv fs i = sect fs1 bb" using mapped(3)[OF B(3)] mapped(4,5) by (simp add: file_blk_def)
    define fs2 where "fs2 = dev_read bb fs1"
    let ?bs = "read_bytes (iov_base u) (nat len) (um_bytes mem)"
    let ?data = "take skip (file_blk sv fs i) @ ?bs @ drop (skip + nat len) (file_blk sv fs i)"
    have g2: "grown sv fs sv1 fs2" "\<And>j. j < MAXBLOCKS \<Longrightarrow> file_blk sv1 fs2 j = file_blk sv fs j" "file_bn sv1 fs2 i = bb"
      using grown_trans[OF mapped(2) dev_read_grown[OF grown_ok[OF mapped(2)]]] mapped(3,4) by (simp_all add: fs2_def dev_read_file)
    have l: "length (file_blk sv fs i) = 512" by (rule length_file_blk[OF ok(1)])
    have "uiomove (drop skip (file_blk sv fs i)) len u mem = Some (OK, put (drop skip (file_blk sv fs i)) 0 ?bs, uio_advance len u, mem)"
      using uiomove_spec[OF B(1,5), of len "drop skip (file_blk sv fs i)"] w B(4) l b(2) by (simp add: min_def)
    moreover have "take skip (file_blk sv fs i) @ put (drop skip (file_blk sv fs i)) 0 ?bs = ?data" by (simp add: put_def add.commute)
    moreover have "sfs_wblock ?data bb (sfs_device fs2) = Some (OK, after_write bb ?data (sfs_device fs2))"
      using fs_write[OF grown_ok(1)[OF g2(1)]] m B(4,5) l by (simp add: fs2_def)
    ultimately have "sfs_partialio sv u mem (int skip) len fs = Some (OK, sv1, uio_advance len u, mem, dev_write bb ?data fs2)"
      using a fb w mapped(1,5) fs_read(1)[OF grown_ok(1)[OF mapped(2)] m] blk
      by (simp add: sfs_partialio_def fs2_def dev_read_def dev_write_def Let_def)
    then show ?thesis using io_written_block[OF b(1) g2(1,2) _ ok(1) refl] mapped(5) g2(3) by simp
  qed
qed

lemma block_write:
  assumes ok: "fs_ok fs" "file_ok sv fs" and b: "in_block u mem i 0 512" and w: "uio_rw u = UIO_WRITE"
  shows "io_written sv u mem fs 512 (sfs_blockio sv u mem fs)"
proof -
  note B = in_blockD[OF b] and fb = in_block_fileblock[OF b]
  have res: "512 \<le> uio_resid u" "uio_resid u < 2147483648" "0 \<le> uio_offset u" "uio_offset u < 2147483648 - 512"
    using b by (simp_all add: in_block_def uio_fits_def MAXBLOCKS_def)
  from bmap_alloc[OF ok B(3)] show ?thesis
  proof (cases rule: mapped_cases)
    case (no_space bb sv1 fs1)
    have "sfs_blockio sv u mem fs = Some (ENOSPC, sv1, u, mem, fs1)" using no_space(1) fb w by (simp add: sfs_blockio_def)
    then show ?thesis by (rule io_written_full) (use no_space B(1) in auto)
  next
    case (mapped bb sv1 fs1)
    have m: "marked fs1 bb" using bn_marked[OF grown_ok(2)[OF mapped(2)] B(3)] mapped(4,5) by auto
    have ok1: "fs_ok fs1" by (rule grown_ok(1)[OF mapped(2)])
    have bb: "0 \<le> bb" "bb < d_blocks (sfs_device fs1)" "bb < 4194303" using m ok1 by (auto simp: marked_def fs_ok_def disk_ok_def)
    let ?u = "u\<lparr>uio_offset := bb * 512, uio_resid := 512\<rparr>" and ?bs = "read_bytes (iov_base u) 512 (um_bytes mem)"
    have "uio_fits ?u mem 512" using B(1) bb by (auto simp: uio_fits_def)
    then have rw: "sfs_rwblock ?u mem (sfs_device fs1) = Some (OK, uio_advance 512 ?u, mem, after_write bb ?bs (sfs_device fs1))"
      using rwblock_write[of "sfs_device fs1" ?u mem bb] ok1 bb w by (simp add: fs_ok_def)
    have "uio_advance 512 ?u\<lparr>uio_offset := s32 (uio_offset (uio_advance 512 ?u) - bb * 512 + uio_offset u),
        uio_resid := u32 (uio_resid (uio_advance 512 ?u) - 512 + uio_resid u)\<rparr> = uio_advance 512 u"
      using bb res by (simp add: uio_advance_def)
    then have "sfs_blockio sv u mem fs = Some (OK, sv1, uio_advance 512 u, mem, dev_write bb ?bs fs1)"
      using fb w mapped(1,5) rw res bb by (simp add: sfs_blockio_def SFS_BLOCKSIZE_def dev_write_def Let_def)
    then show ?thesis using io_written_block[OF b mapped(2,3) _ ok(1) refl, of _ ] mapped(4,5) length_file_blk[OF ok(1), of sv i] by simp
  qed
qed

lemma read_bytes_append: "read_bytes a (n + k) m = read_bytes a n m @ read_bytes (a + int n) k m"
  by (rule nth_equalityI) (auto simp: nth_append)

lemma io_written_cases:
  assumes "io_written sv u mem fs n out"
  obtains (finished) sv' fs' where "out = Some (OK, sv', uio_advance n u, mem, fs')" "written sv fs sv' fs' (nat (uio_offset u)) (read_bytes (iov_base u) (nat n) (um_bytes mem))"
  | (no_space) sv' fs' u' where "out = Some (ENOSPC, sv', u', mem, fs')" "\<And>m. n \<le> m \<Longrightarrow> io_written sv u mem fs m out"
proof -
  obtain r sv' fs' k where o: "out = Some (r, sv', uio_advance k u, mem, fs')" "0 \<le> k" "k \<le> n"
      "written sv fs sv' fs' (nat (uio_offset u)) (read_bytes (iov_base u) (nat k) (um_bytes mem))" "r = OK \<and> k = n \<or> r = ENOSPC \<and> disk_full fs'"
    using assms unfolding io_written_def by blast
  from o(5) show thesis
  proof
    assume "r = OK \<and> k = n"
    then show thesis using finished o by blast
  next
    assume e: "r = ENOSPC \<and> disk_full fs'"
    have "io_written sv u mem fs m out" if "n \<le> m" for m
      unfolding io_written_def using o e that by (intro exI[of _ r] exI[of _ sv'] exI[of _ fs'] exI[of _ k]) simp
    then show thesis using no_space o(1) e by blast
  qed
qed

lemma io_written_then:
  assumes w: "written sv fs sv1 fs1 (nat (uio_offset u)) (read_bytes (iov_base u) (nat n) (um_bytes mem))"
    and n: "0 \<le> n" "0 \<le> uio_offset u" "uio_offset u + n < 2147483648" and rest: "io_written sv1 (uio_advance n u) mem fs1 m out"
  shows "io_written sv u mem fs (n + m) out"
proof -
  obtain r sv' fs' k where o: "out = Some (r, sv', uio_advance k (uio_advance n u), mem, fs')" "0 \<le> k" "k \<le> m"
      "written sv1 fs1 sv' fs' (nat (uio_offset (uio_advance n u))) (read_bytes (iov_base (uio_advance n u)) (nat k) (um_bytes mem))"
      "r = OK \<and> k = m \<or> r = ENOSPC \<and> disk_full fs'"
    using rest unfolding io_written_def by blast
  have "uio_offset (uio_advance n u) = uio_offset u + n" "iov_base (uio_advance n u) = iov_base u + n" using n by (simp_all add: uio_advance_def)
  then have "written sv1 fs1 sv' fs' (nat (uio_offset u) + nat n) (read_bytes (iov_base u + int (nat n)) (nat k) (um_bytes mem))"
    using o(4) n by (simp add: nat_add_distrib)
  then have "written sv fs sv' fs' (nat (uio_offset u)) (read_bytes (iov_base u) (nat (n + k)) (um_bytes mem))"
    using written_append[OF w] n(1) o(2) by (simp add: nat_add_distrib read_bytes_append)
  then show ?thesis unfolding io_written_def using o uio_advance_add[OF n(1) o(2), of u] n(1)
    by (intro exI[of _ r] exI[of _ sv'] exI[of _ fs'] exI[of _ "n + k"]) auto
qed

lemma written_ok: "written sv fs sv' fs' pos xs \<Longrightarrow> fs_ok fs'" "written sv fs sv' fs' pos xs \<Longrightarrow> file_ok sv' fs'"
  by (simp_all add: written_def grown_def)

lemma uio_fits_less: "uio_fits u mem n \<Longrightarrow> 0 \<le> k \<Longrightarrow> k \<le> n \<Longrightarrow> uio_fits u mem k"
  by (auto simp: uio_fits_def)

lemma blocks_write:
  assumes "fs_ok fs" and "file_ok sv fs" and "uio_fits u mem (512 * int n)" and "uio_offset u = int (i * 512)" and "i + n \<le> MAXBLOCKS" and "uio_rw u = UIO_WRITE"
  shows "io_written sv u mem fs (512 * int n) (sfs_blocks_loop n sv u mem fs)"
  using assms
proof (induction n arbitrary: sv u fs i)
  case 0
  have "written sv fs sv fs (nat (uio_offset u)) (read_bytes (iov_base u) (nat 0) (um_bytes mem))"
    using written_Nil[OF grown_refl[OF 0(1,2)]] by (simp add: read_bytes_def)
  moreover have "uio_advance 0 u = u" using uio_advance_0 0(3) by auto
  ultimately show ?case unfolding io_written_def by (intro exI[of _ OK] exI[of _ sv] exI[of _ fs] exI[of _ 0]) simp
next
  case (Suc n)
  have i: "i < 143" "uio_offset u = int i * 512" using Suc.prems(4,5) by (simp_all add: MAXBLOCKS_def)
  have b: "in_block u mem i 0 512" using uio_fits_less[OF Suc.prems(3), of 512] Suc.prems(4,5) by (simp add: in_block_def)
  from block_write[OF Suc.prems(1,2) b Suc.prems(6)] show ?case
  proof (cases rule: io_written_cases)
    case (no_space sv' fs' u')
    then show ?thesis by simp
  next
    case (finished sv1 fs1)
    let ?u = "uio_advance 512 u"
    have u: "uio_offset ?u = int ((i + 1) * 512)" "uio_rw ?u = UIO_WRITE" using i Suc.prems(6) by (simp_all add: uio_advance_def algebra_simps)
    have "uio_fits ?u mem (512 * int n)" using uio_fits_advance[OF Suc.prems(3), of 512 "um_bytes mem"] by simp
    from Suc.IH[OF written_ok[OF finished(2)] this u(1) _ u(2)] Suc.prems(5)
    have "io_written sv1 ?u mem fs1 (512 * int n) (sfs_blocks_loop n sv1 ?u mem fs1)" by simp
    from io_written_then[OF finished(2) _ _ _ this] i show ?thesis using finished(1) by (simp add: algebra_simps)
  qed
qed

lemma resid_advance: "uio_fits u mem n \<Longrightarrow> 0 \<le> k \<Longrightarrow> k \<le> n \<Longrightarrow> uio_resid (uio_advance k u) = uio_resid u - k"
  by (simp add: uio_advance_def uio_fits_def)

lemma aligned_write:
  assumes ok: "fs_ok fs" "file_ok sv fs" and fits: "uio_fits u mem (uio_resid u)" and off: "uio_offset u = int (i * 512)"
    and room: "uio_offset u + uio_resid u \<le> int MAXBYTES" and w: "uio_rw u = UIO_WRITE"
  shows "io_written sv u mem fs (uio_resid u) (sfs_io_aligned sv u mem fs)"
proof -
  define n rest where "n = nat (uio_resid u div 512)" and "rest = uio_resid u mod 512"
  have r0: "0 \<le> uio_resid u" using fits by (simp add: uio_fits_def)
  then have nr: "uio_resid u = 512 * int n + rest" "0 \<le> rest" "rest < 512" by (simp_all add: n_def rest_def pos_imp_zdiv_nonneg_iff)
  have al: "c_mod (uio_offset u) 512 = 0" by (simp add: off c_div_nonneg)
  have "512 * (int i + int n) \<le> 73216" using room off nr by (simp add: MAXBYTES_def)
  then have im: "i + n \<le> MAXBLOCKS" by (simp add: MAXBLOCKS_def)
  have f1: "uio_fits u mem (512 * int n)" using uio_fits_less[OF fits] nr by simp
  from blocks_write[OF ok f1 off im w] show ?thesis
  proof (cases rule: io_written_cases)
    case (no_space sv' fs' u')
    then have "sfs_io_aligned sv u mem fs = sfs_blocks_loop n sv u mem fs" using al by (simp add: sfs_io_aligned_def SFS_BLOCKSIZE_def n_def)
    then show ?thesis using no_space(2) nr by simp
  next
    case (finished sv1 fs1)
    let ?u = "uio_advance (512 * int n) u"
    have res: "uio_resid ?u = rest" using resid_advance[OF f1] nr by simp
    have run: "sfs_io_aligned sv u mem fs = (if rest > 0 then sfs_partialio sv1 ?u mem 0 rest fs1 else Some (OK, sv1, ?u, mem, fs1))"
      using al finished(1) res nr(3) by (simp add: sfs_io_aligned_def SFS_BLOCKSIZE_def n_def)
    show ?thesis
    proof (cases "rest = 0")
      case True
      then show ?thesis unfolding io_written_def run using finished(2) nr by (intro exI[of _ OK] exI[of _ sv1] exI[of _ fs1] exI[of _ "512 * int n"]) simp
    next
      case False
      have o: "uio_offset ?u = int ((i + n) * 512)" using off room nr by (simp add: uio_advance_def MAXBYTES_def algebra_simps)
      have "512 * (int i + int n) + rest \<le> 73216" using room off nr by (simp add: MAXBYTES_def)
      then have "i + n < MAXBLOCKS" using False nr(2) by (simp add: MAXBLOCKS_def)
      moreover have "uio_fits ?u mem rest" using uio_fits_advance[OF fits, of "512 * int n" "um_bytes mem"] nr by simp
      ultimately have b: "in_block ?u mem (i + n) 0 rest" using o nr by (simp add: in_block_def)
      have "io_written sv1 ?u mem fs1 rest (sfs_io_aligned sv u mem fs)"
        using partial_write[OF written_ok[OF finished(2)] b] w run False nr(2) by (simp add: uio_advance_def)
      from io_written_then[OF finished(2) _ _ _ this] show ?thesis using nr off room by (simp add: MAXBYTES_def)
    qed
  qed
qed

text \<open>The number of bytes in the leading partial block, and where the next block starts.\<close>

lemma head_block:
  assumes fits: "uio_fits u mem (uio_resid u)" and off: "0 \<le> uio_offset u" "uio_offset u + uio_resid u \<le> int MAXBYTES" "uio_offset u mod 512 \<noteq> 0"
  defines "blkoff \<equiv> uio_offset u mod 512" and "i \<equiv> nat (uio_offset u div 512)"
  defines "len \<equiv> (if 512 - blkoff > uio_resid u then uio_resid u else 512 - blkoff)"
  shows "u32 (c_mod (uio_offset u) SFS_BLOCKSIZE) = blkoff" and "in_block u mem i (nat blkoff) len" and "nat blkoff < 512" "int (nat blkoff) = blkoff" "0 \<le> len" "len \<le> uio_resid u"
    and "uio_resid u - len \<noteq> 0 \<Longrightarrow> uio_offset u + len = int ((i + 1) * 512)" "blkoff \<noteq> 0"
proof -
  have bl: "0 \<le> blkoff" "blkoff < 512" by (simp_all add: blkoff_def)
  have r: "0 \<le> uio_resid u" using fits by (simp add: uio_fits_def)
  have o: "uio_offset u = 512 * int i + blkoff" using off(1) by (simp add: i_def blkoff_def pos_imp_zdiv_nonneg_iff)
  show "u32 (c_mod (uio_offset u) SFS_BLOCKSIZE) = blkoff" using off(1) bl by (simp add: c_div_nonneg SFS_BLOCKSIZE_def blkoff_def)
  show "nat blkoff < 512" "int (nat blkoff) = blkoff" using bl by simp_all
  show l: "0 \<le> len" "len \<le> uio_resid u" using r bl by (auto simp: len_def)
  show "blkoff \<noteq> 0" using off(3) by (simp add: blkoff_def)
  then have "512 * int i < 73216" using o off r bl by (simp add: MAXBYTES_def)
  then have "i < MAXBLOCKS" by (simp add: MAXBLOCKS_def)
  moreover have "blkoff + len \<le> 512" using bl by (simp add: len_def)
  ultimately show "in_block u mem i (nat blkoff) len" using uio_fits_less[OF fits l] o bl by (simp add: in_block_def)
  show "uio_resid u - len \<noteq> 0 \<Longrightarrow> uio_offset u + len = int ((i + 1) * 512)" using o by (simp add: len_def split: if_splits)
qed

lemma middle_write:
  assumes ok: "fs_ok fs" "file_ok sv fs" and fits: "uio_fits u mem (uio_resid u)" and off: "0 \<le> uio_offset u"
    and room: "uio_offset u + uio_resid u \<le> int MAXBYTES" and w: "uio_rw u = UIO_WRITE"
  shows "io_written sv u mem fs (uio_resid u) (sfs_io_middle sv u mem fs)"
proof (cases "uio_offset u mod 512 = 0")
  case True
  then obtain i where i: "uio_offset u = int (i * 512)" using off by (metis dvd_imp_mod_0 mod_0_imp_dvd int_dvd_int_iff dvdE mult.commute nonneg_int_cases of_nat_numeral)
  have bl: "u32 (c_mod (uio_offset u) SFS_BLOCKSIZE) = 0" using True off by (simp add: c_div_nonneg SFS_BLOCKSIZE_def)
  show ?thesis
  proof (cases "uio_resid u = 0")
    case True
    have "written sv fs sv fs (nat (uio_offset u)) (read_bytes (iov_base u) (nat 0) (um_bytes mem))"
      using written_Nil[OF grown_refl[OF ok]] by (simp add: read_bytes_def)
    then show ?thesis unfolding io_written_def using True bl uio_advance_0[OF fits]
      by (intro exI[of _ OK] exI[of _ sv] exI[of _ fs] exI[of _ 0]) (simp add: sfs_io_middle_def)
  next
    case False
    then have "sfs_io_middle sv u mem fs = sfs_io_aligned sv u mem fs" using bl by (simp add: sfs_io_middle_def)
    then show ?thesis using aligned_write[OF ok fits i room w] by simp
  qed
next
  case False
  define blkoff i where "blkoff = uio_offset u mod 512" and "i = nat (uio_offset u div 512)"
  define len where "len = (if 512 - blkoff > uio_resid u then uio_resid u else 512 - blkoff)"
  note H = head_block[OF fits off room False, folded blkoff_def i_def, folded len_def]
  from partial_write[OF ok H(2,3) w] show ?thesis
  proof (cases rule: io_written_cases)
    case (no_space sv' fs' u')
    then have "sfs_io_middle sv u mem fs = sfs_partialio sv u mem (int (nat blkoff)) len fs"
      using H(1,4,8) by (simp add: sfs_io_middle_def SFS_BLOCKSIZE_def len_def[symmetric])
    then show ?thesis using no_space(2) H(6) by simp
  next
    case (finished sv1 fs1)
    let ?u = "uio_advance len u"
    have res: "uio_resid ?u = uio_resid u - len" by (rule resid_advance[OF fits H(5,6)])
    have run: "sfs_io_middle sv u mem fs = (if uio_resid u - len = 0 then Some (OK, sv1, ?u, mem, fs1) else sfs_io_aligned sv1 ?u mem fs1)"
      using H(1,4,8) finished(1) res by (simp add: sfs_io_middle_def SFS_BLOCKSIZE_def len_def[symmetric])
    show ?thesis
    proof (cases "uio_resid u - len = 0")
      case True
      then show ?thesis unfolding io_written_def run using finished(2) H(5) by (intro exI[of _ OK] exI[of _ sv1] exI[of _ fs1] exI[of _ len]) simp
    next
      case False
      have o: "uio_offset ?u = uio_offset u + len" using off H(5,6) room by (simp add: uio_advance_def MAXBYTES_def)
      have f: "uio_fits ?u mem (uio_resid ?u)" using uio_fits_advance[OF fits H(5,6), of "um_bytes mem"] res by simp
      have "uio_offset ?u = int ((i + 1) * 512)" using o H(7)[OF False] by simp
      from aligned_write[OF written_ok[OF finished(2)] f this] w room o res
      have "io_written sv1 ?u mem fs1 (uio_resid u - len) (sfs_io_middle sv u mem fs)" using run False by (simp add: uio_advance_def)
      from io_written_then[OF finished(2) H(5) off _ this] show ?thesis using H(6) room by (simp add: MAXBYTES_def)
    qed
  qed
qed

section \<open>Reading\<close>

text \<open>Reading changes only what the disk's own buffer holds.\<close>

definition reads :: "sfs_fs \<Rightarrow> sfs_fs \<Rightarrow> bool" where
  "reads fs fs' \<longleftrightarrow> fs_ok fs' \<and> sect fs' = sect fs \<and> sfs_super fs' = sfs_super fs \<and> sfs_freemap fs' = sfs_freemap fs"

lemma reads_refl: "fs_ok fs \<Longrightarrow> reads fs fs"
  by (simp add: reads_def)

lemma reads_trans: "reads a b \<Longrightarrow> reads b c \<Longrightarrow> reads a c"
  by (simp add: reads_def)

lemma reads_dev_read: "reads fs fs1 \<Longrightarrow> reads fs (dev_read b fs1)"
  by (simp add: reads_def dev_read_ok)

lemma reads_file:
  assumes "reads fs fs'"
  shows "file_bn sv fs' = file_bn sv fs" "file_blk sv fs' = file_blk sv fs" "file_byte sv fs' = file_byte sv fs" "owned sv fs' = owned sv fs" "file_ok sv fs' = file_ok sv fs"
    "marked fs' = marked fs"
proof -
  have e: "sv_i sv = (sv_i sv)\<lparr>sfi_size := sfi_size (sv_i sv)\<rparr>" by simp
  have s: "sect fs' = sect fs" using assms by (simp add: reads_def)
  show m: "marked fs' = marked fs" using assms by (auto simp: reads_def marked_def)
  show "file_bn sv fs' = file_bn sv fs" "file_blk sv fs' = file_blk sv fs" "file_byte sv fs' = file_byte sv fs" "owned sv fs' = owned sv fs" "file_ok sv fs' = file_ok sv fs"
    using file_cong[OF e s] m by (simp_all add: file_ok_def)
qed

definition io_read :: "sfs_vnode \<Rightarrow> uio \<Rightarrow> umem \<Rightarrow> sfs_fs \<Rightarrow> int \<Rightarrow> (errno \<times> sfs_vnode \<times> uio \<times> umem \<times> sfs_fs) option \<Rightarrow> bool" where
  "io_read sv u mem fs n out \<longleftrightarrow> (\<exists>fs'. reads fs fs' \<and> out = Some (OK, sv, uio_advance n u,
     mem\<lparr>um_bytes := write_bytes (iov_base u) (map (file_byte sv fs) [nat (uio_offset u)..<nat (uio_offset u) + nat n]) (um_bytes mem)\<rparr>, fs'))"

lemma block_bytes:
  assumes "fs_ok fs" and "skip + n \<le> 512"
  shows "take n (drop skip (file_blk sv fs i)) = map (file_byte sv fs) [i * 512 + skip..<i * 512 + skip + n]"
proof (rule nth_equalityI)
  show "length (take n (drop skip (file_blk sv fs i))) = length (map (file_byte sv fs) [i * 512 + skip..<i * 512 + skip + n])"
    using length_file_blk[OF assms(1), of sv i] assms(2) by simp
  fix k assume "k < length (take n (drop skip (file_blk sv fs i)))"
  then have k: "k < n" "skip + k < 512" "skip + k < length (file_blk sv fs i)" using length_file_blk[OF assms(1), of sv i] assms(2) by auto
  have "(i * 512 + (skip + k)) div 512 = i" "(i * 512 + (skip + k)) mod 512 = skip + k" using k(2) by simp_all
  then have "file_byte sv fs (i * 512 + skip + k) = file_blk sv fs i ! (skip + k)" by (simp add: file_byte_def add.assoc)
  then show "take n (drop skip (file_blk sv fs i)) ! k = map (file_byte sv fs) [i * 512 + skip..<i * 512 + skip + n] ! k" using k by simp
qed

lemma partial_read:
  assumes ok: "fs_ok fs" "file_ok sv fs" and b: "in_block u mem i skip len" "skip < 512" and w: "uio_rw u = UIO_READ"
  shows "io_read sv u mem fs len (sfs_partialio sv u mem (int skip) len fs)"
proof -
  note B = in_blockD[OF b(1)] and fb = in_block_fileblock[OF b]
  have a: "u32 (int skip + len) \<le> SFS_BLOCKSIZE" using B(4,5) by (simp add: SFS_BLOCKSIZE_def)
  obtain fs1 where bm: "sfs_bmap sv (int i) False fs = Some (OK, file_bn sv fs i, sv, fs1)" and r1: "reads fs fs1"
    using bmap_lookup[OF ok B(3)] reads_refl[OF ok(1)] reads_dev_read by blast
  have ok1: "fs_ok fs1" using r1 by (simp add: reads_def)
  have sub: "skip + nat len \<le> 512" using B(4,5) by simp
  let ?buf = "drop skip (file_blk sv fs i)"
  let ?mem = "mem\<lparr>um_bytes := write_bytes (iov_base u) (take (nat len) ?buf) (um_bytes mem)\<rparr>"
  have mv: "uiomove ?buf len u mem = Some (OK, ?buf, uio_advance len u, ?mem)"
    using uiomove_spec[OF B(1,5), of len ?buf] w sub length_file_blk[OF ok(1), of sv i] by (simp add: min_def)
  have "\<exists>fs'. reads fs fs' \<and> sfs_partialio sv u mem (int skip) len fs = Some (OK, sv, uio_advance len u, ?mem, fs')"
  proof (cases "file_bn sv fs i = 0")
    case True
    then show ?thesis using a fb w bm mv r1 by (simp add: sfs_partialio_def file_blk_def)
  next
    case False
    let ?b = "file_bn sv fs i"
    have m: "marked fs1 ?b" using bn_marked[OF ok(2) B(3)] False reads_file(6)[OF r1] by simp
    have "sect fs1 ?b = file_blk sv fs i" using False r1 by (simp add: file_blk_def reads_def)
    then have "sfs_partialio sv u mem (int skip) len fs = Some (OK, sv, uio_advance len u, ?mem, dev_read ?b fs1)"
      using a fb w bm mv fs_read(1)[OF ok1 m] False by (simp add: sfs_partialio_def dev_read_def)
    then show ?thesis using reads_dev_read[OF r1] by blast
  qed
  then show ?thesis unfolding io_read_def block_bytes[OF ok(1) sub] B(2) .
qed

lemma block_read:
  assumes ok: "fs_ok fs" "file_ok sv fs" and b: "in_block u mem i 0 512" and w: "uio_rw u = UIO_READ"
  shows "io_read sv u mem fs 512 (sfs_blockio sv u mem fs)"
proof -
  note B = in_blockD[OF b] and fb = in_block_fileblock[OF b]
  have res: "512 \<le> uio_resid u" "uio_resid u < 2147483648" "0 \<le> uio_offset u" "uio_offset u < 2147483648 - 512"
    using b by (simp_all add: in_block_def uio_fits_def MAXBLOCKS_def)
  obtain fs1 where bm: "sfs_bmap sv (int i) False fs = Some (OK, file_bn sv fs i, sv, fs1)" and r1: "reads fs fs1"
    using bmap_lookup[OF ok B(3)] reads_refl[OF ok(1)] reads_dev_read by blast
  have ok1: "fs_ok fs1" using r1 by (simp add: reads_def)
  let ?mem = "mem\<lparr>um_bytes := write_bytes (iov_base u) (take 512 (drop 0 (file_blk sv fs i))) (um_bytes mem)\<rparr>"
  have l: "take 512 (drop 0 (file_blk sv fs i)) = file_blk sv fs i" using length_file_blk[OF ok(1), of sv i] by simp
  have "\<exists>fs'. reads fs fs' \<and> sfs_blockio sv u mem fs = Some (OK, sv, uio_advance 512 u, ?mem, fs')"
  proof (cases "file_bn sv fs i = 0")
    case True
    have "uiomovezeros 512 u mem = Some (OK, uio_advance 512 u, ?mem)" using uiomovezeros_spec[OF B(1) w] True by (simp add: file_blk_def)
    then show ?thesis using True fb w bm r1 by (simp add: sfs_blockio_def SFS_BLOCKSIZE_def)
  next
    case False
    let ?b = "file_bn sv fs i"
    have m: "marked fs1 ?b" using bn_marked[OF ok(2) B(3)] False reads_file(6)[OF r1] by simp
    have bb: "0 \<le> ?b" "?b < d_blocks (sfs_device fs1)" "?b < 4194303" using m ok1 by (auto simp: marked_def fs_ok_def disk_ok_def)
    have sec: "sect fs1 ?b = file_blk sv fs i" using False r1 by (simp add: file_blk_def reads_def)
    let ?u = "u\<lparr>uio_offset := ?b * 512, uio_resid := 512\<rparr>"
    have "uio_fits ?u mem 512" using B(1) bb by (auto simp: uio_fits_def)
    then have rw: "sfs_rwblock ?u mem (sfs_device fs1) = Some (OK, uio_advance 512 ?u, ?mem, after_read ?b (sfs_device fs1))"
      using rwblock_read[of "sfs_device fs1" ?u mem ?b] ok1 bb w sec unfolding l by (simp add: fs_ok_def)
    have "uio_advance 512 ?u\<lparr>uio_offset := s32 (uio_offset (uio_advance 512 ?u) - ?b * 512 + uio_offset u),
        uio_resid := u32 (uio_resid (uio_advance 512 ?u) - 512 + uio_resid u)\<rparr> = uio_advance 512 u"
      using bb res by (simp add: uio_advance_def)
    then have "sfs_blockio sv u mem fs = Some (OK, sv, uio_advance 512 u, ?mem, dev_read ?b fs1)"
      using fb w bm rw res bb False by (simp add: sfs_blockio_def SFS_BLOCKSIZE_def dev_read_def Let_def)
    then show ?thesis using reads_dev_read[OF r1] by blast
  qed
  then show ?thesis unfolding io_read_def B(2) using block_bytes[OF ok(1), of 0 512 sv i] by simp
qed

lemma io_read_then:
  assumes r: "reads fs fs1" and n: "0 \<le> n" "0 \<le> m" "0 \<le> uio_offset u" "uio_offset u + n < 2147483648"
    and mem1: "mem1 = mem\<lparr>um_bytes := write_bytes (iov_base u) (map (file_byte sv fs) [nat (uio_offset u)..<nat (uio_offset u) + nat n]) (um_bytes mem)\<rparr>"
    and rest: "io_read sv (uio_advance n u) mem1 fs1 m out"
  shows "io_read sv u mem fs (n + m) out"
proof -
  let ?p = "nat (uio_offset u)"
  obtain fs' where fs': "reads fs1 fs'" "out = Some (OK, sv, uio_advance m (uio_advance n u), mem1\<lparr>um_bytes := write_bytes (iov_base (uio_advance n u))
      (map (file_byte sv fs1) [nat (uio_offset (uio_advance n u))..<nat (uio_offset (uio_advance n u)) + nat m]) (um_bytes mem1)\<rparr>, fs')"
    using rest unfolding io_read_def by blast
  have adv: "nat (uio_offset (uio_advance n u)) = ?p + nat n" "iov_base (uio_advance n u) = iov_base u + int (nat n)"
    using n by (simp_all add: uio_advance_def nat_add_distrib)
  have "[?p..<?p + nat n] @ [?p + nat n..<?p + nat n + nat m] = [?p..<?p + nat (n + m)]"
    using upt_add_eq_append[of ?p "?p + nat n" "nat m"] n by (simp add: nat_add_distrib add.assoc)
  then have l: "map (file_byte sv fs) [?p..<?p + nat n] @ map (file_byte sv fs) [?p + nat n..<?p + nat n + nat m] = map (file_byte sv fs) [?p..<?p + nat (n + m)]"
    by (metis map_append)
  have "write_bytes (iov_base u + int (nat n)) (map (file_byte sv fs) [?p + nat n..<?p + nat n + nat m])
      (write_bytes (iov_base u) (map (file_byte sv fs) [?p..<?p + nat n]) (um_bytes mem)) =
      write_bytes (iov_base u) (map (file_byte sv fs) [?p..<?p + nat (n + m)]) (um_bytes mem)"
    using write_bytes_append[of "iov_base u" "map (file_byte sv fs) [?p..<?p + nat n]"] by (simp add: l)
  then have "out = Some (OK, sv, uio_advance (n + m) u,
      mem\<lparr>um_bytes := write_bytes (iov_base u) (map (file_byte sv fs) [?p..<?p + nat (n + m)]) (um_bytes mem)\<rparr>, fs')"
    using fs'(2) uio_advance_add[OF n(1,2), of u] unfolding adv reads_file(3)[OF r] mem1 by simp
  then show ?thesis unfolding io_read_def using reads_trans[OF r fs'(1)] by blast
qed

lemma io_read_0: "fs_ok fs \<Longrightarrow> uio_fits u mem n \<Longrightarrow> io_read sv u mem fs 0 (Some (OK, sv, u, mem, fs))"
  unfolding io_read_def using reads_refl uio_advance_0[of u mem n] by (intro exI[of _ fs]) simp

lemma blocks_read:
  assumes "fs_ok fs" and "file_ok sv fs" and "uio_fits u mem (512 * int n)" and "uio_offset u = int (i * 512)" and "i + n \<le> MAXBLOCKS" and "uio_rw u = UIO_READ"
  shows "io_read sv u mem fs (512 * int n) (sfs_blocks_loop n sv u mem fs)"
  using assms
proof (induction n arbitrary: u mem fs i)
  case 0
  then show ?case using io_read_0[OF 0(1,3)] by simp
next
  case (Suc n)
  have i: "i < 143" "uio_offset u = int i * 512" using Suc.prems(4,5) by (simp_all add: MAXBLOCKS_def)
  have b: "in_block u mem i 0 512" using uio_fits_less[OF Suc.prems(3), of 512] Suc.prems(4,5) by (simp add: in_block_def)
  let ?u = "uio_advance 512 u"
  define mem1 where "mem1 = mem\<lparr>um_bytes := write_bytes (iov_base u) (map (file_byte sv fs) [nat (uio_offset u)..<nat (uio_offset u) + nat 512]) (um_bytes mem)\<rparr>"
  obtain fs1 where 1: "reads fs fs1" "sfs_blockio sv u mem fs = Some (OK, sv, ?u, mem1, fs1)"
    using block_read[OF Suc.prems(1,2) b Suc.prems(6)] unfolding io_read_def mem1_def by blast
  have u: "uio_offset ?u = int ((i + 1) * 512)" "uio_rw ?u = UIO_READ" using i Suc.prems(6) by (simp_all add: uio_advance_def algebra_simps)
  have f: "uio_fits ?u mem1 (512 * int n)" using uio_fits_advance[OF Suc.prems(3), of 512] by (simp add: mem1_def)
  have ok1: "fs_ok fs1" "file_ok sv fs1" using 1(1) Suc.prems(2) reads_file(5)[OF 1(1)] by (simp_all add: reads_def)
  from Suc.IH[OF ok1 f u(1) _ u(2)] Suc.prems(5)
  have "io_read sv ?u mem1 fs1 (512 * int n) (sfs_blocks_loop n sv ?u mem1 fs1)" by simp
  from io_read_then[OF 1(1) _ _ _ _ mem1_def this] i show ?case using 1(2) by (simp add: algebra_simps)
qed

lemma aligned_read:
  assumes ok: "fs_ok fs" "file_ok sv fs" and fits: "uio_fits u mem (uio_resid u)" and off: "uio_offset u = int (i * 512)"
    and room: "uio_offset u + uio_resid u \<le> int MAXBYTES" and w: "uio_rw u = UIO_READ"
  shows "io_read sv u mem fs (uio_resid u) (sfs_io_aligned sv u mem fs)"
proof -
  define n rest where "n = nat (uio_resid u div 512)" and "rest = uio_resid u mod 512"
  have r0: "0 \<le> uio_resid u" using fits by (simp add: uio_fits_def)
  then have nr: "uio_resid u = 512 * int n + rest" "0 \<le> rest" "rest < 512" by (simp_all add: n_def rest_def pos_imp_zdiv_nonneg_iff)
  have al: "c_mod (uio_offset u) 512 = 0" by (simp add: off c_div_nonneg)
  have "512 * (int i + int n) \<le> 73216" using room off nr by (simp add: MAXBYTES_def)
  then have im: "i + n \<le> MAXBLOCKS" by (simp add: MAXBLOCKS_def)
  have f1: "uio_fits u mem (512 * int n)" using uio_fits_less[OF fits] nr by simp
  let ?u = "uio_advance (512 * int n) u"
  define mem1 where "mem1 = mem\<lparr>um_bytes := write_bytes (iov_base u) (map (file_byte sv fs) [nat (uio_offset u)..<nat (uio_offset u) + nat (512 * int n)]) (um_bytes mem)\<rparr>"
  obtain fs1 where 1: "reads fs fs1" "sfs_blocks_loop n sv u mem fs = Some (OK, sv, ?u, mem1, fs1)"
    using blocks_read[OF ok f1 off im w] unfolding io_read_def mem1_def by blast
  have ok1: "fs_ok fs1" "file_ok sv fs1" using 1(1) ok(2) reads_file(5)[OF 1(1)] by (simp_all add: reads_def)
  have res: "uio_resid ?u = rest" using resid_advance[OF f1] nr by simp
  have o: "uio_offset ?u = int ((i + n) * 512)" using off room nr by (simp add: uio_advance_def MAXBYTES_def algebra_simps)
  have f: "uio_fits ?u mem1 rest" using uio_fits_advance[OF fits, of "512 * int n"] nr by (simp add: mem1_def)
  have run: "sfs_io_aligned sv u mem fs = (if rest > 0 then sfs_partialio sv ?u mem1 0 rest fs1 else Some (OK, sv, ?u, mem1, fs1))"
    using al 1(2) res nr(3) by (simp add: sfs_io_aligned_def SFS_BLOCKSIZE_def n_def)
  have "io_read sv ?u mem1 fs1 rest (sfs_io_aligned sv u mem fs)"
  proof (cases "rest = 0")
    case True
    then show ?thesis using io_read_0[OF ok1(1) f] run by simp
  next
    case False
    have "512 * (int i + int n) + rest \<le> 73216" using room off nr by (simp add: MAXBYTES_def)
    then have "i + n < MAXBLOCKS" using False nr(2) by (simp add: MAXBLOCKS_def)
    then have b: "in_block ?u mem1 (i + n) 0 rest" using o nr f by (simp add: in_block_def)
    show ?thesis using partial_read[OF ok1 b] w run False nr(2) by (simp add: uio_advance_def)
  qed
  from io_read_then[OF 1(1) _ _ _ _ mem1_def this] show ?thesis using nr off room by (simp add: MAXBYTES_def)
qed

lemma middle_read:
  assumes ok: "fs_ok fs" "file_ok sv fs" and fits: "uio_fits u mem (uio_resid u)" and off: "0 \<le> uio_offset u"
    and room: "uio_offset u + uio_resid u \<le> int MAXBYTES" and w: "uio_rw u = UIO_READ"
  shows "io_read sv u mem fs (uio_resid u) (sfs_io_middle sv u mem fs)"
proof (cases "uio_offset u mod 512 = 0")
  case True
  then obtain i where i: "uio_offset u = int (i * 512)" using off by (metis dvd_imp_mod_0 mod_0_imp_dvd int_dvd_int_iff dvdE mult.commute nonneg_int_cases of_nat_numeral)
  have bl: "u32 (c_mod (uio_offset u) SFS_BLOCKSIZE) = 0" using True off by (simp add: c_div_nonneg SFS_BLOCKSIZE_def)
  show ?thesis
  proof (cases "uio_resid u = 0")
    case True
    then show ?thesis using bl io_read_0[OF ok(1) fits] by (simp add: sfs_io_middle_def)
  next
    case False
    then have "sfs_io_middle sv u mem fs = sfs_io_aligned sv u mem fs" using bl by (simp add: sfs_io_middle_def)
    then show ?thesis using aligned_read[OF ok fits i room w] by simp
  qed
next
  case False
  define blkoff i where "blkoff = uio_offset u mod 512" and "i = nat (uio_offset u div 512)"
  define len where "len = (if 512 - blkoff > uio_resid u then uio_resid u else 512 - blkoff)"
  note H = head_block[OF fits off room False, folded blkoff_def i_def, folded len_def]
  let ?u = "uio_advance len u"
  define mem1 where "mem1 = mem\<lparr>um_bytes := write_bytes (iov_base u) (map (file_byte sv fs) [nat (uio_offset u)..<nat (uio_offset u) + nat len]) (um_bytes mem)\<rparr>"
  obtain fs1 where 1: "reads fs fs1" "sfs_partialio sv u mem (int (nat blkoff)) len fs = Some (OK, sv, ?u, mem1, fs1)"
    using partial_read[OF ok H(2,3) w] unfolding io_read_def mem1_def by blast
  have ok1: "fs_ok fs1" "file_ok sv fs1" using 1(1) ok(2) reads_file(5)[OF 1(1)] by (simp_all add: reads_def)
  have res: "uio_resid ?u = uio_resid u - len" by (rule resid_advance[OF fits H(5,6)])
  have run: "sfs_io_middle sv u mem fs = (if uio_resid u - len = 0 then Some (OK, sv, ?u, mem1, fs1) else sfs_io_aligned sv ?u mem1 fs1)"
    using H(1,4,8) 1(2) res by (simp add: sfs_io_middle_def SFS_BLOCKSIZE_def len_def[symmetric])
  have f: "uio_fits ?u mem1 (uio_resid ?u)" using uio_fits_advance[OF fits H(5,6)] res by (simp add: mem1_def)
  have o: "uio_offset ?u = uio_offset u + len" using off H(5,6) room by (simp add: uio_advance_def MAXBYTES_def)
  have "io_read sv ?u mem1 fs1 (uio_resid u - len) (sfs_io_middle sv u mem fs)"
  proof (cases "uio_resid u - len = 0")
    case True
    then show ?thesis using io_read_0[OF ok1(1) f] run by simp
  next
    case False
    have "uio_offset ?u = int ((i + 1) * 512)" using o H(7)[OF False] by simp
    from aligned_read[OF ok1 f this] w room o res show ?thesis using run False by (simp add: uio_advance_def)
  qed
  from io_read_then[OF 1(1) H(5) _ off _ mem1_def this] show ?thesis using H(6) room by (simp add: MAXBYTES_def)
qed

section \<open>The whole transfer\<close>

lemma uio_resid_id: "uio_resid u = r \<Longrightarrow> u\<lparr>uio_resid := r\<rparr> = u"
  by simp

lemma sfs_io_read:
  assumes ok: "fs_ok fs" "file_ok sv fs" and s: "0 \<le> sfi_size (sv_i sv)" "sfi_size (sv_i sv) \<le> int MAXBYTES"
    and off: "0 \<le> uio_offset u" "0 \<le> uio_resid u" "uio_offset u + uio_resid u < 2147483648" and r: "uio_rw u = UIO_READ"
    and n: "n = (if uio_offset u < sfi_size (sv_i sv) then min (uio_resid u) (sfi_size (sv_i sv) - uio_offset u) else 0)" and fits: "uio_fits u mem n"
  shows "io_read sv u mem fs n (sfs_io sv u mem fs)"
proof (cases "uio_offset u < sfi_size (sv_i sv)")
  case False
  then have "sfs_io sv u mem fs = Some (OK, sv, u, mem, fs)" using r s by (simp add: sfs_io_def MAXBYTES_def)
  then show ?thesis using io_read_0[OF ok(1) fits] False n by simp
next
  case True
  define extra where "extra = uio_resid u - n"
  have n': "0 \<le> n" "n \<le> uio_resid u" "uio_offset u + n \<le> sfi_size (sv_i sv)" "0 < n \<or> uio_resid u = 0" "0 < uio_resid u \<Longrightarrow> 0 < n" using True off n by auto
  let ?u = "u\<lparr>uio_resid := n\<rparr>"
  have ends: "s32 (uio_offset u + uio_resid u) = uio_offset u + uio_resid u" "s32 (sfi_size (sv_i sv)) = sfi_size (sv_i sv)"
    using off s by (simp_all add: MAXBYTES_def)
  have ex: "(if uio_rw u = UIO_READ \<and> uio_offset u + uio_resid u > sfi_size (sv_i sv) then u32 (uio_offset u + uio_resid u - sfi_size (sv_i sv)) else 0) = extra"
    using True r off s n by (auto simp: extra_def min_def)
  have as: "extra = 0 \<or> uio_resid u > extra" using n' by (auto simp: extra_def)
  have f: "uio_fits ?u mem (uio_resid ?u)" using fits n' off by (auto simp: uio_fits_def)
  have eq: "uio_offset ?u = uio_offset u" "iov_base ?u = iov_base u" "uio_resid ?u = n" by simp_all
  obtain fs' where m: "reads fs fs'" "sfs_io_middle sv ?u mem fs = Some (OK, sv, uio_advance n ?u,
      mem\<lparr>um_bytes := write_bytes (iov_base u) (map (file_byte sv fs) [nat (uio_offset u)..<nat (uio_offset u) + nat n]) (um_bytes mem)\<rparr>, fs')"
    using middle_read[OF ok f] off n' s r unfolding io_read_def eq by auto
  have adv: "(uio_advance n ?u)\<lparr>uio_resid := u32 (uio_resid (uio_advance n ?u) + extra)\<rparr> = uio_advance n u"
    using n' off by (simp add: uio_advance_def extra_def)
  have "u\<lparr>uio_resid := uio_resid u - extra\<rparr> = ?u" by (simp add: extra_def)
  moreover have "uio_rw (uio_advance n ?u) = UIO_READ" using r by (simp add: uio_advance_def)
  ultimately have "sfs_io sv u mem fs = Some (OK, sv, uio_advance n u,
      mem\<lparr>um_bytes := write_bytes (iov_base u) (map (file_byte sv fs) [nat (uio_offset u)..<nat (uio_offset u) + nat n]) (um_bytes mem)\<rparr>, fs')"
    using True ends ex as m(2) adv unfolding sfs_io_def by (simp add: Let_def)
  then show ?thesis unfolding io_read_def using m(1) by blast
qed

lemma sfs_io_write:
  assumes ok: "fs_ok fs" "file_ok sv fs" and s: "0 \<le> sfi_size (sv_i sv)" "sfi_size (sv_i sv) < 2147483648"
    and fits: "uio_fits u mem (uio_resid u)" and off: "0 \<le> uio_offset u" "uio_offset u + uio_resid u \<le> int MAXBYTES" and w: "uio_rw u = UIO_WRITE"
  shows "\<exists>r sv1 sv' fs' k. sfs_io sv u mem fs = Some (r, sv', uio_advance k u, mem, fs') \<and> 0 \<le> k \<and> k \<le> uio_resid u \<and>
    written sv fs sv1 fs' (nat (uio_offset u)) (read_bytes (iov_base u) (nat k) (um_bytes mem)) \<and> (r = OK \<and> k = uio_resid u \<or> r = ENOSPC \<and> disk_full fs') \<and>
    sv_i sv' = (sv_i sv1)\<lparr>sfi_size := max (sfi_size (sv_i sv)) (uio_offset u + k)\<rparr>"
proof -
  obtain r sv1 fs' k where m: "sfs_io_middle sv u mem fs = Some (r, sv1, uio_advance k u, mem, fs')" "0 \<le> k" "k \<le> uio_resid u"
      "written sv fs sv1 fs' (nat (uio_offset u)) (read_bytes (iov_base u) (nat k) (um_bytes mem))" "r = OK \<and> k = uio_resid u \<or> r = ENOSPC \<and> disk_full fs'"
    using middle_write[OF ok fits off w] unfolding io_written_def by blast
  have size1: "sfi_size (sv_i sv1) = sfi_size (sv_i sv)" using m(4) by (auto simp: written_def grown_def remapped_def)
  have adv: "uio_offset (uio_advance k u) = uio_offset u + k" "uio_rw (uio_advance k u) = UIO_WRITE" "uio_resid (uio_advance k u) = uio_resid u - k"
    using m(2,3) off w resid_advance[OF fits m(2,3)] by (simp_all add: uio_advance_def MAXBYTES_def)
  have res: "(uio_advance k u)\<lparr>uio_resid := u32 (uio_resid u - k)\<rparr> = uio_advance k u" by (simp add: uio_advance_def)
  define sv' where "sv' = (if uio_offset u + k > sfi_size (sv_i sv) then sv1\<lparr>sv_i := (sv_i sv1)\<lparr>sfi_size := u32 (uio_offset u + k)\<rparr>, sv_dirty := True\<rparr> else sv1)"
  have "sfs_io sv u mem fs = Some (r, sv', uio_advance k u, mem, fs')"
    using w m(1) adv size1 s res by (simp add: sfs_io_def sv'_def)
  moreover have "sv_i sv' = (sv_i sv1)\<lparr>sfi_size := max (sfi_size (sv_i sv)) (uio_offset u + k)\<rparr>"
    using size1 m(2,3) off by (simp add: sv'_def MAXBYTES_def max_def)
  ultimately show ?thesis using m(2-5) by blast
qed

end
