(* ===== verification/Spec2Isabelle.thy ===== *)
theory Spec2Isabelle
  imports Libc_Memory Libc_Printf Kernel_Array Kernel_Bitmap Kernel_Queue Thread_System Synch Vm_Addrspace Kernel_Heap Sfs_Io
begin

text \<open>
  A model of the OS/161 kernel and its libraries (\<^verbatim>\<open>src/os161-1.11\<close>).
\<close>

end
